(* ===== verification/Prelude.thy ===== *)
theory Prelude
  imports Main "HOL-Library.Word"
begin

text \<open>
  Shared vocabulary of the development: the fixed-width integer types of
  \<^verbatim>\<open>include/stdint.h\<close>, C strings, the outcome of an operation that may fail to
  return, and the generic facts on words, lists and options that the component theories
  use.
\<close>

unbundle bit_operations_syntax

section \<open>Integer types\<close>

type_synonym u8 = "8 word"
type_synonym u16 = "16 word"
type_synonym u32 = "32 word"

text \<open>Facts that unfold a component's data structure or invariant are collected here.\<close>

named_theorems inv_defs
named_theorems frame_simps

section \<open>C strings\<close>

text \<open>
  A C string is the list of its bytes before the terminating NUL. A string literal of the
  source is written as a HOL string and converted by \<open>cstr\<close>.
\<close>

definition cstr :: "string \<Rightarrow> u8 list" where
  "cstr s = map (\<lambda>c. of_nat (of_char c)) s"

lemma length_cstr [simp]: "length (cstr s) = length s"
  by (simp add: cstr_def)

section \<open>Operations that may not return\<close>

text \<open>
  Kernel code leaves a function in other ways than by \<^verbatim>\<open>return\<close>: \<^verbatim>\<open>spin_forever\<close>
  and \<^verbatim>\<open>page_fault_panic\<close> loop for ever, an access outside an array or through a
  pointer to no object has no defined effect, and a loop over device registers or over a
  linked structure may run for ever.
\<close>

datatype stop = Spin_forever | Panic | Bad_access | Diverges

datatype ('a, 's) outcome = Ret 'a 's | Stop stop 's

fun and_then :: "('a, 's) outcome \<Rightarrow> ('a \<Rightarrow> 's \<Rightarrow> ('b, 's) outcome) \<Rightarrow> ('b, 's) outcome" where
  "and_then (Ret a s) f = f a s"
| "and_then (Stop e s) f = Stop e s"

lemma and_then_cong [fundef_cong]:
  "m = m' \<Longrightarrow> (\<And>a s. m' = Ret a s \<Longrightarrow> f a s = g a s) \<Longrightarrow> and_then m f = and_then m' g"
  by (cases m') auto

lemma and_then_Ret_iff:
  "and_then m f = Ret b t \<longleftrightarrow> (\<exists>a s. m = Ret a s \<and> f a s = Ret b t)"
  by (cases m) auto

lemma and_then_assoc: "and_then (and_then m f) g = and_then m (\<lambda>a s. and_then (f a s) g)"
  by (cases m) auto

section \<open>Words\<close>

lemma unat_u32_lt [simp]: "unat (w :: u32) < 4294967296"
  by (rule order.strict_trans2 [OF unsigned_less]) simp

lemma unat_u16_lt [simp]: "unat (w :: u16) < 65536"
  by (rule order.strict_trans2 [OF unsigned_less]) simp

lemma unat_u8_lt [simp]: "unat (w :: u8) < 256"
  by (rule order.strict_trans2 [OF unsigned_less]) simp

lemma unat_of_nat_u32 [simp]: "n < 4294967296 \<Longrightarrow> unat (of_nat n :: u32) = n"
  by (simp add: unat_of_nat take_bit_eq_mod)

lemma unat_of_nat_u16: "n < 65536 \<Longrightarrow> unat (of_nat n :: u16) = n"
  by (simp add: unat_of_nat take_bit_eq_mod)

lemma of_nat_u32_eq_iff:
  "a < 4294967296 \<Longrightarrow> b < 4294967296 \<Longrightarrow> (of_nat a :: u32) = of_nat b \<longleftrightarrow> a = b"
  by (metis unat_of_nat_u32)

lemma of_nat_u32_eq_0_iff: "a < 4294967296 \<Longrightarrow> (of_nat a :: u32) = 0 \<longleftrightarrow> a = 0"
  using of_nat_u32_eq_iff [of a 0] by simp

lemma unat_add_u32_nowrap:
  "unat (a :: u32) + unat b < 4294967296 \<Longrightarrow> unat (a + b) = unat a + unat b"
  by (simp add: unat_word_ariths)

lemma unat_sub_u32_le: "(b :: u32) \<le> a \<Longrightarrow> unat (a - b) = unat a - unat b"
  by (simp add: unat_sub word_le_nat_alt)


text \<open>Widening keeps the value.\<close>

lemma unat_ucast_widen [simp]:
  "unat (ucast (a :: u8) :: u32) = unat a" "unat (ucast (a :: u8) :: u16) = unat a"
  "unat (ucast (b :: u16) :: u32) = unat b"
proof -
  have "unat a < 2 ^ 32" "unat a < 2 ^ 16" by (rule order.strict_trans [OF unat_u8_lt], simp)+
  then show "unat (ucast a :: u32) = unat a" "unat (ucast a :: u16) = unat a"
    by (simp_all add: unsigned_ucast_eq take_bit_nat_eq_self)
  have "unat b < 2 ^ 32" by (rule order.strict_trans [OF unat_u16_lt]) simp
  then show "unat (ucast b :: u32) = unat b" by (simp add: unsigned_ucast_eq take_bit_nat_eq_self)
qed

text \<open>Clearing the low bits of a word, as \<^verbatim>\<open>x & ~(2^n - 1)\<close> does.\<close>

lemma and_not_mask_eq_diff: "(x :: 'a::len word) AND NOT (mask n) = x - take_bit n x"
proof -
  have "(x AND NOT (mask n)) + take_bit n x = (x AND NOT (mask n)) OR take_bit n x"
    by (rule disjunctive_add) (auto simp: bit_simps)
  also have "\<dots> = x" by (rule bit_word_eqI) (auto simp: bit_simps)
  finally show ?thesis by (simp add: algebra_simps)
qed

lemma unat_and_not_mask: "unat ((x :: 'a::len word) AND NOT (mask n)) = unat x div 2 ^ n * 2 ^ n"
proof -
  have low: "unat (take_bit n x) = unat x mod 2 ^ n"
    by (metis take_bit_eq_mod unsigned_take_bit_eq)
  then have "take_bit n x \<le> x" by (simp add: word_le_nat_alt)
  with low show ?thesis
    by (simp add: and_not_mask_eq_diff unat_sub word_le_nat_alt minus_mod_eq_div_mult)
qed

lemma u32_masks: "(0xfffffff8 :: u32) = NOT (mask 3)" "(0xfffff000 :: u32) = NOT (mask 12)"
  by (simp_all add: mask_eq_exp_minus_1)

lemma unat_and_fffffff8: "unat ((x :: u32) AND 0xfffffff8) = unat x div 8 * 8"
  by (simp only: u32_masks unat_and_not_mask) simp

lemma unat_and_fffff000: "unat ((x :: u32) AND 0xfffff000) = unat x div 4096 * 4096"
  by (simp only: u32_masks unat_and_not_mask) simp


section \<open>Sets, lists, maps\<close>

lemma image_minus_singleton:
  "(\<And>r. r \<in> A \<Longrightarrow> f r = y \<longleftrightarrow> r = x) \<Longrightarrow> f ` (A - {x}) = f ` A - {y}"
  by auto


section \<open>Arrays of in-use flags\<close>

text \<open>
  Three parts of the kernel search an array of in-use bytes for the first zero with the
  same loop, \<^verbatim>\<open>for (i = ...; i < n; i++) if (!in_use[i]) ...\<close>. The loop's result is the
  index it stops at.
\<close>

function scan_free :: "nat \<Rightarrow> u8 list \<Rightarrow> nat option" where
  "scan_free i flags =
     (if i < length flags then if flags ! i = 0 then Some i else scan_free (Suc i) flags else None)"
  by pat_completeness auto
termination
  by (relation "measure (\<lambda>(i, flags). length flags - i)") auto

declare scan_free.simps [simp del]

lemma scan_free_Some:
  "scan_free i flags = Some k \<Longrightarrow> i \<le> k \<and> k < length flags \<and> flags ! k = 0 \<and> (\<forall>j. i \<le> j \<and> j < k \<longrightarrow> flags ! j \<noteq> 0)"
proof (induction i flags rule: scan_free.induct)
  case (1 i flags)
  show ?case
  proof (cases "i < length flags \<and> flags ! i \<noteq> 0")
    case True
    then have "scan_free (Suc i) flags = Some k" using "1.prems" by (simp add: scan_free.simps [of i])
    with "1.IH" True have k: "Suc i \<le> k" "k < length flags" "flags ! k = 0"
      and *: "\<forall>j. Suc i \<le> j \<and> j < k \<longrightarrow> flags ! j \<noteq> 0" by blast+
    have "flags ! j \<noteq> 0" if "i \<le> j" "j < k" for j
      using * True that by (cases "j = i") auto
    with k show ?thesis by auto
  next
    case False
    with "1.prems" show ?thesis by (auto simp: scan_free.simps [of i] split: if_splits)
  qed
qed

lemma scan_free_None: "scan_free i flags = None \<longleftrightarrow> (\<forall>j. i \<le> j \<and> j < length flags \<longrightarrow> flags ! j \<noteq> 0)"
proof (induction i flags rule: scan_free.induct)
  case (1 i flags)
  show ?case
  proof (cases "i < length flags \<and> flags ! i \<noteq> 0")
    case True
    have "(\<forall>j. Suc i \<le> j \<and> j < length flags \<longrightarrow> flags ! j \<noteq> 0) \<longleftrightarrow>
          (\<forall>j. i \<le> j \<and> j < length flags \<longrightarrow> flags ! j \<noteq> 0)"
      using True by (metis Suc_leD Suc_leI le_neq_implies_less)
    then show ?thesis using "1.IH" True by (simp add: scan_free.simps [of i])
  next
    case False
    then show ?thesis by (auto simp: scan_free.simps [of i])
  qed
qed

lemma scan_freeI:
  "i \<le> k \<Longrightarrow> k < length flags \<Longrightarrow> flags ! k = 0 \<Longrightarrow> (\<And>j. i \<le> j \<Longrightarrow> j < k \<Longrightarrow> flags ! j \<noteq> 0)
   \<Longrightarrow> scan_free i flags = Some k"
  by (metis linorder_neqE_nat option.exhaust order.strict_trans2 scan_free_None scan_free_Some)

section \<open>Static objects\<close>

text \<open>
  The addresses that the linker gives to the kernel's static arrays and objects, and the
  addresses of the entry points whose values the code stores. They are a parameter of the
  model.
\<close>

record symbols =
  sym_kernel_heap :: u32
  sym_pd_pool :: u32
  sym_pt_pool :: u32
  sym_idle_task :: u32
  sym_idle_task_stack :: u32
  sym_idle_task_entry :: u32
  sym_enter_user_task :: u32
  sym_dma_buffer :: u32
  sym_primary_prdt :: u32
  sym_gdt :: u32
  sym_idt :: u32
  sym_tss :: u32
  sym_kernel_stack_top :: u32
  sym_irq :: "nat \<Rightarrow> u32" \<comment> \<open>the stubs \<^verbatim>\<open>irq0\<close>, \<^verbatim>\<open>irq1\<close>, ...\<close>
  sym_exception :: "nat \<Rightarrow> u32" \<comment> \<open>the stubs \<^verbatim>\<open>exception0\<close>, ...\<close>
  sym_syscall_entry :: u32
  sym_switch_return :: u32 \<comment> \<open>the instruction after the call of \<^verbatim>\<open>switch_to\<close>\<close>

end
