(* ===== verification/Port_IO.thy ===== *)
theory Port_IO
  imports Prelude
begin

text \<open>
  The machine as the kernel's C code sees it: the port instructions of
  \<^verbatim>\<open>include/kernel/io.h\<close>, the control registers, text-mode video memory and the
  console's cursor. Devices are not code of the repository, so they are a parameter: an
  environment \<open>env\<close> answers every port read, every look at the interrupt-driven tick
  counter and every completed bus-master transfer as a function of the whole history of
  port events. The history is part of the state, so that the order of accesses can be
  stated.
\<close>

section \<open>Port events and the environment\<close>

datatype io_event =
    Outb u16 u8
  | Outw u16 u16
  | Outl u16 u32
  | In_b u16 u8
  | In_w u16 u16
  | In_l u16 u32
  | Ticks_read u32
  | Dma_out "u8 list" \<comment> \<open>the bytes a device takes from memory\<close>
  | Invlpg u32
  | Lgdt u16 u32
  | Reload_segments u16 u16
  | Lidt u16 u32
  | Ltr u16
  | Sti
  | Cli

record env =
  env_inb :: "io_event list \<Rightarrow> u16 \<Rightarrow> u8"
  env_inw :: "io_event list \<Rightarrow> u16 \<Rightarrow> u16"
  env_inl :: "io_event list \<Rightarrow> u16 \<Rightarrow> u32"
  env_ticks :: "io_event list \<Rightarrow> u32"
  env_dma :: "io_event list \<Rightarrow> u8 list"

record machine =
  io_log :: "io_event list" \<comment> \<open>newest event first\<close>
  vga :: "nat \<Rightarrow> u16" \<comment> \<open>the cells at 0xb8000\<close>
  cursor_x :: u16
  cursor_y :: u16
  cr3 :: u32
  cr2 :: u32
  eflags :: u32

section \<open>Port instructions\<close>

definition outb :: "u16 \<Rightarrow> u8 \<Rightarrow> machine \<Rightarrow> machine" where
  "outb port val m = m\<lparr>io_log := Outb port val # io_log m\<rparr>"

definition outw :: "u16 \<Rightarrow> u16 \<Rightarrow> machine \<Rightarrow> machine" where
  "outw port val m = m\<lparr>io_log := Outw port val # io_log m\<rparr>"

definition outl :: "u16 \<Rightarrow> u32 \<Rightarrow> machine \<Rightarrow> machine" where
  "outl port val m = m\<lparr>io_log := Outl port val # io_log m\<rparr>"

definition inb :: "env \<Rightarrow> u16 \<Rightarrow> machine \<Rightarrow> u8 \<times> machine" where
  "inb E port m = (let v = env_inb E (io_log m) port in (v, m\<lparr>io_log := In_b port v # io_log m\<rparr>))"

definition inw :: "env \<Rightarrow> u16 \<Rightarrow> machine \<Rightarrow> u16 \<times> machine" where
  "inw E port m = (let v = env_inw E (io_log m) port in (v, m\<lparr>io_log := In_w port v # io_log m\<rparr>))"

definition inl :: "env \<Rightarrow> u16 \<Rightarrow> machine \<Rightarrow> u32 \<times> machine" where
  "inl E port m = (let v = env_inl E (io_log m) port in (v, m\<lparr>io_log := In_l port v # io_log m\<rparr>))"

definition log_event :: "io_event \<Rightarrow> machine \<Rightarrow> machine" where
  "log_event e m = m\<lparr>io_log := e # io_log m\<rparr>"

lemmas port_defs = outb_def outw_def outl_def inb_def inw_def inl_def log_event_def Let_def

text \<open>The byte last written to a port.\<close>

fun last_out :: "u16 \<Rightarrow> io_event list \<Rightarrow> u8 option" where
  "last_out p [] = None"
| "last_out p (Outb q v # es) = (if q = p then Some v else last_out p es)"
| "last_out p (_ # es) = last_out p es"

lemma last_out_port [simp]:
  "last_out p (io_log (outb q v m)) = (if q = p then Some v else last_out p (io_log m))"
  "last_out p (io_log (outw q w m)) = last_out p (io_log m)"
  "last_out p (io_log (outl q x m)) = last_out p (io_log m)"
  "last_out p (io_log (snd (inb E q m))) = last_out p (io_log m)"
  by (simp_all add: port_defs)

text \<open>Everything but the history of port events.\<close>

definition screen :: "machine \<Rightarrow> (nat \<Rightarrow> u16) \<times> u16 \<times> u16" where
  "screen m = (vga m, cursor_x m, cursor_y m)"

lemma screen_outb [simp]: "screen (outb p v m) = screen m"
  by (simp add: screen_def outb_def)


text \<open>The state the processor hands over to \<^verbatim>\<open>main\<close>: no port event yet, the cursor at the origin.\<close>

definition boot_machine :: machine where
  "boot_machine = \<lparr>io_log = [], vga = (\<lambda>_. 0), cursor_x = 0, cursor_y = 0,
     cr3 = 0, cr2 = 0, eflags = 0x2\<rparr>"

end
