(* ===== verification/Console.thy ===== *)
theory Console
  imports Port_IO
begin

text \<open>
  The text console, \<^verbatim>\<open>kernel/console.c\<close>: an 80 by 25 window of video memory with a
  cursor, mirrored into the CRT controller. Shown here: no operation writes outside the
  window and the cursor never leaves it, scrolling moves every line up by one, and the
  number printers print the digits of their argument.
\<close>

section \<open>Model\<close>

abbreviation VGA_CRTC_INDEX_REGISTER :: u16 where "VGA_CRTC_INDEX_REGISTER \<equiv> 0x3d4"
abbreviation VGA_CRTC_DATA_REGISTER :: u16 where "VGA_CRTC_DATA_REGISTER \<equiv> 0x3d5"
abbreviation CONSOLE_WIDTH :: nat where "CONSOLE_WIDTH \<equiv> 80"
abbreviation CONSOLE_HEIGHT :: nat where "CONSOLE_HEIGHT \<equiv> 25"
abbreviation VGA_ATTR :: u16 where "VGA_ATTR \<equiv> 0xf"

definition vga_cell :: "u8 \<Rightarrow> u16" where
  "vga_cell c = push_bit 8 VGA_ATTR OR ucast c"

abbreviation vga_blank :: u16 where "vga_blank \<equiv> vga_cell 0x20"

definition set_console_cursor_pos :: "machine \<Rightarrow> machine" where
  "set_console_cursor_pos m =
     (let pos = cursor_y m * 80 + cursor_x m;
          m = outb VGA_CRTC_INDEX_REGISTER 0xf m;
          m = outb VGA_CRTC_DATA_REGISTER (ucast pos) m;
          m = outb VGA_CRTC_INDEX_REGISTER 0xe m
      in outb VGA_CRTC_DATA_REGISTER (ucast (drop_bit 8 pos)) m)"

definition enable_console_cursor :: "env \<Rightarrow> machine \<Rightarrow> machine" where
  "enable_console_cursor E m =
     (let m = outb VGA_CRTC_INDEX_REGISTER 0xa m;
          (v, m) = inb E VGA_CRTC_DATA_REGISTER m;
          m = outb VGA_CRTC_DATA_REGISTER (v AND 0xc0 OR 0x0) m;
          m = outb VGA_CRTC_INDEX_REGISTER 0xb m;
          (v, m) = inb E VGA_CRTC_DATA_REGISTER m;
          m = outb VGA_CRTC_DATA_REGISTER (v AND 0xe0 OR 0xf) m
      in set_console_cursor_pos m)"

definition disable_console_cursor :: "machine \<Rightarrow> machine" where
  "disable_console_cursor m =
     outb VGA_CRTC_DATA_REGISTER 0x20 (outb VGA_CRTC_INDEX_REGISTER 0xa m)"

definition console_reset :: "machine \<Rightarrow> machine" where
  "console_reset m =
     (let v = fold (\<lambda>y. fold (\<lambda>x v. v(y * CONSOLE_WIDTH + x := vga_blank)) [0..<CONSOLE_WIDTH])
                [0..<CONSOLE_HEIGHT] (vga m)
      in set_console_cursor_pos (m\<lparr>vga := v, cursor_x := 0, cursor_y := 0\<rparr>))"

definition scroll_line :: "nat \<Rightarrow> (nat \<Rightarrow> u16) \<Rightarrow> (nat \<Rightarrow> u16)" where
  "scroll_line y =
     fold (\<lambda>x v. v((y - 1) * CONSOLE_WIDTH + x := v (y * CONSOLE_WIDTH + x))) [0..<CONSOLE_WIDTH]"

definition console_scroll :: "machine \<Rightarrow> machine" where
  "console_scroll m =
     (if cursor_y m < of_nat CONSOLE_HEIGHT then m
      else let v = fold scroll_line [1..<CONSOLE_HEIGHT] (vga m);
               v = fold (\<lambda>x v. v((CONSOLE_HEIGHT - 1) * CONSOLE_WIDTH + x := vga_blank))
                     [0..<CONSOLE_WIDTH] v
           in m\<lparr>vga := v, cursor_y := of_nat (CONSOLE_HEIGHT - 1)\<rparr>)"

definition cell_index :: "machine \<Rightarrow> nat" where
  "cell_index m = unat (cursor_y m) * CONSOLE_WIDTH + unat (cursor_x m)"

text \<open>\<open>console_putc\<close> in its three stages: the cell and the cursor, the wrap, the scroll.\<close>

definition putc_cell :: "u8 \<Rightarrow> machine \<Rightarrow> machine" where
  "putc_cell c m =
     (if c = 0x0a then m\<lparr>cursor_x := 0, cursor_y := cursor_y m + 1\<rparr>
      else if c = 0x08 then
        (let m = (if cursor_x m > 0 then m\<lparr>cursor_x := cursor_x m - 1\<rparr>
                  else if cursor_y m > 0
                  then m\<lparr>cursor_y := cursor_y m - 1, cursor_x := of_nat (CONSOLE_WIDTH - 1)\<rparr>
                  else m)
         in m\<lparr>vga := (vga m)(cell_index m := vga_blank)\<rparr>)
      else m\<lparr>vga := (vga m)(cell_index m := vga_cell c), cursor_x := cursor_x m + 1\<rparr>)"

definition putc_wrap :: "machine \<Rightarrow> machine" where
  "putc_wrap m =
     (if cursor_x m \<ge> of_nat CONSOLE_WIDTH
      then m\<lparr>cursor_x := 0, cursor_y := cursor_y m + 1\<rparr> else m)"

definition console_putc :: "u8 \<Rightarrow> machine \<Rightarrow> u8 \<times> machine" where
  "console_putc c m =
     (if c = 0 then (0, m)
      else (1, set_console_cursor_pos (console_scroll (putc_wrap (putc_cell c m)))))"

fun console_puts :: "u8 list \<Rightarrow> machine \<Rightarrow> u8 \<times> machine" where
  "console_puts [] m = (0, m)"
| "console_puts (c # s) m =
     (if c = 0 then (0, m)
      else let (w, m) = console_putc c m; (written, m) = console_puts s m in (w + written, m))"

definition hex_digit :: "u8 \<Rightarrow> u8" where
  "hex_digit n = cstr ''0123456789abcdef'' ! unat n"

definition put_prefix :: "u8 \<Rightarrow> machine \<Rightarrow> u8 \<times> machine" where
  "put_prefix prefix m =
     (if prefix \<noteq> 0 then (2, snd (console_putc 0x78 (snd (console_putc 0x30 m)))) else (0, m))"

definition console_put_hex8 :: "u8 \<Rightarrow> u8 \<Rightarrow> machine \<Rightarrow> u8 \<times> machine" where
  "console_put_hex8 val prefix m =
     (let (written, m) = put_prefix prefix m;
          (w1, m) = console_putc (hex_digit (drop_bit 4 val AND 0xf)) m;
          (w2, m) = console_putc (hex_digit (val AND 0xf)) m
      in (written + w1 + w2, m))"

definition console_put_hex16 :: "u16 \<Rightarrow> u8 \<Rightarrow> machine \<Rightarrow> u8 \<times> machine" where
  "console_put_hex16 val prefix m =
     (let (written, m) = put_prefix prefix m;
          (w1, m) = console_put_hex8 (ucast (drop_bit 8 val)) 0 m;
          (w2, m) = console_put_hex8 (ucast val) 0 m
      in (written + w1 + w2, m))"

definition console_put_hex32 :: "u32 \<Rightarrow> u8 \<Rightarrow> machine \<Rightarrow> u8 \<times> machine" where
  "console_put_hex32 val prefix m =
     (let (written, m) = put_prefix prefix m;
          (w1, m) = console_put_hex16 (ucast (drop_bit 16 val)) 0 m;
          (w2, m) = console_put_hex16 (ucast val) 0 m
      in (written + w1 + w2, m))"

text \<open>
  The \<^verbatim>\<open>do ... while\<close> loop of \<^verbatim>\<open>console_put_dec32\<close> fills \<^verbatim>\<open>digits\<close> from the
  least significant digit; the list holds what the loop stores, in that order.
\<close>

function dec_digits :: "u32 \<Rightarrow> u8 list" where
  "dec_digits val =
     (let d = 0x30 + ucast (val mod 10) in
      if val div 10 = 0 then [d] else d # dec_digits (val div 10))"
  by pat_completeness auto
termination
proof (relation "measure unat", simp, goal_cases)
  case (1 val)
  then have "unat val div 10 \<noteq> 0" by (simp add: unat_div unat_eq_zero [symmetric] del: unat_eq_zero)
  then show ?case by (simp add: unat_div)
qed

declare dec_digits.simps [simp del]

definition console_put_dec32 :: "u32 \<Rightarrow> machine \<Rightarrow> u8 \<times> machine" where
  "console_put_dec32 val m =
     (let digits = dec_digits val
      in (of_nat (length digits), fold (\<lambda>c m. snd (console_putc c m)) (rev digits) m))"

text \<open>
  Printing a string literal, the result ignored; \<open>println\<close> for a literal that ends in a
  newline.
\<close>

definition print :: "string \<Rightarrow> machine \<Rightarrow> machine" where
  "print s m = snd (console_puts (cstr s) m)"

definition println :: "string \<Rightarrow> machine \<Rightarrow> machine" where
  "println s m = snd (console_puts (cstr s @ [0x0a]) m)"

section \<open>The window\<close>

text \<open>The cursor stands on a cell of the window.\<close>

definition con_ok :: "machine \<Rightarrow> bool" where
  "con_ok m \<longleftrightarrow> unat (cursor_x m) < CONSOLE_WIDTH \<and> unat (cursor_y m) < CONSOLE_HEIGHT"

abbreviation CELLS :: nat where "CELLS \<equiv> CONSOLE_HEIGHT * CONSOLE_WIDTH"

text \<open>Memory outside the window is the same in both states, and so are the control registers.\<close>

definition same_outside :: "machine \<Rightarrow> machine \<Rightarrow> bool" where
  "same_outside m m' \<longleftrightarrow> (\<forall>i \<ge> CELLS. vga m' i = vga m i)
     \<and> cr3 m' = cr3 m \<and> cr2 m' = cr2 m \<and> eflags m' = eflags m"

lemma same_outside_refl [simp]: "same_outside m m"
  by (simp add: same_outside_def)

lemma same_outside_trans: "same_outside a b \<Longrightarrow> same_outside b c \<Longrightarrow> same_outside a c"
  by (simp add: same_outside_def)

lemma fold_fill:
  "fold (\<lambda>x v. v(b + x := c)) [0..<n] v i = (if b \<le> i \<and> i < b + n then c else v i)"
  by (induction n) auto

lemma fold_shift_row:
  assumes "0 < s" and "n \<le> s"
  shows "fold (\<lambda>x v. v(b + x := v (b + s + x))) [0..<n] v i
     = (if b \<le> i \<and> i < b + n then v (i + s) else v i)"
  using assms(2)
proof (induction n arbitrary: i)
  case 0
  then show ?case by auto
next
  case (Suc n)
  define f where "f = fold (\<lambda>x v. v(b + x := v (b + s + x))) [0..<n] v"
  have f: "f j = (if b \<le> j \<and> j < b + n then v (j + s) else v j)" for j
    unfolding f_def by (rule Suc.IH) (use Suc.prems in simp)
  have eq: "fold (\<lambda>x v. v(b + x := v (b + s + x))) [0..<Suc n] v = f(b + n := f (b + s + n))"
    by (simp add: f_def)
  show ?case
    unfolding eq using assms(1) Suc.prems by (auto simp: f ac_simps)
qed

lemma scroll_line_apply:
  "scroll_line (Suc z) v i =
    (if z * CONSOLE_WIDTH \<le> i \<and> i < Suc z * CONSOLE_WIDTH then v (i + CONSOLE_WIDTH) else v i)"
proof -
  have "scroll_line (Suc z) v i
     = fold (\<lambda>x v. v(z * 80 + x := v (z * 80 + 80 + x))) [0..<80] v i"
    unfolding scroll_line_def by (simp only: mult_Suc diff_Suc_1 ac_simps)
  also have "\<dots> = (if z * 80 \<le> i \<and> i < z * 80 + 80 then v (i + 80) else v i)"
    by (rule fold_shift_row) simp_all
  finally show ?thesis by (simp add: ac_simps)
qed

lemma fold_scroll_lines:
  "fold scroll_line [1..<Suc n] v i = (if i < n * CONSOLE_WIDTH then v (i + CONSOLE_WIDTH) else v i)"
proof (induction n arbitrary: i)
  case 0
  then show ?case by simp
next
  case (Suc n)
  have "fold scroll_line [1..<Suc (Suc n)] v i = scroll_line (Suc n) (fold scroll_line [1..<Suc n] v) i"
    by simp
  also have "\<dots> = (if i < Suc n * CONSOLE_WIDTH then v (i + CONSOLE_WIDTH) else v i)"
    unfolding scroll_line_apply Suc.IH by auto
  finally show ?case .
qed

lemma cursor_y_below: "cursor_y m < 25 \<longleftrightarrow> unat (cursor_y m) < 25"
  by (simp add: word_less_nat_alt)

lemma cursor_x_below: "80 \<le> cursor_x m \<longleftrightarrow> 80 \<le> unat (cursor_x m)"
  by (simp add: word_le_nat_alt)

lemma vga_console_scroll:
  "vga (console_scroll m) i =
     (if unat (cursor_y m) < CONSOLE_HEIGHT then vga m i
      else if i < CELLS - CONSOLE_WIDTH then vga m (i + CONSOLE_WIDTH)
      else if i < CELLS then vga_blank else vga m i)"
proof -
  have "fold scroll_line [1..<25] (vga m) i = (if i < 24 * 80 then vga m (i + 80) else vga m i)" for i
    using fold_scroll_lines [of 24 "vga m" i] by simp
  then show ?thesis
    by (auto simp: console_scroll_def Let_def cursor_y_below fold_fill
        simp del: upt_rec_numeral)
qed

lemma cursor_console_scroll:
  "cursor_x (console_scroll m) = cursor_x m"
  "unat (cursor_y (console_scroll m)) = min (unat (cursor_y m)) 24"
  by (simp_all add: console_scroll_def Let_def cursor_y_below)


lemma screen_set_console_cursor_pos [simp]:
  "vga (set_console_cursor_pos m) = vga m"
  "cursor_x (set_console_cursor_pos m) = cursor_x m"
  "cursor_y (set_console_cursor_pos m) = cursor_y m"
  "cr3 (set_console_cursor_pos m) = cr3 m"
  "cr2 (set_console_cursor_pos m) = cr2 m"
  "eflags (set_console_cursor_pos m) = eflags m"
  by (simp_all add: set_console_cursor_pos_def outb_def Let_def)

lemma regs_console_scroll [simp]:
  "cr3 (console_scroll m) = cr3 m" "cr2 (console_scroll m) = cr2 m"
  "eflags (console_scroll m) = eflags m"
  by (simp_all add: console_scroll_def Let_def)

text \<open>
  The last two statements of \<open>console_putc\<close> bring a cursor that stands at most one line
  below the window back into it.
\<close>

lemma scroll_ok:
  assumes "unat (cursor_x m) < CONSOLE_WIDTH"
  shows "con_ok (set_console_cursor_pos (console_scroll m))"
    and "same_outside m (set_console_cursor_pos (console_scroll m))"
  using assms by (auto simp: con_ok_def same_outside_def cursor_console_scroll vga_console_scroll)

lemma unat_add_1_u16: "unat (w :: u16) < 65535 \<Longrightarrow> unat (w + 1) = unat w + 1"
  by (simp add: unat_word_ariths)

lemma unat_sub_1_u16: "0 < (w :: u16) \<Longrightarrow> unat (w - 1) = unat w - 1"
  by (simp add: unat_minus_one word_gt_0)

lemma putc_cell_ok:
  assumes "con_ok m"
  shows "unat (cursor_x (putc_cell c m)) \<le> CONSOLE_WIDTH" "same_outside m (putc_cell c m)"
  using assms unat_sub_1_u16 [of "cursor_y m"] unat_sub_1_u16 [of "cursor_x m"]
  by (auto simp: putc_cell_def con_ok_def same_outside_def cell_index_def Let_def unat_add_1_u16)

lemma putc_wrap_ok:
  assumes "unat (cursor_x m) \<le> CONSOLE_WIDTH"
  shows "unat (cursor_x (putc_wrap m)) < CONSOLE_WIDTH" "same_outside m (putc_wrap m)"
  using assms by (auto simp: putc_wrap_def same_outside_def cursor_x_below)

lemma console_putc_ok:
  assumes "con_ok m"
  shows "con_ok (snd (console_putc c m))" "same_outside m (snd (console_putc c m))"
  using assms putc_cell_ok [OF assms, of c]
  by (auto simp: console_putc_def
      intro!: scroll_ok putc_wrap_ok same_outside_trans [OF same_outside_trans [OF _ putc_wrap_ok(2)] scroll_ok(2)])

lemma console_puts_ok:
  "con_ok m \<Longrightarrow> con_ok (snd (console_puts s m)) \<and> same_outside m (snd (console_puts s m))"
proof (induction s arbitrary: m)
  case (Cons c s)
  have "con_ok (snd (console_putc c m))" "same_outside m (snd (console_putc c m))"
    using Cons.prems by (simp_all add: console_putc_ok)
  with Cons show ?case
    by (auto simp: split_def Let_def intro: same_outside_trans)
qed simp

lemma con_ok_print [simp]: "con_ok m \<Longrightarrow> con_ok (print s m)" "con_ok m \<Longrightarrow> con_ok (println s m)"
  by (simp_all add: print_def println_def console_puts_ok)

text \<open>Printing leaves the control registers alone.\<close>

lemma regs_console_putc [simp]:
  "cr3 (snd (console_putc c m)) = cr3 m" "cr2 (snd (console_putc c m)) = cr2 m"
  "eflags (snd (console_putc c m)) = eflags m"
  by (simp_all add: console_putc_def putc_wrap_def putc_cell_def set_console_cursor_pos_def port_defs)

lemma regs_console_puts [simp]:
  "cr3 (snd (console_puts s m)) = cr3 m" "cr2 (snd (console_puts s m)) = cr2 m"
  "eflags (snd (console_puts s m)) = eflags m"
  by (induction s arbitrary: m) (auto simp: split_def Let_def)

lemma regs_print [simp]:
  "cr3 (print s m) = cr3 m" "cr2 (print s m) = cr2 m" "eflags (print s m) = eflags m"
  "cr3 (println s m) = cr3 m" "cr2 (println s m) = cr2 m" "eflags (println s m) = eflags m"
  by (simp_all add: print_def println_def)

lemma fold_putc_eq_puts:
  "0 \<notin> set s \<Longrightarrow> fold (\<lambda>c m. snd (console_putc c m)) s m = snd (console_puts s m)"
  by (induction s arbitrary: m) (auto simp: split_def Let_def)

lemma console_puts_append:
  "0 \<notin> set s \<Longrightarrow> console_puts (s @ t) m
     = (let (a, m) = console_puts s m; (b, m) = console_puts t m in (a + b, m))"
  by (induction s arbitrary: m) (auto simp: split_def Let_def)

lemma fst_console_puts: "0 \<notin> set s \<Longrightarrow> fst (console_puts s m) = of_nat (length s)"
  by (induction s arbitrary: m) (auto simp: split_def Let_def console_putc_def)

section \<open>Numbers\<close>

text \<open>The value that a list of decimal digits, most significant first, denotes.\<close>

definition dec_value :: "u8 list \<Rightarrow> nat" where
  "dec_value = foldl (\<lambda>n d. 10 * n + (unat d - 48)) 0"

lemma dec_value_snoc: "dec_value (ds @ [d]) = 10 * dec_value ds + (unat d - 48)"
  by (simp add: dec_value_def)

lemma unat_dec_digit: "unat (0x30 + ucast (v mod 10) :: u8) = 48 + unat (v :: u32) mod 10"
proof -
  have "unat (ucast (v mod 10) :: u8) = unat v mod 10"
    by (simp add: unsigned_ucast_eq take_bit_eq_mod unat_mod)
  then show ?thesis by (simp add: unat_word_ariths)
qed

lemma u32_div_10_eq_0: "(v :: u32) div 10 = 0 \<longleftrightarrow> unat v < 10"
  unfolding unat_eq_zero [symmetric] unat_div by auto

lemma dec_digits_ne_0: "0 \<notin> set (dec_digits v)"
proof (induction v rule: dec_digits.induct)
  case (1 v)
  have "(0x30 + ucast (v mod 10) :: u8) \<noteq> 0"
    using unat_dec_digit [of v] by (metis add_is_0 unat_0 zero_neq_numeral)
  with "1" show ?case by (subst dec_digits.simps) (auto simp: Let_def)
qed

lemma dec_value_dec_digits: "dec_value (rev (dec_digits v)) = unat v"
proof (induction v rule: dec_digits.induct)
  case (1 v)
  show ?case
  proof (cases "v div 10 = 0")
    case True
    then show ?thesis
      by (subst dec_digits.simps) (simp add: Let_def dec_value_def unat_dec_digit u32_div_10_eq_0)
  next
    case False
    then show ?thesis
      using "1" by (subst dec_digits.simps) (simp add: Let_def dec_value_snoc unat_dec_digit unat_div)
  qed
qed

lemma length_dec_digits_pow: "unat v < 10 ^ Suc n \<Longrightarrow> length (dec_digits v) \<le> Suc n"
proof (induction n arbitrary: v)
  case 0
  then have "v div 10 = 0" by (simp add: u32_div_10_eq_0)
  then show ?case by (subst dec_digits.simps) (simp add: Let_def)
next
  case (Suc n)
  from Suc.prems have "unat (v div 10) < 10 ^ Suc n"
    by (simp add: unat_div less_mult_imp_div_less)
  then have "length (dec_digits (v div 10)) \<le> Suc n" by (rule Suc.IH)
  then show ?case by (subst dec_digits.simps) (simp add: Let_def)
qed


text \<open>The text that the hexadecimal printers put on the screen.\<close>

definition hex_text8 :: "u8 \<Rightarrow> u8 list" where
  "hex_text8 v = [hex_digit (drop_bit 4 v AND 0xf), hex_digit (v AND 0xf)]"

definition hex_text16 :: "u16 \<Rightarrow> u8 list" where
  "hex_text16 v = hex_text8 (ucast (drop_bit 8 v)) @ hex_text8 (ucast v)"

definition hex_text32 :: "u32 \<Rightarrow> u8 list" where
  "hex_text32 v = hex_text16 (ucast (drop_bit 16 v)) @ hex_text16 (ucast v)"

definition prefix_text :: "u8 \<Rightarrow> u8 list" where
  "prefix_text p = (if p \<noteq> 0 then [0x30, 0x78] else [])"

lemma put_prefix_text: "put_prefix p m = console_puts (prefix_text p) m"
  by (simp add: put_prefix_def prefix_text_def split_def Let_def console_putc_def)

lemma nibble_cases:
  fixes n :: u8
  assumes "unat n < 16"
  shows "unat (hex_digit n) = (if unat n < 10 then 48 + unat n else 87 + unat n)"
proof -
  have "list_all (\<lambda>k. unat (cstr ''0123456789abcdef'' ! k) = (if k < 10 then 48 + k else 87 + k)) [0..<16]"
    by code_simp
  then show ?thesis using assms by (simp add: hex_digit_def list_all_iff)
qed

lemma unat_low_nibble: "unat (v AND 0xf :: u8) = unat v mod 16"
proof -
  have "v AND 0xf = take_bit 4 v" by (simp add: take_bit_eq_mask mask_eq_exp_minus_1)
  then show ?thesis by (simp add: take_bit_eq_mod unat_mod)
qed

lemma unat_high_nibble: "unat (drop_bit 4 v AND 0xf :: u8) = unat v div 16"
proof -
  have "unat v div 16 < 16" using unat_u8_lt [of v] by (simp add: less_mult_imp_div_less)
  then show ?thesis by (simp add: unat_low_nibble drop_bit_eq_div unat_div)
qed

definition hex_value :: "u8 list \<Rightarrow> nat" where
  "hex_value = foldl (\<lambda>n d. 16 * n + (if unat d < 58 then unat d - 48 else unat d - 87)) 0"

lemma hex_digit_ne_0: "unat n < 16 \<Longrightarrow> hex_digit n \<noteq> 0"
  using nibble_cases [of n] by (auto split: if_splits)

lemma hex_text_ne_0: "0 \<notin> set (hex_text8 a)" "0 \<notin> set (hex_text16 b)" "0 \<notin> set (hex_text32 c)"
proof -
  have "0 \<notin> set (hex_text8 a)" for a
    using hex_digit_ne_0 [of "a AND 0xf"] hex_digit_ne_0 [of "drop_bit 4 a AND 0xf"] unat_u8_lt [of a]
    by (auto simp: hex_text8_def unat_low_nibble unat_high_nibble)
  then show "0 \<notin> set (hex_text8 a)" "0 \<notin> set (hex_text16 b)" "0 \<notin> set (hex_text32 c)"
    by (auto simp: hex_text16_def hex_text32_def)
qed

lemma prefix_text_ne_0: "0 \<notin> set (prefix_text p)"
  by (simp add: prefix_text_def)

lemma prefix_text_0 [simp]: "prefix_text 0 = []"
  by (simp add: prefix_text_def)

lemma length_hex_text [simp]:
  "length (hex_text8 a) = 2" "length (hex_text16 b) = 4" "length (hex_text32 c) = 8"
  by (simp_all add: hex_text8_def hex_text16_def hex_text32_def)

lemma put_hex8_text: "console_put_hex8 v p m = console_puts (prefix_text p @ hex_text8 v) m"
  using hex_text_ne_0(1) [of v] by (simp add: console_put_hex8_def put_prefix_text hex_text8_def
      console_puts_append prefix_text_ne_0 split_def Let_def ac_simps)

lemma put_hex16_text: "console_put_hex16 v p m = console_puts (prefix_text p @ hex_text16 v) m"
  by (simp add: console_put_hex16_def put_prefix_text put_hex8_text hex_text16_def
      console_puts_append prefix_text_ne_0 hex_text_ne_0 split_def Let_def ac_simps)

lemma put_hex32_text: "console_put_hex32 v p m = console_puts (prefix_text p @ hex_text32 v) m"
  by (simp add: console_put_hex32_def put_prefix_text put_hex16_text hex_text32_def
      console_puts_append prefix_text_ne_0 hex_text_ne_0 split_def Let_def ac_simps)


lemma foldl_hex_start:
  "foldl (\<lambda>n d. 16 * n + g d) a ds = a * 16 ^ length ds + foldl (\<lambda>n d. 16 * n + g d) (0::nat) ds"
proof (induction ds arbitrary: a)
  case (Cons d ds)
  show ?case
    using Cons [of "16 * a + g d"] Cons [of "g d"] by (simp add: algebra_simps)
qed simp

lemma hex_value_append: "hex_value (a @ b) = hex_value a * 16 ^ length b + hex_value b"
  unfolding hex_value_def foldl_append by (rule foldl_hex_start)

lemma hex_digit_value:
  "unat n < 16 \<Longrightarrow> (if unat (hex_digit n) < 58 then unat (hex_digit n) - 48 else unat (hex_digit n) - 87) = unat n"
  by (simp add: nibble_cases)

lemma hex_value_text8: "hex_value (hex_text8 v) = unat v"
proof -
  have "unat (v AND 0xf) < 16" "unat (drop_bit 4 v AND 0xf) < 16"
    using unat_u8_lt [of v] unat_low_nibble [of v] unat_high_nibble [of v] by linarith+
  then have "hex_value (hex_text8 v) = 16 * unat (drop_bit 4 v AND 0xf) + unat (v AND 0xf)"
    by (simp only: hex_value_def hex_text8_def foldl.simps hex_digit_value mult_0_right add_0)
  also have "\<dots> = unat v"
    by (subst unat_high_nibble, subst unat_low_nibble) simp
  finally show ?thesis .
qed

lemma hex_value_text16: "hex_value (hex_text16 v) = unat v"
proof -
  have "unat v div 256 < 256" using unat_u16_lt [of v] by (simp add: less_mult_imp_div_less)
  then show ?thesis
    by (simp add: hex_text16_def hex_value_append hex_value_text8 unsigned_ucast_eq take_bit_eq_mod
        drop_bit_eq_div unat_div)
qed

lemma hex_value_text32: "hex_value (hex_text32 v) = unat v"
proof -
  have "unat v div 65536 < 65536" using unat_u32_lt [of v] by (simp add: less_mult_imp_div_less)
  then show ?thesis
    by (simp add: hex_text32_def hex_value_append hex_value_text16 unsigned_ucast_eq take_bit_eq_mod
        drop_bit_eq_div unat_div)
qed

lemma console_put_dec32_text:
  "console_put_dec32 v m = (of_nat (length (dec_digits v)), snd (console_puts (rev (dec_digits v)) m))"
  using fold_putc_eq_puts [of "rev (dec_digits v)" m] dec_digits_ne_0 [of v]
  by (simp add: console_put_dec32_def Let_def)

lemma length_dec_digits: "length (dec_digits v) \<le> 10"
  using length_dec_digits_pow [of v 9] unat_u32_lt [of v] by (simp add: order.strict_trans)

lemma console_reset_ok: "con_ok (console_reset m)" "same_outside m (console_reset m)"
proof -
  have row: "fold (\<lambda>x v. v(y * 80 + x := vga_blank)) [0..<80] v i
      = (if y * 80 \<le> i \<and> i < y * 80 + 80 then vga_blank else v i)" for y v i
    by (rule fold_fill)
  have "fold (\<lambda>y. fold (\<lambda>x v. v(y * 80 + x := vga_blank)) [0..<80]) [0..<n] v i = v i"
    if "n * 80 \<le> i" for n v i
    using that by (induction n) (auto simp: row simp del: upt_rec_numeral)
  then have keep: "fold (\<lambda>y. fold (\<lambda>x v. v(y * 80 + x := vga_blank)) [0..<80]) [0..<25] v i = v i"
    if "2000 \<le> i" for v i
    using that by (simp del: upt_rec_numeral)
  show "con_ok (console_reset m)"
    by (simp add: console_reset_def con_ok_def Let_def del: upt_rec_numeral)
  show "same_outside m (console_reset m)"
    using keep by (auto simp: console_reset_def same_outside_def Let_def simp del: upt_rec_numeral)
qed

lemma screen_enable_console_cursor:
  "con_ok m \<Longrightarrow> con_ok (enable_console_cursor E m)" "same_outside m (enable_console_cursor E m)"
  by (simp_all add: enable_console_cursor_def con_ok_def same_outside_def port_defs)

section \<open>Properties\<close>

text \<open>
  C37. Console memory safety: from a state with the cursor inside the 80 by 25 window, every
  console operation leaves the cursor inside it and changes no video memory cell outside
  the window and no control register, whatever bytes or numbers are printed.
\<close>

theorem console_stays_in_window:
  assumes "con_ok m"
  shows "\<forall>m' \<in> {snd (console_putc c m), snd (console_puts s m), snd (console_put_hex8 a p m),
      snd (console_put_hex16 b p m), snd (console_put_hex32 v p m), snd (console_put_dec32 v m),
      console_reset m, enable_console_cursor E m}. con_ok m' \<and> same_outside m m'"
  using assms
  by (simp add: console_putc_ok console_puts_ok put_hex8_text put_hex16_text put_hex32_text
      console_put_dec32_text console_reset_ok screen_enable_console_cursor)

theorem console_stays_in_window_witness:
  "con_ok boot_machine \<and> con_ok (snd (console_puts (cstr ''Hello, World!'') boot_machine))
     \<and> same_outside boot_machine (snd (console_puts (cstr ''Hello, World!'') boot_machine))"
proof -
  have ok: "con_ok boot_machine" by (simp add: con_ok_def boot_machine_def)
  show ?thesis
    using console_stays_in_window [OF ok, of 65 "cstr ''Hello, World!''"] ok by simp
qed

text \<open>
  A newline on the last line scrolls: every line of the window shows what the line
  below it showed, the last line is blank, and the cursor is at its start.
\<close>

theorem console_newline_scrolls:
  assumes "con_ok m" and "cursor_y m = 24"
  shows "let m' = snd (console_putc 0x0a m) in
      (\<forall>y < CONSOLE_HEIGHT - 1. \<forall>x < CONSOLE_WIDTH.
         vga m' (y * CONSOLE_WIDTH + x) = vga m (Suc y * CONSOLE_WIDTH + x))
    \<and> (\<forall>x < CONSOLE_WIDTH. vga m' (24 * CONSOLE_WIDTH + x) = vga_blank)
    \<and> cursor_x m' = 0 \<and> cursor_y m' = 24"
proof -
  define n where "n = putc_wrap (putc_cell 0x0a m)"
  have n: "vga n = vga m" "cursor_x n = 0" "cursor_y n = 25"
    using assms(2) by (simp_all add: n_def putc_wrap_def putc_cell_def)
  have "snd (console_putc 0x0a m) = set_console_cursor_pos (console_scroll n)"
    by (simp add: console_putc_def n_def)
  moreover have "cursor_y (console_scroll n) = 24"
    using n by (simp add: console_scroll_def Let_def)
  ultimately show ?thesis
    using n by (simp add: vga_console_scroll cursor_console_scroll Let_def)
      (simp only: ac_simps, simp)
qed

theorem console_newline_scrolls_witness:
  "con_ok (boot_machine\<lparr>cursor_y := 24\<rparr>)
    \<and> cursor_y (snd (console_putc 0x0a (boot_machine\<lparr>cursor_y := 24\<rparr>))) = 24"
proof -
  have ok: "con_ok (boot_machine\<lparr>cursor_y := 24\<rparr>)" by (simp add: con_ok_def boot_machine_def)
  show ?thesis
    using console_newline_scrolls [OF ok] ok by (simp add: Let_def)
qed

text \<open>
  The number printers are correct: \<open>console_put_dec32\<close> and \<open>console_put_hex32\<close>
  print exactly a text whose digits denote the argument, return the length of what they
  printed, and the decimal printer never stores more than the ten digits its local array
  holds.
\<close>

theorem console_prints_numbers:
  "console_put_dec32 v m = (of_nat (length (dec_digits v)), snd (console_puts (rev (dec_digits v)) m))
   \<and> dec_value (rev (dec_digits v)) = unat v \<and> length (dec_digits v) \<le> 10
   \<and> console_put_hex32 v p m = (of_nat (length (prefix_text p @ hex_text32 v)),
         snd (console_puts (prefix_text p @ hex_text32 v) m))
   \<and> hex_value (hex_text32 v) = unat v \<and> length (hex_text32 v) = 8"
proof -
  have "console_put_hex32 v p m = (fst (console_puts (prefix_text p @ hex_text32 v) m),
         snd (console_puts (prefix_text p @ hex_text32 v) m))"
    by (simp add: put_hex32_text)
  also have "fst (console_puts (prefix_text p @ hex_text32 v) m)
      = of_nat (length (prefix_text p @ hex_text32 v))"
    by (rule fst_console_puts) (simp add: prefix_text_ne_0 hex_text_ne_0)
  finally show ?thesis
    by (simp only: console_put_dec32_text dec_value_dec_digits length_dec_digits hex_value_text32
        length_hex_text simp_thms)
qed

end
