(* ===== verification/Gdt.thy ===== *)
theory Gdt
  imports Console
begin

text \<open>
  Segment descriptors and the task state segment, \<^verbatim>\<open>kernel/gdt.c\<close> and
  \<^verbatim>\<open>kernel/tss.c\<close>. An entry scatters base and limit over its fields;
  \<open>entry_base\<close> and \<open>entry_limit\<close> put them together as the processor does.
\<close>

section \<open>Model\<close>

abbreviation GDT_ENTRIES :: nat where "GDT_ENTRIES \<equiv> 6"
abbreviation GDT_KERNEL_CODE_SELECTOR :: u16 where "GDT_KERNEL_CODE_SELECTOR \<equiv> 0x8"
abbreviation GDT_KERNEL_DATA_SELECTOR :: u16 where "GDT_KERNEL_DATA_SELECTOR \<equiv> 0x10"
abbreviation GDT_USER_CODE_SELECTOR :: u16 where "GDT_USER_CODE_SELECTOR \<equiv> 0x18 OR 0x3"
abbreviation GDT_USER_DATA_SELECTOR :: u16 where "GDT_USER_DATA_SELECTOR \<equiv> 0x20 OR 0x3"
abbreviation GDT_TSS_SELECTOR :: u16 where "GDT_TSS_SELECTOR \<equiv> 0x28"

record gdt_entry =
  limit_low :: u16
  base_low :: u16
  base_middle :: u8
  access :: u8
  granularity :: u8
  base_high :: u8

type_synonym gdt = "gdt_entry list"

definition zero_entry :: gdt_entry where
  "zero_entry = \<lparr>limit_low = 0, base_low = 0, base_middle = 0, access = 0, granularity = 0, base_high = 0\<rparr>"

text \<open>\<open>None\<close> is a write outside the table.\<close>

definition gdt_set_entry :: "u8 \<Rightarrow> u32 \<Rightarrow> u32 \<Rightarrow> u8 \<Rightarrow> u8 \<Rightarrow> gdt \<Rightarrow> gdt option" where
  "gdt_set_entry idx base limit acc gran g =
     (if unat idx < length g
      then Some (g[unat idx := \<lparr>limit_low = ucast limit,
        base_low = ucast base,
        base_middle = ucast (drop_bit 16 base),
        access = acc,
        granularity = ucast ((drop_bit 16 limit AND 0xf) OR ucast (gran AND 0xf0)),
        base_high = ucast (drop_bit 24 base)\<rparr>])
      else None)"

definition lgdt :: "u32 \<Rightarrow> u16 \<Rightarrow> machine \<Rightarrow> machine" where
  "lgdt base sz m = log_event (Lgdt (sz - 1) base) m"

definition reload_segment_registers :: "machine \<Rightarrow> machine" where
  "reload_segment_registers m = log_event (Reload_segments GDT_KERNEL_DATA_SELECTOR GDT_KERNEL_CODE_SELECTOR) m"

definition init_gdt :: "symbols \<Rightarrow> gdt \<Rightarrow> machine \<Rightarrow> (u8 \<times> gdt \<times> machine) option" where
  "init_gdt L g m =
     (let m = print ''Registering global descriptor table ... '' m in
      case Option.bind (gdt_set_entry 0 0 0 0 0 g)
        (\<lambda>g. Option.bind (gdt_set_entry 1 0x0 0xfffff 0x9a 0xcf g)
        (\<lambda>g. Option.bind (gdt_set_entry 2 0x0 0xfffff 0x92 0xcf g)
        (\<lambda>g. Option.bind (gdt_set_entry 3 0x0 0xfffff 0xfa 0xcf g)
        (gdt_set_entry 4 0x0 0xfffff 0xf2 0xcf)))) of
        None \<Rightarrow> None
      | Some g \<Rightarrow>
          let m = lgdt (sym_gdt L) (8 * of_nat GDT_ENTRIES) m;
              m = reload_segment_registers m;
              m = println ''Done'' m
          in Some (1, g, m))"

record tss_entry =
  tss_link :: u16
  tss_reserved0 :: u16
  tss_esp0 :: u32
  tss_ss0 :: u16
  tss_reserved1 :: u16
  tss_esp1 :: u32
  tss_ss1 :: u16
  tss_reserved2 :: u16
  tss_esp2 :: u32
  tss_ss2 :: u16
  tss_reserved3 :: u16
  tss_cr3 :: u32
  tss_eip :: u32
  tss_eflags :: u32
  tss_eax :: u32
  tss_ecx :: u32
  tss_edx :: u32
  tss_ebx :: u32
  tss_esp :: u32
  tss_ebp :: u32
  tss_esi :: u32
  tss_edi :: u32
  tss_es :: u16
  tss_reserved4 :: u16
  tss_cs :: u16
  tss_reserved5 :: u16
  tss_ss :: u16
  tss_reserved6 :: u16
  tss_ds :: u16
  tss_reserved7 :: u16
  tss_fs :: u16
  tss_reserved8 :: u16
  tss_gs :: u16
  tss_reserved9 :: u16
  tss_ldtr :: u16
  tss_reserved10 :: u16
  tss_reserved11 :: u16
  tss_iopb :: u16

abbreviation SIZEOF_TSS_ENTRY :: u32 where "SIZEOF_TSS_ENTRY \<equiv> 104"

definition init_tss_entry :: tss_entry where
  "init_tss_entry = \<lparr>tss_link = 0, tss_reserved0 = 0, tss_esp0 = 0, tss_ss0 = 0, tss_reserved1 = 0,
     tss_esp1 = 0, tss_ss1 = 0, tss_reserved2 = 0, tss_esp2 = 0, tss_ss2 = 0, tss_reserved3 = 0,
     tss_cr3 = 0, tss_eip = 0, tss_eflags = 0, tss_eax = 0, tss_ecx = 0, tss_edx = 0, tss_ebx = 0,
     tss_esp = 0, tss_ebp = 0, tss_esi = 0, tss_edi = 0, tss_es = 0, tss_reserved4 = 0, tss_cs = 0,
     tss_reserved5 = 0, tss_ss = 0, tss_reserved6 = 0, tss_ds = 0, tss_reserved7 = 0, tss_fs = 0,
     tss_reserved8 = 0, tss_gs = 0, tss_reserved9 = 0, tss_ldtr = 0, tss_reserved10 = 0,
     tss_reserved11 = 0, tss_iopb = 0\<rparr>"

definition gdt_set_tss_entry :: "symbols \<Rightarrow> gdt \<Rightarrow> gdt option" where
  "gdt_set_tss_entry L g = gdt_set_entry 5 (sym_tss L) (SIZEOF_TSS_ENTRY - 1) 0x89 0x0 g"

definition ltss :: "machine \<Rightarrow> machine" where
  "ltss m = log_event (Ltr GDT_TSS_SELECTOR) m"

definition init_tss :: "symbols \<Rightarrow> u32 \<Rightarrow> gdt \<Rightarrow> machine \<Rightarrow> (u8 \<times> tss_entry \<times> gdt \<times> machine) option" where
  "init_tss L stack g m =
     (let m = print ''Setting up task state segment ... '' m;
          tss = init_tss_entry\<lparr>tss_ss0 := GDT_KERNEL_DATA_SELECTOR, tss_esp0 := stack,
            tss_iopb := ucast SIZEOF_TSS_ENTRY\<rparr>
      in case gdt_set_tss_entry L g of
        None \<Rightarrow> None
      | Some g \<Rightarrow> Some (1, tss, g, println ''Done'' (ltss m)))"

definition tss_set_kernel_stack :: "u32 \<Rightarrow> tss_entry \<Rightarrow> tss_entry" where
  "tss_set_kernel_stack esp tss = tss\<lparr>tss_esp0 := esp\<rparr>"

section \<open>Reading an entry\<close>

definition entry_base :: "gdt_entry \<Rightarrow> u32" where
  "entry_base e = ucast (base_low e) OR push_bit 16 (ucast (base_middle e)) OR push_bit 24 (ucast (base_high e))"

definition entry_limit :: "gdt_entry \<Rightarrow> u32" where
  "entry_limit e = ucast (limit_low e) OR push_bit 16 (ucast (granularity e AND 0xf))"

text \<open>Byte granularity or pages; the privilege level of the segment.\<close>

definition entry_in_pages :: "gdt_entry \<Rightarrow> bool" where
  "entry_in_pages e \<longleftrightarrow> bit (granularity e) 7"

definition entry_dpl :: "gdt_entry \<Rightarrow> u8" where
  "entry_dpl e = drop_bit 5 (access e) AND 3"

lemma base_bits:
  "(ucast (ucast (b :: u32) :: u16) :: u32) OR push_bit 16 (ucast (ucast (drop_bit 16 b) :: u8))
     OR push_bit 24 (ucast (ucast (drop_bit 24 b) :: u8)) = b"
proof (rule bit_word_eqI)
  fix n
  assume "n < LENGTH(32)"
  then consider "n < 16" | "16 \<le> n" "n < 24" | "24 \<le> n" "n < 32" by force
  then show "bit ((ucast (ucast b :: u16) :: u32) OR push_bit 16 (ucast (ucast (drop_bit 16 b) :: u8))
     OR push_bit 24 (ucast (ucast (drop_bit 24 b) :: u8))) n = bit b n"
    by cases (auto simp: bit_simps)
qed

lemma bit_nibbles: "bit (0xf :: int) n \<longleftrightarrow> n < 4" "bit (0xf0 :: int) n \<longleftrightarrow> 4 \<le> n \<and> n < 8"
proof -
  have "(0xf :: int) = mask 4" "(0xf0 :: int) = push_bit 4 (mask 4)"
    by (simp_all add: mask_eq_exp_minus_1)
  then show "bit (0xf :: int) n \<longleftrightarrow> n < 4" "bit (0xf0 :: int) n \<longleftrightarrow> 4 \<le> n \<and> n < 8"
    by (simp_all only: bit_push_bit_iff bit_mask_iff) auto
qed

definition packed_granularity :: "u32 \<Rightarrow> u8 \<Rightarrow> u8" where
  "packed_granularity limit gran = ucast ((drop_bit 16 limit AND 0xf) OR ucast (gran AND 0xf0))"

lemma bit_packed_granularity:
  "bit (packed_granularity limit gran) n \<longleftrightarrow> (if n < 4 then bit limit (n + 16) else n < 8 \<and> bit gran n)"
  by (auto simp: packed_granularity_def bit_simps bit_nibbles add.commute)

lemma small_limit_bits: "unat (limit :: u32) < 0x100000 \<Longrightarrow> 20 \<le> n \<Longrightarrow> \<not> bit limit n"
proof -
  assume "unat limit < 0x100000" "20 \<le> n"
  then have "take_bit 20 limit = limit" by (simp add: word_unat_eq_iff take_bit_eq_mod unat_mod)
  then show ?thesis using \<open>20 \<le> n\<close> by (metis bit_take_bit_iff not_le)
qed

lemma limit_bits:
  assumes "unat (limit :: u32) < 0x100000"
  shows "(ucast (ucast limit :: u16) :: u32) OR push_bit 16 (ucast (packed_granularity limit gran AND 0xf)) = limit"
proof (rule bit_word_eqI)
  fix n
  assume "n < LENGTH(32)"
  then consider "n < 16" | "16 \<le> n" "n < 20" | "20 \<le> n" "n < 32" by force
  then show "bit ((ucast (ucast limit :: u16) :: u32)
      OR push_bit 16 (ucast (packed_granularity limit gran AND 0xf))) n = bit limit n"
    by cases (auto simp: bit_simps bit_nibbles bit_packed_granularity small_limit_bits [OF assms])
qed

text \<open>The entry that \<open>gdt_set_entry\<close> stores.\<close>

definition seg :: "u32 \<Rightarrow> u32 \<Rightarrow> u8 \<Rightarrow> u8 \<Rightarrow> gdt_entry" where
  "seg base limit acc gran = \<lparr>limit_low = ucast limit, base_low = ucast base,
     base_middle = ucast (drop_bit 16 base), access = acc,
     granularity = packed_granularity limit gran, base_high = ucast (drop_bit 24 base)\<rparr>"

lemma gdt_set_entry_seg:
  "gdt_set_entry idx base limit acc gran g =
     (if unat idx < length g then Some (g[unat idx := seg base limit acc gran]) else None)"
  by (simp add: gdt_set_entry_def seg_def packed_granularity_def)

lemma seg_fields [simp]:
  "entry_base (seg base limit acc gran) = base"
  "unat limit < 0x100000 \<Longrightarrow> entry_limit (seg base limit acc gran) = limit"
  "access (seg base limit acc gran) = acc"
  "entry_in_pages (seg base limit acc gran) = bit gran 7"
  "entry_dpl (seg base limit acc gran) = drop_bit 5 acc AND 3"
  by (simp_all add: seg_def entry_base_def base_bits entry_limit_def limit_bits entry_in_pages_def
      bit_packed_granularity entry_dpl_def)

section \<open>Properties\<close>

text \<open>
  An entry written by \<open>gdt_set_entry\<close> reads back as the base and the (20-bit) limit
  that were given, with the access byte and the granularity flags, and no other entry
  changes; an index outside the table has no entry to write.
\<close>

theorem gdt_set_entry_roundtrip:
  assumes "unat limit < 0x100000"
  shows "case gdt_set_entry idx base limit acc gran g of
      None \<Rightarrow> length g \<le> unat idx
    | Some g' \<Rightarrow> length g' = length g \<and> entry_base (g' ! unat idx) = base \<and> entry_limit (g' ! unat idx) = limit
        \<and> access (g' ! unat idx) = acc \<and> entry_in_pages (g' ! unat idx) = bit gran 7
        \<and> (\<forall>j. j \<noteq> unat idx \<longrightarrow> g' ! j = g ! j)"
  using assms by (simp add: gdt_set_entry_seg)

theorem gdt_set_entry_roundtrip_witness:
  "\<exists>g. gdt_set_entry 5 0xc0195000 103 0x89 0 (replicate GDT_ENTRIES zero_entry) = Some g
     \<and> entry_base (g ! 5) = 0xc0195000 \<and> entry_limit (g ! 5) = 103"
  using gdt_set_entry_roundtrip [where limit = 103 and idx = 5 and base = "0xc0195000" and acc = "0x89"
      and gran = 0 and g = "replicate GDT_ENTRIES zero_entry"]
  by (auto split: option.splits)

text \<open>
  The segments after start-up: on the zeroed table \<open>init_gdt\<close> followed by
  \<open>init_tss\<close> succeeds, the entries that the four code and data selectors name are flat
  4 GiB segments with privilege level 0 for the kernel selectors and 3 for the user
  selectors, the task selector names a segment of exactly the task state's bytes, and on a
  privilege change the processor switches to the given kernel stack.
\<close>

theorem segments_after_boot:
  "\<exists>g1 m1 g tss m'. init_gdt L (replicate GDT_ENTRIES zero_entry) m = Some (1, g1, m1)
     \<and> init_tss L stack g1 m1 = Some (1, tss, g, m') \<and> length g = GDT_ENTRIES
     \<and> list_all (\<lambda>(sel, dpl, acc).
          let e = g ! unat (drop_bit 3 sel) in entry_base e = 0 \<and> entry_limit e = 0xfffff
            \<and> entry_in_pages e \<and> entry_dpl e = dpl \<and> access e = acc)
         [(GDT_KERNEL_CODE_SELECTOR, 0, 0x9a), (GDT_KERNEL_DATA_SELECTOR, 0, 0x92),
          (GDT_USER_CODE_SELECTOR, 3, 0xfa), (GDT_USER_DATA_SELECTOR, 3, 0xf2)]
     \<and> (let e = g ! unat (drop_bit 3 GDT_TSS_SELECTOR) in entry_base e = sym_tss L
            \<and> entry_limit e = SIZEOF_TSS_ENTRY - 1 \<and> \<not> entry_in_pages e \<and> entry_dpl e = 0)
     \<and> tss_esp0 tss = stack \<and> tss_ss0 tss = GDT_KERNEL_DATA_SELECTOR"
proof -
  define g1 where "g1 = [seg 0 0 0 0, seg 0 0xfffff 0x9a 0xcf, seg 0 0xfffff 0x92 0xcf,
    seg 0 0xfffff 0xfa 0xcf, seg 0 0xfffff 0xf2 0xcf, zero_entry]"
  define g where "g = g1[5 := seg (sym_tss L) 103 0x89 0]"
  have z: "replicate GDT_ENTRIES zero_entry =
      [zero_entry, zero_entry, zero_entry, zero_entry, zero_entry, zero_entry]"
    by (simp add: numeral_nat)
  have 1: "\<exists>m1. init_gdt L (replicate GDT_ENTRIES zero_entry) m = Some (1, g1, m1)"
    by (simp add: init_gdt_def gdt_set_entry_seg Let_def g1_def z)
  have 2: "\<exists>m'. init_tss L stack g1 m1 = Some (1, init_tss_entry\<lparr>tss_ss0 := GDT_KERNEL_DATA_SELECTOR,
      tss_esp0 := stack, tss_iopb := ucast SIZEOF_TSS_ENTRY\<rparr>, g, m')" for m1
    by (simp add: init_tss_def gdt_set_tss_entry_def gdt_set_entry_seg Let_def g_def g1_def)
  have 3: "length g = GDT_ENTRIES" "g ! Suc 0 = seg 0 0xfffff 0x9a 0xcf" "g ! 2 = seg 0 0xfffff 0x92 0xcf"
      "g ! 3 = seg 0 0xfffff 0xfa 0xcf" "g ! 4 = seg 0 0xfffff 0xf2 0xcf" "g ! 5 = seg (sym_tss L) 103 0x89 0"
    by (simp_all add: g_def g1_def numeral_nat)
  have 4: "bit (0xcf :: u8) 7" "\<not> bit (0 :: u8) 7" by simp_all
  obtain m1 where m1: "init_gdt L (replicate GDT_ENTRIES zero_entry) m = Some (1, g1, m1)" using 1 by blast
  obtain m' where m': "init_tss L stack g1 m1 = Some (1, init_tss_entry\<lparr>tss_ss0 := GDT_KERNEL_DATA_SELECTOR,
      tss_esp0 := stack, tss_iopb := ucast SIZEOF_TSS_ENTRY\<rparr>, g, m')" using 2 [of m1] by blast
  show ?thesis
    by (rule exI [of _ g1], rule exI [of _ m1], rule exI [of _ g], rule exI, rule exI [of _ m'],
        rule conjI [OF m1], rule conjI [OF m']) (simp add: 3 4 Let_def)
qed

end
