(* ===== verification/Frames.thy ===== *)
theory Frames
  imports Console
begin

text \<open>
  Physical frames, \<^verbatim>\<open>kernel/memory.c\<close>: one in-use byte per 4 KiB frame of the first
  64 MiB, of which the first 4 MiB belong to the kernel image. The contract of a pool of
  pages is the locale \<open>page_pool\<close>; the frame allocator here and the two pools of
  \<^verbatim>\<open>kernel/paging.c\<close> interpret it.
\<close>

section \<open>Model\<close>

abbreviation PHYSICAL_FRAMES :: nat where "PHYSICAL_FRAMES \<equiv> 16384"
abbreviation PAGE_TABLE_ENTRIES :: nat where "PAGE_TABLE_ENTRIES \<equiv> 1024"
abbreviation PAGE_SIZE :: u32 where "PAGE_SIZE \<equiv> 4096"

type_synonym frames = "u8 list"

definition mask_kernel_pages :: "frames \<Rightarrow> frames" where
  "mask_kernel_pages f = fold (\<lambda>i f. f[i := 1]) [0..<PAGE_TABLE_ENTRIES] f"

definition init_frames :: frames where
  "init_frames = mask_kernel_pages (replicate PHYSICAL_FRAMES 0)"

definition init_physical_memory_allocator :: "machine \<Rightarrow> (u8 \<times> frames) \<times> machine" where
  "init_physical_memory_allocator m =
     (let m = print ''Setting up physical memory allocator ... '' m;
          f = init_frames;
          m = println ''Done'' m
      in ((1, f), m))"

definition alloc_phys_frame :: "frames \<Rightarrow> u32 \<times> frames" where
  "alloc_phys_frame f =
     (case scan_free 0 f of
        Some i \<Rightarrow> (of_nat i * PAGE_SIZE, f[i := 1])
      | None \<Rightarrow> (0, f))"

text \<open>\<open>None\<close> is a write outside the array.\<close>

definition free_phys_frame :: "u32 \<Rightarrow> frames \<Rightarrow> (u8 \<times> frames) option" where
  "free_phys_frame frame_base_addr f =
     (let frame_index = unat (frame_base_addr div PAGE_SIZE) in
      if frame_index < PAGE_TABLE_ENTRIES then Some (0, f)
      else if frame_index < length f then Some (1, f[frame_index := 0])
      else None)"

section \<open>Pools of pages\<close>

text \<open>
  A pool hands out the addresses of its pages, one at a time, null when all are in use; a
  page that is given back can be handed out again.
\<close>

fun alloc_n :: "('s \<Rightarrow> u32 \<times> 's) \<Rightarrow> nat \<Rightarrow> 's \<Rightarrow> u32 list \<times> 's" where
  "alloc_n alloc 0 s = ([], s)"
| "alloc_n alloc (Suc n) s = (let (p, s) = alloc s; (ps, s) = alloc_n alloc n s in (p # ps, s))"

lemma length_alloc_n: "alloc_n alloc n s = (ps, t) \<Longrightarrow> length ps = n"
  by (induction n arbitrary: s ps) (auto split: prod.splits)

locale page_pool =
  fixes inv :: "'s \<Rightarrow> bool"
    and alloc :: "'s \<Rightarrow> u32 \<times> 's"
    and free :: "u32 \<Rightarrow> 's \<Rightarrow> (u8 \<times> 's) option"
    and used :: "'s \<Rightarrow> u32 set"
    and pages :: "u32 set"
  assumes null_not_page: "inv s \<Longrightarrow> 0 \<notin> pages"
    and finite_pages: "finite pages"
    and used_pages: "inv s \<Longrightarrow> used s \<subseteq> pages"
    and alloc_null: "inv s \<Longrightarrow> alloc s = (0, s') \<Longrightarrow> s' = s \<and> used s = pages"
    and alloc_page: "inv s \<Longrightarrow> alloc s = (p, s') \<Longrightarrow> p \<noteq> 0 \<Longrightarrow>
      inv s' \<and> p \<in> pages \<and> p \<notin> used s \<and> used s' = insert p (used s)"
    and free_page: "inv s \<Longrightarrow> p \<in> used s \<Longrightarrow>
      \<exists>s'. free p s = Some (1, s') \<and> inv s' \<and> used s' = used s - {p}"
begin

lemma alloc_succeeds_iff: "inv s \<Longrightarrow> fst (alloc s) \<noteq> 0 \<longleftrightarrow> used s \<noteq> pages"
proof (cases "fst (alloc s) = 0")
  case True
  moreover assume "inv s"
  ultimately show ?thesis using alloc_null [of s "snd (alloc s)"] by (metis prod.collapse)
next
  case False
  moreover assume "inv s"
  ultimately show ?thesis using alloc_page [of s "fst (alloc s)" "snd (alloc s)"] by auto
qed

lemma alloc_then_free:
  assumes "inv s" and "alloc s = (p, s')" and "p \<noteq> 0"
  shows "\<exists>s''. free p s' = Some (1, s'') \<and> inv s'' \<and> used s'' = used s"
  using alloc_page [OF assms] free_page [of s' p] by force

lemma alloc_n_distinct:
  assumes "inv s" and "alloc_n alloc n s = (ps, s')" and "0 \<notin> set ps"
  shows "distinct ps \<and> set ps \<inter> used s = {} \<and> used s' = set ps \<union> used s \<and> inv s' \<and> set ps \<subseteq> pages"
  using assms
proof (induction n arbitrary: s ps)
  case (Suc n)
  obtain p t where p: "alloc s = (p, t)" by fastforce
  obtain qs where qs: "alloc_n alloc n t = (qs, s')" "ps = p # qs"
    using Suc.prems(2) by (auto simp: p split: prod.splits)
  have "p \<noteq> 0" using Suc.prems(3) qs by auto
  then have t: "inv t" "p \<in> pages" "p \<notin> used s" "used t = insert p (used s)"
    using alloc_page [OF Suc.prems(1) p] by auto
  moreover have "distinct qs \<and> set qs \<inter> used t = {} \<and> used s' = set qs \<union> used t \<and> inv s' \<and> set qs \<subseteq> pages"
    using Suc.IH [OF t(1) qs(1)] Suc.prems(3) qs(2) by simp
  ultimately show ?case by (auto simp: qs(2))
qed simp

lemma free_count: "inv s \<Longrightarrow> alloc s = (p, s') \<Longrightarrow> p \<noteq> 0 \<Longrightarrow> card (pages - used s') + 1 = card (pages - used s)"
proof -
  assume "inv s" "alloc s = (p, s')" "p \<noteq> 0"
  then have "pages - used s = insert p (pages - used s')" "p \<notin> pages - used s'"
    using alloc_page [of s p s'] by auto
  then show ?thesis using finite_pages by simp
qed

text \<open>As many allocations succeed as there are free pages, and no more.\<close>

lemma alloc_n_succeeds:
  "inv s \<Longrightarrow> n \<le> card (pages - used s) \<Longrightarrow> 0 \<notin> set (fst (alloc_n alloc n s))"
proof (induction n arbitrary: s)
  case (Suc n)
  obtain p t where p: "alloc s = (p, t)" by fastforce
  have "used s \<noteq> pages" using Suc.prems(2) by auto
  then have "p \<noteq> 0" using alloc_succeeds_iff [OF Suc.prems(1)] p by simp
  then have "inv t" "n \<le> card (pages - used t)"
    using alloc_page [OF Suc.prems(1) p] free_count [OF Suc.prems(1) p] Suc.prems(2) by simp_all
  then show ?case using Suc.IH [of t] \<open>p \<noteq> 0\<close> by (simp add: p split_def Let_def)
qed simp

lemma alloc_n_exhausts:
  assumes "inv s" and "n = card (pages - used s)" and "alloc_n alloc n s = (ps, t)"
  shows "distinct ps \<and> set ps = pages - used s \<and> alloc t = (0, t)"
proof -
  have nz: "0 \<notin> set ps" using alloc_n_succeeds [OF assms(1), of n] assms(2,3) by simp
  note d = alloc_n_distinct [OF assms(1,3) nz]
  have len: "length ps = n" using assms(3) by (rule length_alloc_n)
  have "set ps = pages - used s"
    using d assms(2) len finite_pages by (intro card_subset_eq) (auto simp: distinct_card)
  moreover have "used t = pages" using calculation d used_pages [OF assms(1)] by auto
  then have "alloc t = (0, t)"
    using d alloc_succeeds_iff [of t] alloc_null [of t "snd (alloc t)"] by (metis prod.collapse)
  ultimately show ?thesis using d by simp
qed

end


section \<open>Pools kept as an array of flags\<close>

text \<open>
  Page \<open>i\<close> of a pool lies at \<open>base + i * 4096\<close>; the pages below \<open>lo\<close> are reserved
  for ever.
\<close>

definition pool_page :: "u32 \<Rightarrow> nat \<Rightarrow> u32" where
  "pool_page base i = base + of_nat i * 4096"

definition pool_pages :: "u32 \<Rightarrow> nat \<Rightarrow> nat \<Rightarrow> u32 set" where
  "pool_pages base lo n = pool_page base ` {lo..<n}"

definition pool_used :: "u32 \<Rightarrow> nat \<Rightarrow> u8 list \<Rightarrow> u32 set" where
  "pool_used base lo flags = pool_page base ` {i. lo \<le> i \<and> i < length flags \<and> flags ! i \<noteq> 0}"

definition pool_ok :: "nat \<Rightarrow> nat \<Rightarrow> u8 list \<Rightarrow> bool" where
  "pool_ok lo n flags \<longleftrightarrow> length flags = n \<and> (\<forall>i < lo. flags ! i \<noteq> 0)"

definition pool_at :: "u32 \<Rightarrow> nat \<Rightarrow> nat \<Rightarrow> bool" where
  "pool_at base lo n \<longleftrightarrow> 0 < unat base + lo * 4096 \<and> unat base + n * 4096 \<le> 4294967296 \<and> lo \<le> n"

lemma unat_pool_page: "pool_at base lo n \<Longrightarrow> i < n \<Longrightarrow> unat (pool_page base i) = unat base + i * 4096"
proof -
  assume "pool_at base lo n" "i < n"
  then have *: "unat base + i * 4096 < 4294967296" by (simp add: pool_at_def)
  then have "unat (of_nat i * 4096 :: u32) = i * 4096"
    using unat_of_nat_u32 [of "i * 4096"] by simp
  with * show ?thesis by (simp add: pool_page_def unat_add_u32_nowrap)
qed

lemma pool_page_inj: "pool_at base lo n \<Longrightarrow> i < n \<Longrightarrow> j < n \<Longrightarrow> pool_page base i = pool_page base j \<longleftrightarrow> i = j"
  by (metis add_left_cancel mult_cancel2 unat_pool_page zero_neq_numeral)

lemma pool_page_nonzero: "pool_at base lo n \<Longrightarrow> lo \<le> i \<Longrightarrow> i < n \<Longrightarrow> pool_page base i \<noteq> 0"
  using unat_pool_page [of base lo n i] by (auto simp: pool_at_def)

lemma null_not_pool_page: "pool_at base lo n \<Longrightarrow> 0 \<notin> pool_pages base lo n"
  unfolding pool_pages_def using pool_page_nonzero [of base lo n] by force

lemma finite_pool_pages: "finite (pool_pages base lo n)"
  by (simp add: pool_pages_def)

lemma pool_used_pages: "pool_ok lo n flags \<Longrightarrow> pool_used base lo flags \<subseteq> pool_pages base lo n"
  by (auto simp: pool_ok_def pool_used_def pool_pages_def)

lemma pool_scan_None:
  "pool_ok lo n flags \<Longrightarrow> scan_free 0 flags = None \<Longrightarrow> pool_used base lo flags = pool_pages base lo n"
  by (auto simp: pool_ok_def pool_used_def pool_pages_def scan_free_None)

lemma pool_scan_Some:
  assumes "pool_at base lo n" and "pool_ok lo n flags" and "scan_free 0 flags = Some k"
  shows "lo \<le> k" "k < n" "pool_page base k \<noteq> 0" "pool_page base k \<in> pool_pages base lo n"
    "pool_page base k \<notin> pool_used base lo flags" "pool_ok lo n (flags[k := 1])"
    "pool_used base lo (flags[k := 1]) = insert (pool_page base k) (pool_used base lo flags)"
proof -
  have k: "k < n" "flags ! k = 0" using scan_free_Some [OF assms(3)] assms(2) by (auto simp: pool_ok_def)
  then show lo: "lo \<le> k" using assms(2) by (meson not_le pool_ok_def)
  show "k < n" by fact
  show "pool_page base k \<noteq> 0" using pool_page_nonzero [OF assms(1) lo k(1)] .
  show "pool_page base k \<in> pool_pages base lo n" using lo k by (simp add: pool_pages_def)
  show "pool_page base k \<notin> pool_used base lo flags"
    using k assms(2) by (auto simp: pool_used_def pool_ok_def pool_page_inj [OF assms(1)])
  show "pool_ok lo n (flags[k := 1])" using assms(2) lo by (auto simp: pool_ok_def)
  have "{i. lo \<le> i \<and> i < length (flags[k := 1]) \<and> flags[k := 1] ! i \<noteq> 0} =
        insert k {i. lo \<le> i \<and> i < length flags \<and> flags ! i \<noteq> 0}"
    using lo k assms(2) by (auto simp: pool_ok_def nth_list_update)
  then show "pool_used base lo (flags[k := 1]) = insert (pool_page base k) (pool_used base lo flags)"
    by (simp add: pool_used_def)
qed

lemma pool_release:
  assumes "pool_at base lo n" and "pool_ok lo n flags" and "lo \<le> k" and "k < n"
  shows "pool_ok lo n (flags[k := 0])"
    "pool_used base lo (flags[k := 0]) = pool_used base lo flags - {pool_page base k}"
proof -
  show "pool_ok lo n (flags[k := 0])" using assms by (auto simp: pool_ok_def)
  have "{i. lo \<le> i \<and> i < length (flags[k := 0]) \<and> flags[k := 0] ! i \<noteq> 0} =
        {i. lo \<le> i \<and> i < length flags \<and> flags ! i \<noteq> 0} - {k}"
    using assms by (auto simp: nth_list_update pool_ok_def split: if_splits)
  moreover have "pool_page base ` ({i. lo \<le> i \<and> i < length flags \<and> flags ! i \<noteq> 0} - {k}) =
     pool_page base ` {i. lo \<le> i \<and> i < length flags \<and> flags ! i \<noteq> 0} - {pool_page base k}"
    using assms by (intro image_minus_singleton) (auto simp: pool_ok_def pool_page_inj [OF assms(1)])
  ultimately show "pool_used base lo (flags[k := 0]) = pool_used base lo flags - {pool_page base k}"
    by (simp add: pool_used_def)
qed

lemma pool_usedE:
  assumes "p \<in> pool_used base lo flags" and "pool_ok lo n flags"
  obtains i where "p = pool_page base i" "lo \<le> i" "i < n" "flags ! i \<noteq> 0"
  using assms by (auto simp: pool_used_def pool_ok_def)

section \<open>The frame allocator is a pool\<close>

definition frames_ok :: "frames \<Rightarrow> bool" where
  "frames_ok f \<longleftrightarrow> pool_ok PAGE_TABLE_ENTRIES PHYSICAL_FRAMES f"

definition frames_used :: "frames \<Rightarrow> u32 set" where
  "frames_used f = pool_used 0 PAGE_TABLE_ENTRIES f"

definition user_frames :: "u32 set" where
  "user_frames = pool_pages 0 PAGE_TABLE_ENTRIES PHYSICAL_FRAMES"

lemmas frames_defs [inv_defs] = frames_ok_def frames_used_def user_frames_def

lemma frames_pool_at: "pool_at 0 PAGE_TABLE_ENTRIES PHYSICAL_FRAMES"
  by (simp add: pool_at_def)

lemma fold_set_flags:
  "length (fold (\<lambda>i f. f[i := v]) [0..<n] f) = length f"
  "i < length f \<Longrightarrow> fold (\<lambda>i f. f[i := v]) [0..<n] f ! i = (if i < n then v else f ! i)"
  by (induction n) (auto simp: nth_list_update less_Suc_eq simp del: upt_rec_numeral)

lemma init_frames_nth:
  "length init_frames = PHYSICAL_FRAMES"
  "i < PHYSICAL_FRAMES \<Longrightarrow> init_frames ! i = (if i < PAGE_TABLE_ENTRIES then 1 else 0)"
  unfolding init_frames_def mask_kernel_pages_def
  by (simp_all add: fold_set_flags del: upt_rec_numeral)

lemma init_frames_ok: "frames_ok init_frames" "frames_used init_frames = {}"
  by (auto simp: frames_defs pool_ok_def pool_used_def init_frames_nth)

lemma alloc_phys_frame_page: "alloc_phys_frame f =
   (case scan_free 0 f of Some i \<Rightarrow> (pool_page 0 i, f[i := 1]) | None \<Rightarrow> (0, f))"
  by (simp add: alloc_phys_frame_def pool_page_def split: option.split)

lemma page_index:
  "i < PHYSICAL_FRAMES \<Longrightarrow> unat (pool_page 0 i div PAGE_SIZE) = i"
  by (simp add: unat_div unat_pool_page [OF frames_pool_at])

interpretation frame_pool: page_pool frames_ok alloc_phys_frame free_phys_frame frames_used user_frames
proof
  show "0 \<notin> user_frames" by (simp add: user_frames_def null_not_pool_page [OF frames_pool_at])
  show "finite user_frames" by (simp add: user_frames_def finite_pool_pages)
  fix f :: frames
  assume ok: "frames_ok f"
  then have ok': "pool_ok PAGE_TABLE_ENTRIES PHYSICAL_FRAMES f" by (simp add: frames_ok_def)
  show "frames_used f \<subseteq> user_frames" using ok by (auto simp: frames_defs dest: pool_used_pages)
  note found = pool_scan_Some [OF frames_pool_at ok']
  show "f' = f \<and> frames_used f = user_frames" if "alloc_phys_frame f = (0, f')" for f'
    using that found(3) pool_scan_None [OF ok']
    by (auto simp: alloc_phys_frame_page frames_defs split: option.splits)
  show "frames_ok f' \<and> p \<in> user_frames \<and> p \<notin> frames_used f \<and> frames_used f' = insert p (frames_used f)"
    if "alloc_phys_frame f = (p, f')" "p \<noteq> 0" for p f'
    using that found by (auto simp: alloc_phys_frame_page frames_defs split: option.splits)
  show "\<exists>f'. free_phys_frame p f = Some (1, f') \<and> frames_ok f' \<and> frames_used f' = frames_used f - {p}"
    if p: "p \<in> frames_used f" for p
  proof -
    obtain i where i: "p = pool_page 0 i" "PAGE_TABLE_ENTRIES \<le> i" "i < PHYSICAL_FRAMES"
      using pool_usedE [OF p [unfolded frames_used_def] ok'] by metis
    have len: "length f = PHYSICAL_FRAMES" using ok' by (simp add: pool_ok_def)
    have "free_phys_frame p f = Some (1, f[i := 0])"
      using i by (simp add: free_phys_frame_def page_index len)
    then show ?thesis using pool_release [OF frames_pool_at ok' i(2,3)] i(1) by (simp add: frames_defs)
  qed
qed

section \<open>Properties\<close>

text \<open>
  \<open>alloc_phys_frame\<close> returns null, changing nothing, exactly when every frame is in
  use; otherwise it returns a page-aligned frame outside the kernel's 4 MiB and inside the
  64 MiB managed, which was not in use and is now the only new frame in use.
\<close>

theorem alloc_phys_frame_correct:
  assumes "frames_ok f" and "alloc_phys_frame f = (p, f')"
  shows "frames_ok f' \<and> (p = 0 \<longleftrightarrow> frames_used f = user_frames)
    \<and> (if p = 0 then f' = f
       else unat p mod 4096 = 0 \<and> 0x400000 \<le> unat p \<and> unat p < 0x4000000
         \<and> p \<notin> frames_used f \<and> frames_used f' = insert p (frames_used f))"
proof (cases "p = 0")
  case True
  with assms frame_pool.alloc_null [of f f'] show ?thesis by simp
next
  case False
  note new = frame_pool.alloc_page [OF assms False]
  then obtain i where "p = pool_page 0 i" "PAGE_TABLE_ENTRIES \<le> i" "i < PHYSICAL_FRAMES"
    by (auto simp: user_frames_def pool_pages_def)
  then have "unat p = i * 4096" "1024 \<le> i" "i < 16384" using unat_pool_page [OF frames_pool_at] by auto
  with new False frame_pool.alloc_succeeds_iff [OF assms(1)] assms(2) show ?thesis by auto
qed

theorem alloc_phys_frame_correct_witness:
  "frames_ok init_frames \<and> fst (alloc_phys_frame init_frames) \<noteq> 0
     \<and> fst (alloc_phys_frame init_frames) \<notin> frames_used init_frames"
proof -
  have "user_frames \<noteq> {}" by (simp add: user_frames_def pool_pages_def)
  then show ?thesis
    using alloc_phys_frame_correct [OF init_frames_ok(1) prod.collapse [symmetric]] init_frames_ok
    by metis
qed

text \<open>
  C28. After initialisation the allocator serves exactly the 15360 frames above the kernel:
  that many calls return that many different frames, none of them null or kernel memory,
  and the call after them returns null.
\<close>

theorem frames_all_served:
  "\<exists>ps f. alloc_n alloc_phys_frame 15360 init_frames = (ps, f) \<and> distinct ps \<and> length ps = 15360
     \<and> set ps = user_frames \<and> 0 \<notin> set ps \<and> alloc_phys_frame f = (0, f)"
proof -
  obtain ps f where r: "alloc_n alloc_phys_frame 15360 init_frames = (ps, f)" by fastforce
  have inj: "inj_on (pool_page 0) {PAGE_TABLE_ENTRIES..<PHYSICAL_FRAMES}"
    by (auto simp: inj_on_def pool_page_inj [OF frames_pool_at])
  have "card user_frames = 15360"
    unfolding user_frames_def pool_pages_def by (simp add: card_image [OF inj])
  then have "15360 = card (user_frames - frames_used init_frames)" by (simp add: init_frames_ok)
  from frame_pool.alloc_n_exhausts [OF init_frames_ok(1) this r]
  show ?thesis using r length_alloc_n [OF r] frame_pool.null_not_page [OF init_frames_ok(1)] init_frames_ok(2) by simp
qed

text \<open>
  C29. \<open>free_phys_frame\<close> on every address: a frame of the kernel's 4 MiB is refused and
  nothing changes; a frame of the managed range is released, so that only it leaves the
  frames in use; an address at or above 64 MiB makes the function write outside its array.
\<close>

theorem free_phys_frame_correct:
  assumes "frames_ok f"
  shows "case free_phys_frame p f of
      None \<Rightarrow> 0x4000000 \<le> unat p
    | Some (r, f') \<Rightarrow> unat p < 0x4000000 \<and> frames_ok f' \<and> r = (if unat p < 0x400000 then 0 else 1)
        \<and> frames_used f' = (if unat p < 0x400000 then frames_used f
             else frames_used f - {of_nat (unat p div 4096 * 4096)})"
proof -
  let ?i = "unat p div 4096"
  have len: "length f = PHYSICAL_FRAMES" and ok: "pool_ok PAGE_TABLE_ENTRIES PHYSICAL_FRAMES f"
    using assms by (simp_all add: frames_ok_def pool_ok_def)
  have idx: "unat (p div PAGE_SIZE) = ?i" by (simp add: unat_div)
  have pg: "pool_page 0 ?i = of_nat (?i * 4096)" by (simp add: pool_page_def)
  consider "?i < 1024" | "1024 \<le> ?i" "?i < 16384" | "16384 \<le> ?i" by linarith
  then show ?thesis
  proof cases
    case 1
    then have "unat p < 0x400000" by linarith
    with 1 assms show ?thesis by (simp add: free_phys_frame_def idx)
  next
    case 2
    then have "\<not> unat p < 0x400000" "unat p < 0x4000000" by linarith+
    moreover have "free_phys_frame p f = Some (1, f[?i := 0])"
      using 2 by (simp add: free_phys_frame_def idx len)
    ultimately show ?thesis
      using pool_release [OF frames_pool_at ok 2] by (simp add: frames_defs pg del: of_nat_mult)
  next
    case 3
    then have "0x4000000 \<le> unat p" by linarith
    with 3 show ?thesis by (simp add: free_phys_frame_def idx len)
  qed
qed

theorem free_phys_frame_correct_witness:
  "frames_ok init_frames \<and> free_phys_frame 0x4000000 init_frames = None
    \<and> free_phys_frame 0x3ff000 init_frames = Some (0, init_frames)"
proof -
  have "free_phys_frame 0x4000000 init_frames = None" 
    using free_phys_frame_correct [OF init_frames_ok(1), of "0x4000000"]
    by (auto split: option.splits)
  then show ?thesis
    using init_frames_ok by (simp add: free_phys_frame_def unat_div)
qed

end
