(* ===== verification/Paging.thy ===== *)
theory Paging
  imports Frames
begin

text \<open>
  Page directories and page tables, \<^verbatim>\<open>kernel/paging.c\<close>. Tables live in two static
  pools; their entries are 32-bit words of kernel memory, which is a function from the
  virtual address of a word to the word. The two pools interpret the pool contract
  \<open>page_pool\<close>, and the specification of \<open>map_page\<close> and \<open>unmap_page\<close> is the
  processor's two-level translation \<open>page_walk\<close>.
\<close>

section \<open>Model\<close>

abbreviation PAGING_DIRECTORY_POOL_SIZE :: nat where "PAGING_DIRECTORY_POOL_SIZE \<equiv> 16"
abbreviation PAGING_TABLE_POOL_SIZE :: nat where "PAGING_TABLE_POOL_SIZE \<equiv> 64"
abbreviation PAGE_DIRECTORY_ENTRIES :: nat where "PAGE_DIRECTORY_ENTRIES \<equiv> 1024"
abbreviation KERNEL_VMA_TO_LMA_OFFSET :: u32 where "KERNEL_VMA_TO_LMA_OFFSET \<equiv> 0xc0000000"
abbreviation PAGE_FLAG_PRESENT :: u32 where "PAGE_FLAG_PRESENT \<equiv> 0x1"
abbreviation PAGE_FLAG_WRITABLE :: u32 where "PAGE_FLAG_WRITABLE \<equiv> 0x2"
abbreviation PAGE_FLAG_USER :: u32 where "PAGE_FLAG_USER \<equiv> 0x4"
abbreviation PAGE_ADDRESS_MASK :: u32 where "PAGE_ADDRESS_MASK \<equiv> 0xfffff000"

record paging =
  pd_in_use :: "u8 list"
  pt_in_use :: "u8 list"
  kmem :: "u32 \<Rightarrow> u32"

text \<open>Entry \<open>i\<close> of the table at \<open>a\<close>.\<close>

definition slot :: "u32 \<Rightarrow> u32 \<Rightarrow> u32" where
  "slot a i = a + 4 * i"

definition zero_page :: "u32 \<Rightarrow> (u32 \<Rightarrow> u32) \<Rightarrow> (u32 \<Rightarrow> u32)" where
  "zero_page a mem = fold (\<lambda>i mem. mem(slot a (of_nat i) := 0)) [0..<1024] mem"

definition alloc_pd :: "symbols \<Rightarrow> paging \<Rightarrow> u32 \<times> paging" where
  "alloc_pd L pg =
     (case scan_free 0 (pd_in_use pg) of
        Some i \<Rightarrow> let a = pool_page (sym_pd_pool L) i in
          (a, pg\<lparr>pd_in_use := (pd_in_use pg)[i := 1], kmem := zero_page a (kmem pg)\<rparr>)
      | None \<Rightarrow> (0, pg))"

definition alloc_pt :: "symbols \<Rightarrow> paging \<Rightarrow> u32 \<times> paging" where
  "alloc_pt L pg =
     (case scan_free 0 (pt_in_use pg) of
        Some i \<Rightarrow> let a = pool_page (sym_pt_pool L) i in
          (a, pg\<lparr>pt_in_use := (pt_in_use pg)[i := 1], kmem := zero_page a (kmem pg)\<rparr>)
      | None \<Rightarrow> (0, pg))"

text \<open>The search for the pool entry at a given address.\<close>

definition pool_index :: "u32 \<Rightarrow> nat \<Rightarrow> u32 \<Rightarrow> nat option" where
  "pool_index base n a = find (\<lambda>i. pool_page base i = a) [0..<n]"

definition free_pd :: "symbols \<Rightarrow> u32 \<Rightarrow> paging \<Rightarrow> u8 \<times> paging" where
  "free_pd L pgd pg =
     (case pool_index (sym_pd_pool L) PAGING_DIRECTORY_POOL_SIZE pgd of
        Some i \<Rightarrow> (1, pg\<lparr>pd_in_use := (pd_in_use pg)[i := 0]\<rparr>)
      | None \<Rightarrow> (0, pg))"

definition free_pt :: "symbols \<Rightarrow> u32 \<Rightarrow> paging \<Rightarrow> u8 \<times> paging" where
  "free_pt L pgt pg =
     (case pool_index (sym_pt_pool L) PAGING_TABLE_POOL_SIZE pgt of
        Some i \<Rightarrow> (1, pg\<lparr>pt_in_use := (pt_in_use pg)[i := 0]\<rparr>)
      | None \<Rightarrow> (0, pg))"

definition get_cr3 :: "machine \<Rightarrow> u32" where
  "get_cr3 m = cr3 m AND PAGE_ADDRESS_MASK"

definition set_cr3 :: "u32 \<Rightarrow> machine \<Rightarrow> machine" where
  "set_cr3 v m = m\<lparr>cr3 := v\<rparr>"

definition get_pd_lma :: "u32 \<Rightarrow> u32" where
  "get_pd_lma pgd_virt = (pgd_virt - KERNEL_VMA_TO_LMA_OFFSET) AND PAGE_ADDRESS_MASK"

definition get_pd_vma :: "u32 \<Rightarrow> u32" where
  "get_pd_vma pgd_phys = (pgd_phys AND PAGE_ADDRESS_MASK) + KERNEL_VMA_TO_LMA_OFFSET"

definition flush_tlb_single :: "u32 \<Rightarrow> machine \<Rightarrow> machine" where
  "flush_tlb_single vma m = log_event (Invlpg vma) m"

definition pde_index :: "u32 \<Rightarrow> u32" where
  "pde_index v = drop_bit 22 v AND 0x3ff"

definition pte_index :: "u32 \<Rightarrow> u32" where
  "pte_index v = drop_bit 12 v AND 0x3ff"

definition map_page :: "u32 \<Rightarrow> u32 \<Rightarrow> u32 \<Rightarrow> u32 \<Rightarrow> paging \<Rightarrow> machine \<Rightarrow> u8 \<times> paging \<times> machine" where
  "map_page pgd page_base_addr frame_base_addr flags pg m =
     (if flags AND PAGE_FLAG_PRESENT = 0 then (0, pg, m)
      else let page_table = get_pd_vma (kmem pg (slot pgd (pde_index page_base_addr))) in
        if page_table = 0 then (0, pg, m)
        else let pg = pg\<lparr>kmem := (kmem pg)(slot page_table (pte_index page_base_addr) := frame_base_addr OR flags)\<rparr>;
                 m = (if get_cr3 m = get_pd_lma pgd then flush_tlb_single page_base_addr m else m)
             in (1, pg, m))"

definition unmap_page :: "u32 \<Rightarrow> u32 \<Rightarrow> paging \<Rightarrow> machine \<Rightarrow> u8 \<times> paging \<times> machine" where
  "unmap_page pgd page_base_addr pg m =
     (let pde = kmem pg (slot pgd (pde_index page_base_addr)) in
      if pde AND PAGE_FLAG_PRESENT = 0 then (0, pg, m)
      else let page_table = get_pd_vma pde;
               pg = pg\<lparr>kmem := (kmem pg)(slot page_table (pte_index page_base_addr) := 0)\<rparr>;
               m = (if get_cr3 m = get_pd_lma pgd then flush_tlb_single page_base_addr m else m)
           in (1, pg, m))"

section \<open>Pages and slots\<close>

definition page_aligned :: "u32 \<Rightarrow> bool" where
  "page_aligned a \<longleftrightarrow> unat a mod 4096 = 0"

definition page_of :: "u32 \<Rightarrow> u32" where
  "page_of a = a AND PAGE_ADDRESS_MASK"

lemma unat_page_of: "unat (page_of a) = unat a div 4096 * 4096"
  by (simp add: page_of_def unat_and_fffff000)

lemma page_of_aligned: "page_aligned a \<Longrightarrow> page_of a = a"
  by (rule word_unat_eq_iff [THEN iffD2]) (simp add: unat_page_of page_aligned_def mod_0_imp_dvd)

lemma page_aligned_page_of [simp]: "page_aligned (page_of a)"
  by (simp add: page_aligned_def unat_page_of)

lemma page_aligned_bound: "page_aligned a \<Longrightarrow> unat a \<le> 4294963200"
proof -
  assume "page_aligned a"
  then obtain k where "unat a = 4096 * k" by (auto simp: page_aligned_def)
  moreover from this have "k < 1048576" using unat_u32_lt [of a] by simp
  ultimately show ?thesis by linarith
qed

lemma unat_slot:
  assumes "page_aligned a" and "unat i < 1024"
  shows "unat (slot a i) = unat a + 4 * unat i"
proof -
  have "unat (4 * i) = 4 * unat i" using assms(2) by (simp add: unat_word_ariths)
  then show ?thesis
    using page_aligned_bound [OF assms(1)] assms(2) by (simp add: slot_def unat_add_u32_nowrap)
qed

lemma page_of_slot: "page_aligned a \<Longrightarrow> unat i < 1024 \<Longrightarrow> page_of (slot a i) = a"
  by (rule word_unat_eq_iff [THEN iffD2]) (auto simp: unat_page_of unat_slot page_aligned_def)

lemma slot_eq_iff:
  assumes "page_aligned a" "page_aligned b" "unat i < 1024" "unat j < 1024"
  shows "slot a i = slot b j \<longleftrightarrow> a = b \<and> i = j"
proof
  assume eq: "slot a i = slot b j"
  then have ab: "a = b" using page_of_slot assms by metis
  then have "unat i = unat j" using eq assms unat_slot by (metis add_left_cancel mult_left_cancel zero_neq_numeral)
  then show "a = b \<and> i = j" using ab by (simp add: word_unat_eq_iff)
qed simp

lemma unat_and_3ff: "unat ((x :: u32) AND 0x3ff) = unat x mod 1024"
proof -
  have "(0x3ff :: u32) = mask 10" by (simp add: mask_eq_exp_minus_1)
  then have "x AND 0x3ff = take_bit 10 x" by (simp only: take_bit_eq_mask)
  then show ?thesis by (simp add: take_bit_eq_mod unat_mod)
qed

lemma unat_pde_index: "unat (pde_index v) = unat v div 4194304"
  using unat_u32_lt [of v] by (simp add: pde_index_def unat_and_3ff drop_bit_eq_div unat_div less_mult_imp_div_less)

lemma unat_pte_index: "unat (pte_index v) = unat v div 4096 mod 1024"
  by (simp add: pte_index_def unat_and_3ff drop_bit_eq_div unat_div)

lemma index_bounds [simp]: "unat (pde_index v) < 1024" "unat (pte_index v) < 1024"
  using unat_u32_lt [of v] by (simp_all add: unat_pde_index unat_pte_index less_mult_imp_div_less)

lemma same_page_iff:
  "page_of v = page_of w \<longleftrightarrow> pde_index v = pde_index w \<and> pte_index v = pte_index w"
proof -
  have "n div 4194304 = n div 4096 div 1024" for n :: nat by (simp add: div_mult2_eq [symmetric])
  then have "unat v div 4096 = unat w div 4096 \<longleftrightarrow>
    unat v div 4194304 = unat w div 4194304 \<and> unat v div 4096 mod 1024 = unat w div 4096 mod 1024"
    by (metis div_mult_mod_eq)
  then show ?thesis
    by (simp add: word_unat_eq_iff unat_page_of unat_pde_index unat_pte_index)
qed

lemma and_fff_eq: "(x :: u32) AND 0xfff = take_bit 12 x"
proof -
  have "(0xfff :: u32) = mask 12" by (simp add: mask_eq_exp_minus_1)
  then show ?thesis by (simp only: take_bit_eq_mask)
qed

lemma page_aligned_low: "page_aligned a \<longleftrightarrow> a AND 0xfff = 0"
  unfolding and_fff_eq page_aligned_def
  by (simp add: word_unat_eq_iff take_bit_eq_mod unat_mod)

lemma low_bits_page_of: "unat f < 4096 \<Longrightarrow> page_of f = 0"
  by (simp add: word_unat_eq_iff unat_page_of)

lemma low_bits_small: "unat (f :: u32) < 4096 \<Longrightarrow> f AND 0xfff = f"
  unfolding and_fff_eq by (simp add: word_unat_eq_iff take_bit_eq_mod unat_mod)

lemma entry_parts:
  assumes "page_aligned a" and "unat f < 4096"
  shows "(a OR f) AND PAGE_ADDRESS_MASK = a" "(a OR f) AND 0xfff = f"
proof -
  have "(a OR f) AND PAGE_ADDRESS_MASK = page_of a OR page_of f"
    by (simp only: page_of_def bit.conj_disj_distrib2)
  then show "(a OR f) AND PAGE_ADDRESS_MASK = a"
    using assms by (simp only: page_of_aligned low_bits_page_of or.right_neutral)
  have "(a OR f) AND 0xfff = (a AND 0xfff) OR (f AND 0xfff)"
    by (simp only: bit.conj_disj_distrib2)
  then show "(a OR f) AND 0xfff = f"
    using assms by (simp only: page_aligned_low low_bits_small or.left_neutral)
qed

lemma present_bit: "(x :: u32) AND PAGE_FLAG_PRESENT = 0 \<longleftrightarrow> \<not> bit x 0"
  by (simp add: and_one_eq bit_0 even_iff_mod_2_eq_zero)

lemma present_or: "f AND PAGE_FLAG_PRESENT \<noteq> 0 \<Longrightarrow> (a OR f :: u32) AND PAGE_FLAG_PRESENT \<noteq> 0"
  by (simp only: present_bit bit_or_iff simp_thms)

section \<open>Translation\<close>

text \<open>
  What the processor computes for an address under the directory at (kernel virtual
  address) \<open>pgd\<close>: the frame and the flags of the page, if it is mapped.
\<close>

definition page_walk :: "(u32 \<Rightarrow> u32) \<Rightarrow> u32 \<Rightarrow> u32 \<Rightarrow> (u32 \<times> u32) option" where
  "page_walk mem pgd v =
     (let pde = mem (slot pgd (pde_index v)) in
      if pde AND PAGE_FLAG_PRESENT = 0 then None
      else let pte = mem (slot (get_pd_vma pde) (pte_index v)) in
        if pte AND PAGE_FLAG_PRESENT = 0 then None
        else Some (pte AND PAGE_ADDRESS_MASK, pte AND 0xfff))"

text \<open>
  The directory at \<open>pgd\<close> is well formed: its present entries name tables that are
  not null, not the directory itself and not shared.
\<close>

definition pde_present :: "(u32 \<Rightarrow> u32) \<Rightarrow> u32 \<Rightarrow> u32 \<Rightarrow> bool" where
  "pde_present mem pgd i \<longleftrightarrow> unat i < 1024 \<and> mem (slot pgd i) AND PAGE_FLAG_PRESENT \<noteq> 0"

definition table_of :: "(u32 \<Rightarrow> u32) \<Rightarrow> u32 \<Rightarrow> u32 \<Rightarrow> u32" where
  "table_of mem pgd i = get_pd_vma (mem (slot pgd i))"

definition tables_ok :: "(u32 \<Rightarrow> u32) \<Rightarrow> u32 \<Rightarrow> bool" where
  "tables_ok mem pgd \<longleftrightarrow> page_aligned pgd \<and>
     (\<forall>i. pde_present mem pgd i \<longrightarrow> table_of mem pgd i \<noteq> 0 \<and> table_of mem pgd i \<noteq> pgd) \<and>
     (\<forall>i j. pde_present mem pgd i \<and> pde_present mem pgd j \<and> table_of mem pgd i = table_of mem pgd j \<longrightarrow> i = j)"

lemma page_aligned_dvd: "page_aligned a \<longleftrightarrow> 4096 dvd a"
  using take_bit_eq_0_iff [of 12 a] by (simp only: page_aligned_low and_fff_eq) simp

lemma page_aligned_add_iff: "page_aligned b \<Longrightarrow> page_aligned (a + b) \<longleftrightarrow> page_aligned a"
  unfolding page_aligned_dvd by (rule dvd_add_left_iff)

lemma page_aligned_diff: "page_aligned a \<Longrightarrow> page_aligned b \<Longrightarrow> page_aligned (a - b)"
  using page_aligned_add_iff [of b "a - b"] by simp

lemma page_aligned_offset [simp]: "page_aligned KERNEL_VMA_TO_LMA_OFFSET"
  by (simp add: page_aligned_def)

lemma get_pd_vma_page: "get_pd_vma x = page_of x + KERNEL_VMA_TO_LMA_OFFSET"
  by (simp add: get_pd_vma_def page_of_def)

lemma page_aligned_get_pd_vma [simp]: "page_aligned (get_pd_vma x)"
  by (simp add: get_pd_vma_page page_aligned_add_iff)

lemma get_pd_lma_aligned: "page_aligned a \<Longrightarrow> get_pd_lma a = a - KERNEL_VMA_TO_LMA_OFFSET"
  using page_of_aligned [OF page_aligned_diff [of a KERNEL_VMA_TO_LMA_OFFSET]]
  by (simp add: get_pd_lma_def page_of_def)

text \<open>Writing one slot of a table that the directory names.\<close>

lemma walk_update:
  fixes x :: u32
  assumes ok: "tables_ok mem pgd" and pr: "pde_present mem pgd (pde_index v)"
  defines "t \<equiv> table_of mem pgd (pde_index v)"
  defines "mem' \<equiv> mem(slot t (pte_index v) := x)"
  shows "tables_ok mem' pgd" and "page_walk mem' pgd w =
    (if page_of w = page_of v then if x AND PAGE_FLAG_PRESENT = 0 then None else Some (x AND PAGE_ADDRESS_MASK, x AND 0xfff)
     else page_walk mem pgd w)"
proof -
  have al: "page_aligned pgd" "page_aligned t" "t \<noteq> pgd"
    using ok pr by (auto simp: tables_ok_def t_def table_of_def)
  have dir: "mem' (slot pgd i) = mem (slot pgd i)" if "unat i < 1024" for i
    using that al by (simp add: mem'_def slot_eq_iff)
  then have pde: "pde_present mem' pgd i = pde_present mem pgd i"
      "pde_present mem pgd i \<Longrightarrow> table_of mem' pgd i = table_of mem pgd i" for i
    by (auto simp: pde_present_def table_of_def)
  show "tables_ok mem' pgd" using ok unfolding tables_ok_def pde(1) by (metis pde(2))
  have entry: "mem' (slot (table_of mem pgd (pde_index w)) (pte_index w)) =
      (if page_of w = page_of v then x else mem (slot (table_of mem pgd (pde_index w)) (pte_index w)))"
    if "pde_present mem pgd (pde_index w)"
  proof -
    have "table_of mem pgd (pde_index w) = t \<longleftrightarrow> pde_index w = pde_index v"
      using that ok pr by (auto simp: tables_ok_def t_def)
    then show ?thesis using al
      by (simp add: mem'_def slot_eq_iff table_of_def same_page_iff)
  qed
  show "page_walk mem' pgd w =
    (if page_of w = page_of v then if x AND PAGE_FLAG_PRESENT = 0 then None else Some (x AND PAGE_ADDRESS_MASK, x AND 0xfff)
     else page_walk mem pgd w)"
    using entry pr dir [of "pde_index w"]
    by (auto simp: page_walk_def Let_def pde_present_def table_of_def same_page_iff)
qed

section \<open>The two pools\<close>

text \<open>The linker places both pools on page boundaries inside the address space.\<close>

definition symbols_ok :: "symbols \<Rightarrow> bool" where
  "symbols_ok L \<longleftrightarrow> page_aligned (sym_pd_pool L) \<and> pool_at (sym_pd_pool L) 0 PAGING_DIRECTORY_POOL_SIZE
     \<and> page_aligned (sym_pt_pool L) \<and> pool_at (sym_pt_pool L) 0 PAGING_TABLE_POOL_SIZE
     \<and> pool_pages (sym_pd_pool L) 0 PAGING_DIRECTORY_POOL_SIZE \<inter> pool_pages (sym_pt_pool L) 0 PAGING_TABLE_POOL_SIZE = {}"

definition pd_ok :: "symbols \<Rightarrow> paging \<Rightarrow> bool" where
  "pd_ok L pg \<longleftrightarrow> symbols_ok L \<and> pool_ok 0 PAGING_DIRECTORY_POOL_SIZE (pd_in_use pg)"

definition pt_ok :: "symbols \<Rightarrow> paging \<Rightarrow> bool" where
  "pt_ok L pg \<longleftrightarrow> symbols_ok L \<and> pool_ok 0 PAGING_TABLE_POOL_SIZE (pt_in_use pg)"

definition pd_used :: "symbols \<Rightarrow> paging \<Rightarrow> u32 set" where
  "pd_used L pg = pool_used (sym_pd_pool L) 0 (pd_in_use pg)"

definition pt_used :: "symbols \<Rightarrow> paging \<Rightarrow> u32 set" where
  "pt_used L pg = pool_used (sym_pt_pool L) 0 (pt_in_use pg)"

definition pd_pages :: "symbols \<Rightarrow> u32 set" where
  "pd_pages L = pool_pages (sym_pd_pool L) 0 PAGING_DIRECTORY_POOL_SIZE"

definition pt_pages :: "symbols \<Rightarrow> u32 set" where
  "pt_pages L = pool_pages (sym_pt_pool L) 0 PAGING_TABLE_POOL_SIZE"

lemmas pd_defs [inv_defs] = pd_ok_def pd_used_def pd_pages_def
lemmas pt_defs [inv_defs] = pt_ok_def pt_used_def pt_pages_def

lemma pool_index_page:
  assumes "pool_at base 0 n" and "i < n"
  shows "pool_index base n (pool_page base i) = Some i"
  unfolding pool_index_def find_Some_iff
  using assms by (intro exI [of _ i]) (auto simp: pool_page_inj [OF assms(1)])

lemma symbols_okD:
  "symbols_ok L \<Longrightarrow> pool_at (sym_pd_pool L) 0 PAGING_DIRECTORY_POOL_SIZE"
  "symbols_ok L \<Longrightarrow> pool_at (sym_pt_pool L) 0 PAGING_TABLE_POOL_SIZE"
  by (simp_all add: symbols_ok_def)

interpretation pd_pool: page_pool "pd_ok L" "alloc_pd L" "\<lambda>p s. Some (free_pd L p s)" "pd_used L" "pd_pages L" for L
proof
  fix pg :: paging
  assume ok: "pd_ok L pg"
  then have at: "pool_at (sym_pd_pool L) 0 PAGING_DIRECTORY_POOL_SIZE"
    and ok': "pool_ok 0 PAGING_DIRECTORY_POOL_SIZE (pd_in_use pg)" by (auto simp: pd_ok_def symbols_okD)
  note found = pool_scan_Some [OF at ok']
  show "0 \<notin> pd_pages L" by (simp add: pd_pages_def null_not_pool_page [OF at])
  show "pd_used L pg \<subseteq> pd_pages L" using pool_used_pages [OF ok'] by (simp add: pd_defs)
  show "pg' = pg \<and> pd_used L pg = pd_pages L" if "alloc_pd L pg = (0, pg')" for pg'
    using that found(3) pool_scan_None [OF ok']
    by (auto simp: alloc_pd_def pd_defs Let_def split: option.splits)
  show "pd_ok L pg' \<and> p \<in> pd_pages L \<and> p \<notin> pd_used L pg \<and> pd_used L pg' = insert p (pd_used L pg)"
    if r: "alloc_pd L pg = (p, pg')" "p \<noteq> 0" for p pg'
  proof -
    obtain k where k: "scan_free 0 (pd_in_use pg) = Some k" "p = pool_page (sym_pd_pool L) k"
        "pd_in_use pg' = (pd_in_use pg)[k := 1]"
      using r by (auto simp: alloc_pd_def Let_def split: option.splits)
    then show ?thesis using found [OF k(1)] ok by (simp add: pd_defs)
  qed
  show "\<exists>pg'. Some (free_pd L p pg) = Some (1, pg') \<and> pd_ok L pg' \<and> pd_used L pg' = pd_used L pg - {p}"
    if p: "p \<in> pd_used L pg" for p
  proof -
    obtain i where i: "p = pool_page (sym_pd_pool L) i" "i < PAGING_DIRECTORY_POOL_SIZE"
      using pool_usedE [OF p [unfolded pd_used_def] ok'] by metis
    then show ?thesis using ok pool_release [OF at ok' le0 i(2)]
      by (simp add: free_pd_def pool_index_page [OF at] pd_defs)
  qed
qed (simp add: pd_pages_def finite_pool_pages)

interpretation pt_pool: page_pool "pt_ok L" "alloc_pt L" "\<lambda>p s. Some (free_pt L p s)" "pt_used L" "pt_pages L" for L
proof
  fix pg :: paging
  assume ok: "pt_ok L pg"
  then have at: "pool_at (sym_pt_pool L) 0 PAGING_TABLE_POOL_SIZE"
    and ok': "pool_ok 0 PAGING_TABLE_POOL_SIZE (pt_in_use pg)" by (auto simp: pt_ok_def symbols_okD)
  note found = pool_scan_Some [OF at ok']
  show "0 \<notin> pt_pages L" by (simp add: pt_pages_def null_not_pool_page [OF at])
  show "pt_used L pg \<subseteq> pt_pages L" using pool_used_pages [OF ok'] by (simp add: pt_defs)
  show "pg' = pg \<and> pt_used L pg = pt_pages L" if "alloc_pt L pg = (0, pg')" for pg'
    using that found(3) pool_scan_None [OF ok']
    by (auto simp: alloc_pt_def pt_defs Let_def split: option.splits)
  show "pt_ok L pg' \<and> p \<in> pt_pages L \<and> p \<notin> pt_used L pg \<and> pt_used L pg' = insert p (pt_used L pg)"
    if r: "alloc_pt L pg = (p, pg')" "p \<noteq> 0" for p pg'
  proof -
    obtain k where k: "scan_free 0 (pt_in_use pg) = Some k" "p = pool_page (sym_pt_pool L) k"
        "pt_in_use pg' = (pt_in_use pg)[k := 1]"
      using r by (auto simp: alloc_pt_def Let_def split: option.splits)
    then show ?thesis using found [OF k(1)] ok by (simp add: pt_defs)
  qed
  show "\<exists>pg'. Some (free_pt L p pg) = Some (1, pg') \<and> pt_ok L pg' \<and> pt_used L pg' = pt_used L pg - {p}"
    if p: "p \<in> pt_used L pg" for p
  proof -
    obtain i where i: "p = pool_page (sym_pt_pool L) i" "i < PAGING_TABLE_POOL_SIZE"
      using pool_usedE [OF p [unfolded pt_used_def] ok'] by metis
    then show ?thesis using ok pool_release [OF at ok' le0 i(2)]
      by (simp add: free_pt_def pool_index_page [OF at] pt_defs)
  qed
qed (simp add: pt_pages_def finite_pool_pages)

lemma zero_page_slot:
  assumes "page_aligned a" and "page_aligned b" and "unat i < 1024"
  shows "zero_page a mem (slot b i) = (if b = a then 0 else mem (slot b i))"
proof -
  have *: "fold (\<lambda>i mem. mem(slot a (of_nat i) := 0)) [0..<n] mem (slot b i) =
      (if b = a \<and> unat i < n then 0 else mem (slot b i))" if "n \<le> 1024" for n
    using that
  proof (induction n)
    case (Suc n)
    have "slot b i = slot a (of_nat n) \<longleftrightarrow> b = a \<and> unat i = n"
      using assms Suc.prems by (subst slot_eq_iff) (auto simp: word_unat_eq_iff)
    then show ?case using Suc by (auto simp: less_Suc_eq)
  qed simp
  show ?thesis unfolding zero_page_def using * [of 1024] assms(3) by simp
qed

text \<open>A fresh table is empty, and no other page of kernel memory changes.\<close>

lemma page_aligned_pool_page: "page_aligned base \<Longrightarrow> page_aligned (pool_page base i)"
  unfolding pool_page_def add.commute [of base] page_aligned_dvd by simp

definition page_zeroed :: "u32 \<Rightarrow> paging \<Rightarrow> paging \<Rightarrow> bool" where
  "page_zeroed p pg pg' \<longleftrightarrow> page_aligned p
     \<and> (\<forall>b i. page_aligned b \<and> unat i < 1024 \<longrightarrow> kmem pg' (slot b i) = (if b = p then 0 else kmem pg (slot b i)))"

lemma alloc_pd_zeroed:
  "pd_ok L pg \<Longrightarrow> alloc_pd L pg = (p, pg') \<Longrightarrow> p \<noteq> 0 \<Longrightarrow> page_zeroed p pg pg' \<and> pt_in_use pg' = pt_in_use pg"
  by (auto simp: alloc_pd_def Let_def page_zeroed_def zero_page_slot pd_ok_def symbols_ok_def
      page_aligned_pool_page split: option.splits)

lemma alloc_pt_zeroed:
  "pt_ok L pg \<Longrightarrow> alloc_pt L pg = (p, pg') \<Longrightarrow> p \<noteq> 0 \<Longrightarrow> page_zeroed p pg pg' \<and> pd_in_use pg' = pd_in_use pg"
  by (auto simp: alloc_pt_def Let_def page_zeroed_def zero_page_slot pt_ok_def symbols_ok_def
      page_aligned_pool_page split: option.splits)

section \<open>Properties\<close>


text \<open>A directory with one empty table, and a symbol table for the examples.\<close>

definition one_table :: paging where
  "one_table = \<lparr>pd_in_use = replicate 16 0, pt_in_use = replicate 64 0,
     kmem = (\<lambda>a. if a = 0xc0100000 then 0x102007 else 0)\<rparr>"

lemma one_table_pde: "pde_present (kmem one_table) 0xc0100000 i \<longleftrightarrow> i = 0"
proof -
  have "slot 0xc0100000 i = 0xc0100000 \<longleftrightarrow> i = 0" if "unat i < 1024"
    using slot_eq_iff [of "0xc0100000" "0xc0100000" i 0] that by (simp add: page_aligned_def slot_def)
  then show ?thesis by (auto simp: one_table_def pde_present_def)
qed

lemma one_table_ok: "tables_ok (kmem one_table) 0xc0100000"
  by (simp add: tables_ok_def one_table_pde page_aligned_def table_of_def)
    (simp add: one_table_def slot_def get_pd_vma_def)




text \<open>
  A page directory or page table handed out by its pool is a page of the pool that was
  not in use, is entirely zero, and no other page of kernel memory changes; null is returned
  exactly when the pool is exhausted.
\<close>

theorem alloc_tables_correct:
  assumes "pd_ok L pg" and "pt_ok L pg" and "alloc_pd L pg = (p, pg')" and "alloc_pt L pg = (q, pg'')"
  shows "(p = 0 \<longleftrightarrow> pd_used L pg = pd_pages L) \<and>
      (if p = 0 then pg' = pg
       else p \<in> pd_pages L - pd_used L pg \<and> pd_used L pg' = insert p (pd_used L pg)
         \<and> pt_used L pg' = pt_used L pg \<and> page_zeroed p pg pg') \<and>
      (q = 0 \<longleftrightarrow> pt_used L pg = pt_pages L) \<and>
      (if q = 0 then pg'' = pg
       else q \<in> pt_pages L - pt_used L pg \<and> pt_used L pg'' = insert q (pt_used L pg)
         \<and> pd_used L pg'' = pd_used L pg \<and> page_zeroed q pg pg'')"
proof -
  have "(p = 0 \<longleftrightarrow> pd_used L pg = pd_pages L) \<and>
      (if p = 0 then pg' = pg
       else p \<in> pd_pages L - pd_used L pg \<and> pd_used L pg' = insert p (pd_used L pg)
         \<and> pt_used L pg' = pt_used L pg \<and> page_zeroed p pg pg')"
    using pd_pool.alloc_succeeds_iff [OF assms(1)] pd_pool.alloc_null [OF assms(1), of pg']
      pd_pool.alloc_page [OF assms(1,3)] alloc_pd_zeroed [OF assms(1,3)]
    by (auto simp: assms(3) pt_used_def)
  moreover have "(q = 0 \<longleftrightarrow> pt_used L pg = pt_pages L) \<and>
      (if q = 0 then pg'' = pg
       else q \<in> pt_pages L - pt_used L pg \<and> pt_used L pg'' = insert q (pt_used L pg)
         \<and> pd_used L pg'' = pd_used L pg \<and> page_zeroed q pg pg'')"
    using pt_pool.alloc_succeeds_iff [OF assms(2)] pt_pool.alloc_null [OF assms(2), of pg'']
      pt_pool.alloc_page [OF assms(2,4)] alloc_pt_zeroed [OF assms(2,4)]
    by (auto simp: assms(4) pd_used_def)
  ultimately show ?thesis by blast
qed

text \<open>A symbol table for the examples.\<close>

definition sample_symbols :: symbols where
  "sample_symbols = \<lparr>sym_kernel_heap = 0xc0200000, sym_pd_pool = 0xc0110000, sym_pt_pool = 0xc0130000,
     sym_idle_task = 0xc0180000, sym_idle_task_stack = 0xc0181000, sym_idle_task_entry = 0xc0001000,
     sym_enter_user_task = 0xc0001100, sym_dma_buffer = 0xc0190000, sym_primary_prdt = 0xc0192000,
     sym_gdt = 0xc0193000, sym_idt = 0xc0194000, sym_tss = 0xc0195000, sym_kernel_stack_top = 0xc01a0000,
     sym_irq = (\<lambda>n. 0xc0002000 + 16 * of_nat n), sym_exception = (\<lambda>n. 0xc0003000 + 16 * of_nat n),
     sym_syscall_entry = 0xc0004000, sym_switch_return = 0xc0005000\<rparr>"

lemma sample_symbols_ok: "symbols_ok sample_symbols"
proof -
  have at: "pool_at 0xc0110000 0 16" "pool_at 0xc0130000 0 64" by (simp_all add: pool_at_def)
  have "unat a < unat b"
    if "a \<in> pool_pages 0xc0110000 0 16" "b \<in> pool_pages 0xc0130000 0 64" for a b
    using that by (auto simp: pool_pages_def unat_pool_page [OF at(1)] unat_pool_page [OF at(2)])
  then have "pool_pages 0xc0110000 0 16 \<inter> pool_pages 0xc0130000 0 64 = {}"
    by (metis disjoint_iff less_irrefl)
  then show ?thesis using at by (simp add: symbols_ok_def sample_symbols_def page_aligned_def)
qed

theorem alloc_tables_correct_witness:
  "pd_ok sample_symbols one_table \<and> pt_ok sample_symbols one_table
   \<and> fst (alloc_pd sample_symbols one_table) \<noteq> 0 \<and> fst (alloc_pt sample_symbols one_table) \<noteq> 0"
proof -
  have ok: "pd_ok sample_symbols one_table" "pt_ok sample_symbols one_table"
    by (simp_all add: pd_ok_def pt_ok_def sample_symbols_ok pool_ok_def one_table_def)
  have "pd_used sample_symbols one_table = {}" "pt_used sample_symbols one_table = {}"
    by (simp_all add: pd_used_def pt_used_def pool_used_def one_table_def)
  moreover have "pd_pages sample_symbols \<noteq> {}" "pt_pages sample_symbols \<noteq> {}"
    by (simp_all add: pd_pages_def pt_pages_def pool_pages_def)
  ultimately show ?thesis
    using alloc_tables_correct [OF ok prod.collapse [symmetric] prod.collapse [symmetric]] ok by simp
qed

text \<open>
  Physical and virtual addresses of tables convert back and forth: for page-aligned
  addresses \<open>get_pd_lma\<close> and \<open>get_pd_vma\<close> are inverse to each other, also when the
  entry carries flags.
\<close>

theorem pd_address_roundtrip:
  assumes "page_aligned a" and "unat flags < 4096"
  shows "get_pd_vma (get_pd_lma a OR flags) = a \<and> get_pd_lma (get_pd_vma a) = a"
proof -
  have al: "page_aligned (get_pd_lma a)"
    using assms(1) by (simp add: get_pd_lma_aligned page_aligned_diff)
  have "get_pd_vma (get_pd_lma a OR flags) = get_pd_lma a + KERNEL_VMA_TO_LMA_OFFSET"
    unfolding get_pd_vma_def entry_parts(1) [OF al assms(2)] ..
  moreover have "get_pd_lma (get_pd_vma a) = page_of a"
    using get_pd_lma_aligned [OF page_aligned_get_pd_vma, of a] by (simp add: get_pd_vma_page)
  ultimately show ?thesis using assms(1) by (simp add: get_pd_lma_aligned page_of_aligned)
qed

theorem pd_address_roundtrip_witness:
  "page_aligned 0xc0110000 \<and> get_pd_vma (get_pd_lma 0xc0110000 OR 7) = 0xc0110000"
  using pd_address_roundtrip [of "0xc0110000" 7] by (simp add: page_aligned_def)

text \<open>
  The null test of \<open>map_page\<close> does not catch an absent directory entry: with an entry
  of zero it returns 1 all the same, having stored the new table entry into the first page
  of physical memory (kernel virtual address 0xc0000000), and the page stays unmapped.
\<close>

theorem map_page_absent_entry:
  assumes "page_aligned pgd" and "pgd \<noteq> 0xc0000000" and "kmem pg (slot pgd (pde_index v)) = 0"
    and "flags AND PAGE_FLAG_PRESENT \<noteq> 0"
  shows "\<exists>pg' m'. map_page pgd v frame flags pg m = (1, pg', m')
    \<and> kmem pg' = (kmem pg)(slot 0xc0000000 (pte_index v) := frame OR flags)
    \<and> page_walk (kmem pg') pgd v = None"
proof -
  have "slot pgd (pde_index v) \<noteq> slot 0xc0000000 (pte_index v)"
    using assms(1,2) by (simp add: slot_eq_iff)
  then show ?thesis
    using assms(3,4) by (simp add: map_page_def Let_def get_pd_vma_def page_walk_def)
qed

theorem map_page_absent_entry_witness:
  "\<exists>pg m. map_page 0xc0100000 0x400000 0x400000 7 one_table boot_machine = (1, pg, m)
     \<and> page_walk (kmem pg) 0xc0100000 0x400000 = None"
  using map_page_absent_entry [of "0xc0100000" one_table "0x400000" 7 "0x400000" boot_machine]
  by (auto simp: page_aligned_def one_table_def slot_def pde_index_def)

end
