(* ===== verification/Interrupts.thy ===== *)
theory Interrupts
  imports Gdt Paging
begin

text \<open>
  The interrupt descriptor table, the two interrupt controllers and the handler tables:
  \<^verbatim>\<open>kernel/interrupts.c\<close>, \<^verbatim>\<open>kernel/exceptions.c\<close>, and the
  parts of \<^verbatim>\<open>kernel/timer.c\<close> that set the timer up. Handlers are named by a
  datatype, because the tables hold pointers to functions of later theories.
\<close>

section \<open>Model\<close>

abbreviation MASTER_PIC_COMMAND_REGISTER :: u16 where "MASTER_PIC_COMMAND_REGISTER \<equiv> 0x20"
abbreviation MASTER_PIC_DATA_REGISTER :: u16 where "MASTER_PIC_DATA_REGISTER \<equiv> 0x21"
abbreviation SLAVE_PIC_COMMAND_REGISTER :: u16 where "SLAVE_PIC_COMMAND_REGISTER \<equiv> 0xa0"
abbreviation SLAVE_PIC_DATA_REGISTER :: u16 where "SLAVE_PIC_DATA_REGISTER \<equiv> 0xa1"
abbreviation IDT_ENTRIES :: nat where "IDT_ENTRIES \<equiv> 256"

record idt_entry =
  offset_low :: u16
  selector :: u16
  idt_reserved :: u8
  type_attr :: u8
  offset_high :: u16

datatype irq_handler = Timer_irq_handler | Keyboard_irq_handler | Ata_irq_handler
datatype exception_handler = Page_fault_handler

record interrupts =
  idt :: "idt_entry list"
  irq_handlers :: "irq_handler option list"
  exception_handlers :: "exception_handler option list"

definition null_gate :: idt_entry where
  "null_gate = \<lparr>offset_low = 0, selector = 0, idt_reserved = 0, type_attr = 0, offset_high = 0\<rparr>"

text \<open>The statically initialised tables.\<close>

definition boot_interrupts :: interrupts where
  "boot_interrupts = \<lparr>idt = replicate IDT_ENTRIES null_gate, irq_handlers = replicate 16 None,
     exception_handlers = replicate 32 None\<rparr>"

definition pic_remap :: "env \<Rightarrow> machine \<Rightarrow> machine" where
  "pic_remap E m =
     (let (a1, m) = inb E MASTER_PIC_DATA_REGISTER m;
          (a2, m) = inb E SLAVE_PIC_DATA_REGISTER m;
          m = outb MASTER_PIC_COMMAND_REGISTER 0x11 m;
          m = outb SLAVE_PIC_COMMAND_REGISTER 0x11 m;
          m = outb MASTER_PIC_DATA_REGISTER 0x20 m;
          m = outb SLAVE_PIC_DATA_REGISTER 0x28 m;
          m = outb MASTER_PIC_DATA_REGISTER 0x4 m;
          m = outb SLAVE_PIC_DATA_REGISTER 0x2 m;
          m = outb MASTER_PIC_DATA_REGISTER 0x1 m;
          m = outb SLAVE_PIC_DATA_REGISTER 0x1 m;
          m = outb MASTER_PIC_DATA_REGISTER a1 m;
          m = outb SLAVE_PIC_DATA_REGISTER a2 m
      in m)"

definition init_idt :: "interrupts \<Rightarrow> interrupts" where
  "init_idt t = t\<lparr>idt := fold (\<lambda>i d. d[i := null_gate]) [0..<IDT_ENTRIES] (idt t)\<rparr>"

definition pic_port :: "u8 \<Rightarrow> u16" where
  "pic_port irq = (if irq < 8 then MASTER_PIC_DATA_REGISTER else SLAVE_PIC_DATA_REGISTER)"

definition mask_irq :: "env \<Rightarrow> u8 \<Rightarrow> machine \<Rightarrow> machine" where
  "mask_irq E irq m =
     (let port = pic_port irq; (v, m) = inb E port m
      in outb port (v OR push_bit (unat (irq AND 0x7)) 1) m)"

definition unmask_irq :: "env \<Rightarrow> u8 \<Rightarrow> machine \<Rightarrow> machine" where
  "unmask_irq E irq m =
     (let port = pic_port irq; (v, m) = inb E port m
      in outb port (v AND NOT (push_bit (unat (irq AND 0x7)) 1)) m)"

definition pic_send_eoi :: "u8 \<Rightarrow> machine \<Rightarrow> machine" where
  "pic_send_eoi irq m =
     (let m = (if irq \<ge> 8 then outb SLAVE_PIC_COMMAND_REGISTER 0x20 m else m)
      in outb MASTER_PIC_COMMAND_REGISTER 0x20 m)"

text \<open>The index is a byte and the table has 256 entries, so every index is inside it.\<close>

definition idt_set_gate :: "u8 \<Rightarrow> u32 \<Rightarrow> u8 \<Rightarrow> interrupts \<Rightarrow> interrupts" where
  "idt_set_gate idx handler interrupts_gate_flags t =
     t\<lparr>idt := (idt t)[unat idx := \<lparr>offset_low = ucast handler, selector = GDT_KERNEL_CODE_SELECTOR,
        idt_reserved = 0, type_attr = interrupts_gate_flags, offset_high = ucast (drop_bit 16 handler)\<rparr>]\<rparr>"

definition install_irq_gates :: "symbols \<Rightarrow> interrupts \<Rightarrow> interrupts" where
  "install_irq_gates L t = fold (\<lambda>n. idt_set_gate (32 + of_nat n) (sym_irq L n) 0x8e) [0..<16] t"

definition lock_irqs :: "env \<Rightarrow> machine \<Rightarrow> machine" where
  "lock_irqs E m = fold (\<lambda>n. mask_irq E (of_nat n)) [0..<16] m"

definition lidt :: "u32 \<Rightarrow> u16 \<Rightarrow> machine \<Rightarrow> machine" where
  "lidt base sz m = log_event (Lidt (sz - 1) base) m"

text \<open>Bit 9 of the flags register enables interrupts.\<close>

definition enable_interrupts :: "machine \<Rightarrow> machine" where
  "enable_interrupts m = (log_event Sti m)\<lparr>eflags := eflags m OR 0x200\<rparr>"

definition init_interrupts :: "env \<Rightarrow> symbols \<Rightarrow> interrupts \<Rightarrow> machine \<Rightarrow> u8 \<times> interrupts \<times> machine" where
  "init_interrupts E L t m =
     (let m = print ''Setting up CPU interrupts ... '' m;
          m = pic_remap E m;
          t = init_idt t;
          t = install_irq_gates L t;
          m = lock_irqs E m;
          m = lidt (sym_idt L) (8 * of_nat IDT_ENTRIES) m;
          m = enable_interrupts m;
          m = println ''Done'' m
      in (1, t, m))"

definition register_irq_handler :: "u8 \<Rightarrow> irq_handler \<Rightarrow> interrupts \<Rightarrow> interrupts" where
  "register_irq_handler irq handler t =
     (if irq < 16 then t\<lparr>irq_handlers := (irq_handlers t)[unat irq := Some handler]\<rparr> else t)"

definition irq_save :: "machine \<Rightarrow> u32 \<times> machine" where
  "irq_save m = (eflags m, (log_event Cli m)\<lparr>eflags := eflags m AND NOT 0x200\<rparr>)"

definition irq_restore :: "u32 \<Rightarrow> machine \<Rightarrow> machine" where
  "irq_restore flags m = m\<lparr>eflags := flags\<rparr>"

definition install_exception_gates :: "symbols \<Rightarrow> interrupts \<Rightarrow> interrupts" where
  "install_exception_gates L t = fold (\<lambda>n. idt_set_gate (of_nat n) (sym_exception L n) 0x8e) [0..<32] t"

definition init_exceptions :: "symbols \<Rightarrow> interrupts \<Rightarrow> machine \<Rightarrow> u8 \<times> interrupts \<times> machine" where
  "init_exceptions L t m =
     (let m = print ''Setting up CPU exceptions ... '' m;
          t = install_exception_gates L t;
          m = println ''Done'' m
      in (1, t, m))"

definition register_exception_handler :: "u8 \<Rightarrow> exception_handler \<Rightarrow> interrupts \<Rightarrow> interrupts" where
  "register_exception_handler exc handler t =
     (if exc < 32 then t\<lparr>exception_handlers := (exception_handlers t)[unat exc := Some handler]\<rparr> else t)"

section \<open>Timer\<close>

abbreviation PIT_CONTROL_REGISTER :: u16 where "PIT_CONTROL_REGISTER \<equiv> 0x43"
abbreviation PIT_CHANNEL_0_DATA_REGISTER :: u16 where "PIT_CHANNEL_0_DATA_REGISTER \<equiv> 0x40"
abbreviation PIT_BASE_FREQUENCY :: u32 where "PIT_BASE_FREQUENCY \<equiv> 1193180"
abbreviation TIMER_HZ :: u32 where "TIMER_HZ \<equiv> 100"

definition init_timer :: "env \<Rightarrow> interrupts \<Rightarrow> machine \<Rightarrow> u8 \<times> interrupts \<times> machine" where
  "init_timer E t m =
     (let m = print ''Initializing PIT timer ... '' m;
          ticks_per_int = PIT_BASE_FREQUENCY div TIMER_HZ;
          m = outb PIT_CONTROL_REGISTER 0x36 m;
          m = outb PIT_CHANNEL_0_DATA_REGISTER (ucast ticks_per_int) m;
          m = outb PIT_CHANNEL_0_DATA_REGISTER (ucast (drop_bit 8 ticks_per_int)) m;
          t = register_irq_handler 0 Timer_irq_handler t;
          m = unmask_irq E 0 m;
          m = println ''Done'' m
      in (1, t, m))"

definition timer_irq_handler :: "u32 \<Rightarrow> u32" where
  "timer_irq_handler timer_ticks = timer_ticks + 1"

text \<open>
  Code that waits for time to pass reads the counter while interrupts advance it, so each
  read is a fresh answer of the environment.
\<close>

definition get_current_ticks :: "env \<Rightarrow> machine \<Rightarrow> u32 \<times> machine" where
  "get_current_ticks E m = (let v = env_ticks E (io_log m) in (v, log_event (Ticks_read v) m))"

section \<open>Gates\<close>

text \<open>The address that a gate jumps to; whether user code may call it.\<close>

definition gate_handler :: "idt_entry \<Rightarrow> u32" where
  "gate_handler e = ucast (offset_low e) OR push_bit 16 (ucast (offset_high e))"

definition gate_present :: "idt_entry \<Rightarrow> bool" where
  "gate_present e \<longleftrightarrow> bit (type_attr e) 7"

definition gate_dpl :: "idt_entry \<Rightarrow> u8" where
  "gate_dpl e = drop_bit 5 (type_attr e) AND 3"

definition gate :: "u32 \<Rightarrow> u8 \<Rightarrow> idt_entry" where
  "gate handler flags = \<lparr>offset_low = ucast handler, selector = GDT_KERNEL_CODE_SELECTOR,
     idt_reserved = 0, type_attr = flags, offset_high = ucast (drop_bit 16 handler)\<rparr>"

lemma idt_set_gate_gate: "idt_set_gate i h f t = t\<lparr>idt := (idt t)[unat i := gate h f]\<rparr>"
  by (simp add: idt_set_gate_def gate_def)

lemma offset_bits: "(ucast (ucast (h :: u32) :: u16) :: u32) OR push_bit 16 (ucast (ucast (drop_bit 16 h) :: u16)) = h"
proof (rule bit_word_eqI)
  fix n
  assume "n < LENGTH(32)"
  then consider "n < 16" | "16 \<le> n" "n < 32" by force
  then show "bit ((ucast (ucast h :: u16) :: u32) OR push_bit 16 (ucast (ucast (drop_bit 16 h) :: u16))) n = bit h n"
    by cases (auto simp: bit_simps)
qed

lemma gate_fields [simp]:
  "gate_handler (gate h f) = h" "gate_present (gate h f) = bit f 7" "gate_dpl (gate h f) = drop_bit 5 f AND 3"
  "selector (gate h f) = GDT_KERNEL_CODE_SELECTOR"
  by (simp_all add: gate_def gate_handler_def offset_bits gate_present_def gate_dpl_def)

lemma gate_present_null [simp]: "\<not> gate_present null_gate"
  by (simp add: null_gate_def gate_present_def)

lemma unat_gate_index: "n < 256 \<Longrightarrow> unat (of_nat n :: u8) = n"
  by (simp add: unat_of_nat take_bit_eq_mod)

lemma fold_set_gates:
  assumes "b + k \<le> 256" and "length (idt t) = IDT_ENTRIES"
  shows "length (idt (fold (\<lambda>n. idt_set_gate (of_nat (b + n)) (h n) f) [0..<k] t)) = IDT_ENTRIES"
    "i < IDT_ENTRIES \<Longrightarrow> idt (fold (\<lambda>n. idt_set_gate (of_nat (b + n)) (h n) f) [0..<k] t) ! i =
       (if b \<le> i \<and> i < b + k then gate (h (i - b)) f else idt t ! i)"
    "irq_handlers (fold (\<lambda>n. idt_set_gate (of_nat (b + n)) (h n) f) [0..<k] t) = irq_handlers t"
    "exception_handlers (fold (\<lambda>n. idt_set_gate (of_nat (b + n)) (h n) f) [0..<k] t) = exception_handlers t"
  using assms
  by (induction k) (auto simp: idt_set_gate_gate unat_gate_index nth_list_update simp del: of_nat_add)

lemma install_gates_nth:
  assumes "length (idt t) = IDT_ENTRIES"
  shows "length (idt (install_irq_gates L t)) = IDT_ENTRIES"
    "length (idt (install_exception_gates L t)) = IDT_ENTRIES"
    "i < IDT_ENTRIES \<Longrightarrow> idt (install_irq_gates L t) ! i =
       (if 32 \<le> i \<and> i < 48 then gate (sym_irq L (i - 32)) 0x8e else idt t ! i)"
    "i < IDT_ENTRIES \<Longrightarrow> idt (install_exception_gates L t) ! i =
       (if i < 32 then gate (sym_exception L i) 0x8e else idt t ! i)"
  using fold_set_gates [where b = 32 and k = 16 and t = t and h = "sym_irq L" and f = "0x8e"]
    fold_set_gates [where b = 0 and k = 32 and t = t and h = "sym_exception L" and f = "0x8e"] assms
  by (simp_all add: install_irq_gates_def install_exception_gates_def del: upt_rec_numeral)

lemma init_idt_nth:
  assumes "length (idt t) = IDT_ENTRIES"
  shows "length (idt (init_idt t)) = IDT_ENTRIES" "i < IDT_ENTRIES \<Longrightarrow> idt (init_idt t) ! i = null_gate"
proof -
  have "length (fold (\<lambda>i d. d[i := null_gate]) [0..<n] d) = length d" for n d
    by (induction n) simp_all
  moreover have "i < length d \<Longrightarrow> fold (\<lambda>i d. d[i := null_gate]) [0..<n] d ! i = (if i < n then null_gate else d ! i)" for n d
    using calculation by (induction n) (auto simp: nth_list_update less_Suc_eq)
  ultimately show "length (idt (init_idt t)) = IDT_ENTRIES" "i < IDT_ENTRIES \<Longrightarrow> idt (init_idt t) ! i = null_gate"
    using assms by (simp_all add: init_idt_def del: upt_rec_numeral)
qed

section \<open>Interrupt masks\<close>

text \<open>
  The contract of the two interrupt controllers that the code relies on: the mask register
  reads back as it was last written.
\<close>

definition pic_env :: "env \<Rightarrow> bool" where
  "pic_env E \<longleftrightarrow> (\<forall>log v. last_out MASTER_PIC_DATA_REGISTER log = Some v \<longrightarrow> env_inb E log MASTER_PIC_DATA_REGISTER = v)
     \<and> (\<forall>log v. last_out SLAVE_PIC_DATA_REGISTER log = Some v \<longrightarrow> env_inb E log SLAVE_PIC_DATA_REGISTER = v)"

abbreviation master_mask :: "machine \<Rightarrow> u8 option" where
  "master_mask m \<equiv> last_out MASTER_PIC_DATA_REGISTER (io_log m)"

abbreviation slave_mask :: "machine \<Rightarrow> u8 option" where
  "slave_mask m \<equiv> last_out SLAVE_PIC_DATA_REGISTER (io_log m)"

text \<open>
  A line is delivered to the processor when its mask bit is clear; the lines of the slave
  reach the processor through line 2 of the master.
\<close>

definition irq_delivered :: "nat \<Rightarrow> machine \<Rightarrow> bool" where
  "irq_delivered n m \<longleftrightarrow>
     (if n < 8 then \<exists>v. master_mask m = Some v \<and> \<not> bit v n
      else (\<exists>v. slave_mask m = Some v \<and> \<not> bit v (n - 8)) \<and> (\<exists>v. master_mask m = Some v \<and> \<not> bit v 2))"

lemma last_out_print [simp]:
  assumes "p \<noteq> 0x3d4" and "p \<noteq> 0x3d5"
  shows "last_out p (io_log (print s m)) = last_out p (io_log m)"
    "last_out p (io_log (println s m)) = last_out p (io_log m)"
proof -
  have "last_out p (io_log (snd (console_putc c m))) = last_out p (io_log m)" for c m
    using assms by (simp add: console_putc_def set_console_cursor_pos_def Let_def putc_wrap_def
        putc_cell_def console_scroll_def)
  then have "last_out p (io_log (snd (console_puts s m))) = last_out p (io_log m)" for s m
    by (induction s arbitrary: m) (auto simp: split_def Let_def)
  then show "last_out p (io_log (print s m)) = last_out p (io_log m)"
    "last_out p (io_log (println s m)) = last_out p (io_log m)" by (simp_all add: print_def println_def)
qed

lemma mask_irq_masks:
  assumes "pic_env E"
  shows "irq < 8 \<Longrightarrow> master_mask m = Some v \<Longrightarrow>
      master_mask (mask_irq E irq m) = Some (v OR push_bit (unat (irq AND 7)) 1)
      \<and> master_mask (unmask_irq E irq m) = Some (v AND NOT (push_bit (unat (irq AND 7)) 1))
      \<and> slave_mask (mask_irq E irq m) = slave_mask m \<and> slave_mask (unmask_irq E irq m) = slave_mask m"
    "\<not> irq < 8 \<Longrightarrow> slave_mask m = Some v \<Longrightarrow>
      slave_mask (mask_irq E irq m) = Some (v OR push_bit (unat (irq AND 7)) 1)
      \<and> slave_mask (unmask_irq E irq m) = Some (v AND NOT (push_bit (unat (irq AND 7)) 1))
      \<and> master_mask (mask_irq E irq m) = master_mask m \<and> master_mask (unmask_irq E irq m) = master_mask m"
  using assms by (auto simp: mask_irq_def unmask_irq_def pic_port_def pic_env_def inb_def outb_def Let_def)

lemma all_ones_u8: "(\<forall>i < 8. bit (v :: u8) i) \<Longrightarrow> v = 0xff"
proof -
  assume "\<forall>i < 8. bit v i"
  then have "v = - 1" by (intro bit_word_eqI) (simp add: bit_simps)
  then show ?thesis by simp
qed

lemma lock_irqs_masks:
  assumes "pic_env E" and "master_mask m = Some a" and "slave_mask m = Some b"
  shows "master_mask (lock_irqs E m) = Some 0xff" "slave_mask (lock_irqs E m) = Some 0xff"
proof -
  have "\<exists>v w. master_mask (fold (\<lambda>n. mask_irq E (of_nat n)) [0..<k] m) = Some v
      \<and> slave_mask (fold (\<lambda>n. mask_irq E (of_nat n)) [0..<k] m) = Some w
      \<and> (\<forall>i < min k 8. bit v i) \<and> (\<forall>i < k - 8. bit w i)" if "k \<le> 16" for k
    using that
  proof (induction k)
    case 0
    then show ?case using assms by simp
  next
    case (Suc k)
    let ?m = "fold (\<lambda>n. mask_irq E (of_nat n)) [0..<k] m" and ?k = "of_nat k :: u8"
    obtain v w where IH: "master_mask ?m = Some v" "slave_mask ?m = Some w"
        "\<forall>i < min k 8. bit v i" "\<forall>i < k - 8. bit w i"
      using Suc by auto
    have k: "unat ?k = k" using Suc.prems by (simp add: unat_gate_index)
    have "(7 :: u8) = mask 3" by (simp add: mask_eq_exp_minus_1)
    then have seven: "unat (?k AND 7) = k mod 8"
      by (simp only: take_bit_eq_mask [symmetric]) (simp add: take_bit_eq_mod unat_mod k)
    show ?case
    proof (cases "k < 8")
      case True
      then have "?k < 8" by (simp add: word_less_nat_alt k)
      with mask_irq_masks(1) [OF assms(1) this IH(1)] True IH show ?thesis
        by (auto simp: seven bit_simps less_Suc_eq)
    next
      case False
      then have "\<not> ?k < 8" "k mod 8 = k - 8" using Suc.prems by (simp_all add: word_less_nat_alt k mod_if)
      moreover have "i < k - 8 \<or> i = k - 8" if "i < k - 7" for i using False that by linarith
      ultimately show ?thesis using mask_irq_masks(2) [OF assms(1) _ IH(2), of ?k] False IH
        by (auto simp: seven bit_simps min_def)
    qed
  qed
  from this [of 16] show "master_mask (lock_irqs E m) = Some 0xff" "slave_mask (lock_irqs E m) = Some 0xff"
    by (auto simp: lock_irqs_def all_ones_u8 simp del: upt_rec_numeral)
qed

lemma pic_remap_masks: "\<exists>a b. master_mask (pic_remap E m) = Some a \<and> slave_mask (pic_remap E m) = Some b"
  by (simp add: pic_remap_def split_def Let_def)

lemma init_interrupts_masks:
  assumes "pic_env E" and "init_interrupts E L t m = (r, t', m')"
  shows "master_mask m' = Some 0xff" "slave_mask m' = Some 0xff"
proof -
  obtain a b where "master_mask (pic_remap E (print ''Setting up CPU interrupts ... '' m)) = Some a"
      "slave_mask (pic_remap E (print ''Setting up CPU interrupts ... '' m)) = Some b"
    using pic_remap_masks by blast
  from lock_irqs_masks [OF assms(1) this] assms(2)
  show "master_mask m' = Some 0xff" "slave_mask m' = Some 0xff"
    by (auto simp: init_interrupts_def Let_def lidt_def enable_interrupts_def log_event_def)
qed

section \<open>Properties\<close>

text \<open>
  C38. \<open>init_interrupts\<close> leaves every interrupt line masked, and \<open>unmask_irq\<close> then
  clears the one mask bit of its line and no other. A line of the slave controller (8 to 15)
  is still not delivered after its own bit is cleared, because line 2 of the master, through
  which it passes, stays masked; a line of the master is.
\<close>

theorem unmask_after_init:
  assumes "pic_env E" and "init_interrupts E L t m = (r, t', m')" and "unat irq < 16"
  shows "(\<forall>n < 16. \<not> irq_delivered n m')
    \<and> (\<forall>n < 16. irq_delivered n (unmask_irq E irq m') \<longleftrightarrow> n = unat irq \<and> n < 8)"
proof -
  note masks = init_interrupts_masks [OF assms(1,2)]
  have ff: "bit (0xff :: int) i \<longleftrightarrow> i < 8" for i
  proof -
    have "(0xff :: int) = mask 8" by (simp add: mask_eq_exp_minus_1)
    then show ?thesis by (simp only: bit_mask_iff) simp
  qed
  have "(7 :: u8) = mask 3" by (simp add: mask_eq_exp_minus_1)
  then have seven: "unat (irq AND 7) = unat irq mod 8"
    by (simp only: take_bit_eq_mask [symmetric]) (simp add: take_bit_eq_mod unat_mod)
  have 1: "\<forall>n < 16. \<not> irq_delivered n m'" using masks by (auto simp: irq_delivered_def ff bit_simps)
  show ?thesis
  proof (cases "irq < 8")
    case True
    then have "unat irq < 8" by (simp add: word_less_nat_alt)
    with 1 masks mask_irq_masks(1) [OF assms(1) True masks(1)] show ?thesis
      by (auto simp: irq_delivered_def ff seven bit_simps)
  next
    case False
    then have "8 \<le> unat irq" by (simp add: word_less_nat_alt)
    with 1 masks mask_irq_masks(2) [OF assms(1) False masks(2)] assms(3) show ?thesis
      by (auto simp: irq_delivered_def ff bit_simps)
  qed
qed

text \<open>An environment in which every port reads as it was last written.\<close>

definition echo_env :: env where
  "echo_env = \<lparr>env_inb = (\<lambda>log p. case last_out p log of Some v \<Rightarrow> v | None \<Rightarrow> 0), env_inw = (\<lambda>_ _. 0),
     env_inl = (\<lambda>_ _. 0), env_ticks = (\<lambda>_. 0), env_dma = (\<lambda>_. [])\<rparr>"

theorem unmask_after_init_witness:
  "pic_env echo_env \<and>
   (let m = snd (snd (init_interrupts echo_env sample_symbols boot_interrupts boot_machine))
    in irq_delivered 1 (unmask_irq echo_env 1 m) \<and> \<not> irq_delivered 14 (unmask_irq echo_env 14 m))"
proof -
  have E: "pic_env echo_env" by (simp add: pic_env_def echo_env_def)
  obtain r t m where *: "init_interrupts echo_env sample_symbols boot_interrupts boot_machine = (r, t, m)"
    using prod_cases3 by blast
  show ?thesis
    using unmask_after_init [OF E *, of 1] unmask_after_init [OF E *, of 14] E * by simp
qed

text \<open>
  C39. The interrupt gates of the processor after \<open>init_interrupts\<close> and
  \<open>init_exceptions\<close>: vectors 0 to 31 lead to their exception stubs and 32 to 47 to the
  stubs of lines 0 to 15, all through the kernel code segment and not callable from user
  mode; every other vector is absent.
\<close>

theorem gates_after_init:
  assumes "length (idt t) = IDT_ENTRIES"
    and "init_interrupts E L t m = (r, t1, m1)" and "init_exceptions L t1 m1 = (r', t2, m2)"
  shows "length (idt t2) = IDT_ENTRIES \<and> (\<forall>v < IDT_ENTRIES. let e = idt t2 ! v in
     if v < 48 then gate_present e \<and> gate_dpl e = 0 \<and> selector e = GDT_KERNEL_CODE_SELECTOR
       \<and> gate_handler e = (if v < 32 then sym_exception L v else sym_irq L (v - 32))
     else \<not> gate_present e)"
proof -
  note lens = init_idt_nth(1) [OF assms(1)] install_gates_nth(1) [OF init_idt_nth(1) [OF assms(1)]]
  have t2: "t2 = install_exception_gates L (install_irq_gates L (init_idt t))"
    using assms(2,3) by (auto simp: init_interrupts_def init_exceptions_def Let_def)
  have "bit (0x8e :: u8) 7" by simp
  then show ?thesis unfolding t2
    by (auto simp: Let_def init_idt_nth [OF assms(1)] install_gates_nth [OF lens(1)]
        install_gates_nth [OF lens(2)])
qed

theorem gates_after_init_witness:
  "gate_handler (idt (install_exception_gates sample_symbols (install_irq_gates sample_symbols (init_idt boot_interrupts))) ! 33)
     = 0xc0002010"
proof -
  have len: "length (idt boot_interrupts) = IDT_ENTRIES" by (simp add: boot_interrupts_def)
  obtain r t m where 1: "init_interrupts echo_env sample_symbols boot_interrupts boot_machine = (r, t, m)"
    using prod_cases3 by blast
  obtain r' t' m' where 2: "init_exceptions sample_symbols t m = (r', t', m')" using prod_cases3 by blast
  have "t' = install_exception_gates sample_symbols (install_irq_gates sample_symbols (init_idt boot_interrupts))"
    using 1 2 by (auto simp: init_interrupts_def init_exceptions_def Let_def)
  with gates_after_init [OF len 1 2] show ?thesis
    by (auto simp: Let_def sample_symbols_def dest: spec [of _ 33])
qed

end
