(* ===== verification/Pci.thy ===== *)
theory Pci
  imports Console
begin

text \<open>
  Discovery of PCI devices, \<^verbatim>\<open>kernel/pci.c\<close> and \<^verbatim>\<open>include/kernel/pci.h\<close>. The
  configuration space is reached through an address port and a data port; the contract of
  that mechanism is \<open>pci_env\<close>: reading the data port after writing an address gives the
  configuration word at that address.
\<close>

section \<open>Model\<close>

abbreviation PCI_CFG_ADDR_REGISTER :: u16 where "PCI_CFG_ADDR_REGISTER \<equiv> 0xcf8"
abbreviation PCI_CFG_DATA_REGISTER :: u16 where "PCI_CFG_DATA_REGISTER \<equiv> 0xcfc"

record pci_cfg =
  vendor_id :: u16
  device_id :: u16
  command :: u16
  status :: u16
  revision :: u8
  prog_if :: u8
  sub_class :: u8
  base_class :: u8
  bar :: "u32 list"

record pci_device =
  bus :: u16
  device :: u8
  func :: u8
  cfg :: pci_cfg

record pci =
  pci_device_count :: u8
  pci_devices :: "pci_device list"

definition pci_addr :: "u8 \<Rightarrow> u8 \<Rightarrow> u8 \<Rightarrow> u8 \<Rightarrow> u32" where
  "pci_addr b d f offset =
     0x80000000 OR push_bit 16 (ucast b) OR push_bit 11 (ucast d) OR push_bit 8 (ucast f) OR ucast (offset AND 0xfc)"

definition pci_read16 :: "env \<Rightarrow> u32 \<Rightarrow> machine \<Rightarrow> u16 \<times> machine" where
  "pci_read16 E addr m = inw E (PCI_CFG_DATA_REGISTER + ucast (addr AND 0x2)) (outl PCI_CFG_ADDR_REGISTER addr m)"

definition pci_write16 :: "u32 \<Rightarrow> u16 \<Rightarrow> machine \<Rightarrow> machine" where
  "pci_write16 addr val m = outw (PCI_CFG_DATA_REGISTER + ucast (addr AND 0x2)) val (outl PCI_CFG_ADDR_REGISTER addr m)"

definition pci_read32 :: "env \<Rightarrow> u32 \<Rightarrow> machine \<Rightarrow> u32 \<times> machine" where
  "pci_read32 E addr m = inl E PCI_CFG_DATA_REGISTER (outl PCI_CFG_ADDR_REGISTER addr m)"

definition pci_write32 :: "u32 \<Rightarrow> u32 \<Rightarrow> machine \<Rightarrow> machine" where
  "pci_write32 addr val m = outl PCI_CFG_DATA_REGISTER val (outl PCI_CFG_ADDR_REGISTER addr m)"

fun read_bars :: "env \<Rightarrow> u8 \<Rightarrow> u8 \<Rightarrow> u8 \<Rightarrow> nat list \<Rightarrow> machine \<Rightarrow> u32 list \<times> machine" where
  "read_bars E b d f [] m = ([], m)"
| "read_bars E b d f (i # is) m =
     (let (v, m) = pci_read32 E (pci_addr b d f (0x10 + of_nat i * 4)) m;
          (vs, m) = read_bars E b d f is m
      in (v # vs, m))"

definition pci_read_device :: "env \<Rightarrow> u8 \<Rightarrow> u8 \<Rightarrow> u8 \<Rightarrow> machine \<Rightarrow> pci_cfg option \<times> machine" where
  "pci_read_device E b d f m =
     (let (vendor_device, m) = pci_read32 E (pci_addr b d f 0x0) m in
      if vendor_device = 0xffffffff then (None, m)
      else let (cmd_stat, m) = pci_read32 E (pci_addr b d f 0x4) m;
               (rev_cls, m) = pci_read32 E (pci_addr b d f 0x8) m;
               (bars, m) = read_bars E b d f [0..<6] m
           in (Some \<lparr>vendor_id = ucast vendor_device, device_id = ucast (drop_bit 16 vendor_device),
                 command = ucast cmd_stat, status = ucast (drop_bit 16 cmd_stat),
                 revision = ucast rev_cls, prog_if = ucast (drop_bit 8 rev_cls),
                 sub_class = ucast (drop_bit 16 rev_cls), base_class = ucast (drop_bit 24 rev_cls),
                 bar = bars\<rparr>, m))"

definition put_hex8 :: "u8 \<Rightarrow> u8 \<Rightarrow> machine \<Rightarrow> machine" where
  "put_hex8 v p m = snd (console_put_hex8 v p m)"

definition put_hex16 :: "u16 \<Rightarrow> u8 \<Rightarrow> machine \<Rightarrow> machine" where
  "put_hex16 v p m = snd (console_put_hex16 v p m)"

definition print_device :: "pci_device \<Rightarrow> machine \<Rightarrow> machine" where
  "print_device dev m =
     (let m = print ''  '' m;
          m = put_hex8 (ucast (bus dev)) 0 m;
          m = print '':'' m;
          m = put_hex8 (device dev) 0 m;
          m = print ''.'' m;
          m = put_hex8 (func dev) 0 m;
          m = print '', Vendor: '' m;
          m = put_hex16 (vendor_id (cfg dev)) 1 m;
          m = print '', Device: '' m;
          m = put_hex16 (device_id (cfg dev)) 1 m;
          m = print '', Class code: '' m;
          m = put_hex8 (base_class (cfg dev)) 1 m;
          m = put_hex8 (sub_class (cfg dev)) 0 m;
          m = put_hex8 (prog_if (cfg dev)) 0 m;
          m = println '''' m
      in m)"

text \<open>
  One pass of the innermost loop body. The count indexes an array of 64 entries without a
  check, so that storing a 65th device is a write outside it.
\<close>

definition scan_function :: "env \<Rightarrow> nat \<times> nat \<times> nat \<Rightarrow> pci \<times> machine \<Rightarrow> (unit, pci \<times> machine) outcome" where
  "scan_function E loc s =
     (case (loc, s) of ((b, d, f), (p, m)) \<Rightarrow>
      (case pci_read_device E (of_nat b) (of_nat d) (of_nat f) m of
         (None, m) \<Rightarrow> Ret () (p, m)
       | (Some c, m) \<Rightarrow>
           let dev = \<lparr>bus = of_nat b, device = of_nat d, func = of_nat f, cfg = c\<rparr> in
           if unat (pci_device_count p) < length (pci_devices p)
           then Ret () (p\<lparr>pci_devices := (pci_devices p)[unat (pci_device_count p) := dev],
                         pci_device_count := pci_device_count p + 1\<rparr>, print_device dev m)
           else Stop Bad_access (p, m)))"

fun scan_functions :: "env \<Rightarrow> (nat \<times> nat \<times> nat) list \<Rightarrow> pci \<times> machine \<Rightarrow> (unit, pci \<times> machine) outcome" where
  "scan_functions E [] s = Ret () s"
| "scan_functions E (l # ls) s = and_then (scan_function E l s) (\<lambda>_ s. scan_functions E ls s)"

definition pci_locations :: "(nat \<times> nat \<times> nat) list" where
  "pci_locations = concat (map (\<lambda>b. concat (map (\<lambda>d. map (\<lambda>f. (b, d, f)) [0..<8]) [0..<32])) [0..<256])"

definition scan_pci :: "env \<Rightarrow> pci \<Rightarrow> machine \<Rightarrow> (u8, pci \<times> machine) outcome" where
  "scan_pci E p m =
     (let m = println ''Scanning PCIs ...'' m in
      and_then (scan_functions E pci_locations (p, m))
        (\<lambda>_ (p, m).
           let m = (if pci_device_count p = 0 then println ''  No PCI found'' m else m);
               m = println ''Done'' m
           in Ret 1 (p, m)))"

definition pci_find_device :: "u8 \<Rightarrow> u8 \<Rightarrow> pci \<Rightarrow> pci_device option" where
  "pci_find_device bc sc p =
     find (\<lambda>dev. base_class (cfg dev) = bc \<and> sub_class (cfg dev) = sc)
       (take (unat (pci_device_count p)) (pci_devices p))"

definition pci_enable_bus_master :: "pci_device \<Rightarrow> machine \<Rightarrow> pci_device \<times> machine" where
  "pci_enable_bus_master dev m =
     (if command (cfg dev) AND 0x4 \<noteq> 0 then (dev, m)
      else let dev = dev\<lparr>cfg := (cfg dev)\<lparr>command := command (cfg dev) OR 0x4\<rparr>\<rparr>
           in (dev, pci_write16 (pci_addr (ucast (bus dev)) (device dev) (func dev) 0x4) (command (cfg dev)) m))"

definition boot_pci :: pci where
  "boot_pci = \<lparr>pci_device_count = 0, pci_devices = replicate 64 \<lparr>bus = 0, device = 0, func = 0,
     cfg = \<lparr>vendor_id = 0, device_id = 0, command = 0, status = 0, revision = 0, prog_if = 0,
       sub_class = 0, base_class = 0, bar = replicate 6 0\<rparr>\<rparr>\<rparr>"

section \<open>Specification\<close>

definition pci_env :: "env \<Rightarrow> (u32 \<Rightarrow> u32) \<Rightarrow> bool" where
  "pci_env E space \<longleftrightarrow> (\<forall>log a. env_inl E (Outl PCI_CFG_ADDR_REGISTER a # log) PCI_CFG_DATA_REGISTER = space a)"

text \<open>The device at a location of the configuration space, if one answers there.\<close>

definition device_at :: "(u32 \<Rightarrow> u32) \<Rightarrow> nat \<times> nat \<times> nat \<Rightarrow> pci_device option" where
  "device_at space loc =
     (case loc of (b, d, f) \<Rightarrow>
      let word = (\<lambda>off. space (pci_addr (of_nat b) (of_nat d) (of_nat f) off)) in
      if word 0 = 0xffffffff then None
      else Some \<lparr>bus = of_nat b, device = of_nat d, func = of_nat f,
        cfg = \<lparr>vendor_id = ucast (word 0), device_id = ucast (drop_bit 16 (word 0)),
          command = ucast (word 4), status = ucast (drop_bit 16 (word 4)),
          revision = ucast (word 8), prog_if = ucast (drop_bit 8 (word 8)),
          sub_class = ucast (drop_bit 16 (word 8)), base_class = ucast (drop_bit 24 (word 8)),
          bar = map (\<lambda>i. word (0x10 + of_nat i * 4)) [0..<6]\<rparr>\<rparr>)"

definition devices_at :: "(u32 \<Rightarrow> u32) \<Rightarrow> (nat \<times> nat \<times> nat) list \<Rightarrow> pci_device list" where
  "devices_at space ls = List.map_filter (device_at space) ls"

lemma devices_at_simps [simp]:
  "devices_at space [] = []"
  "devices_at space (l # ls) = (case device_at space l of None \<Rightarrow> devices_at space ls | Some d \<Rightarrow> d # devices_at space ls)"
  by (simp_all add: devices_at_def List.map_filter_simps split: option.split)

lemma pci_read32_space: "pci_env E space \<Longrightarrow> fst (pci_read32 E a m) = space a"
  by (simp add: pci_read32_def pci_env_def inl_def outl_def Let_def)

lemma read_bars_space:
  "pci_env E space \<Longrightarrow> fst (read_bars E b d f is m) = map (\<lambda>i. space (pci_addr b d f (0x10 + of_nat i * 4))) is"
  by (induction "is" arbitrary: m) (simp_all add: split_def Let_def pci_read32_space)

lemma pci_read_device_space:
  "pci_env E space \<Longrightarrow> fst (pci_read_device E (of_nat b) (of_nat d) (of_nat f) m) = map_option cfg (device_at space (b, d, f))"
  by (simp add: pci_read_device_def split_def Let_def pci_read32_space read_bars_space device_at_def
      del: upt_rec_numeral)

lemma device_at_eq:
  "device_at space (b, d, f) = map_option (\<lambda>c. \<lparr>bus = of_nat b, device = of_nat d, func = of_nat f, cfg = c\<rparr>)
     (map_option cfg (device_at space (b, d, f)))"
  by (simp add: device_at_def Let_def)

lemma scan_function_space:
  assumes "pci_env E space" and "length (pci_devices p) = 64"
  shows "case device_at space loc of
      None \<Rightarrow> \<exists>m'. scan_function E loc (p, m) = Ret () (p, m')
    | Some dev \<Rightarrow> if unat (pci_device_count p) < 64
        then \<exists>m'. scan_function E loc (p, m) = Ret () (p\<lparr>pci_devices := (pci_devices p)[unat (pci_device_count p) := dev],
           pci_device_count := pci_device_count p + 1\<rparr>, m')
        else \<exists>m'. scan_function E loc (p, m) = Stop Bad_access (p, m')"
proof -
  obtain b d f where loc: "loc = (b, d, f)" using prod_cases3 by blast
  obtain c m' where r: "pci_read_device E (of_nat b) (of_nat d) (of_nat f) m = (c, m')" by fastforce
  then have c: "c = map_option cfg (device_at space (b, d, f))" using pci_read_device_space [OF assms(1)] by (metis fst_conv)
  show ?thesis
  proof (cases c)
    case None
    then show ?thesis using c r by (simp add: loc scan_function_def)
  next
    case (Some x)
    then have "device_at space (b, d, f) = Some \<lparr>bus = of_nat b, device = of_nat d, func = of_nat f, cfg = x\<rparr>"
      using c device_at_eq [of space b d f] by (metis option.simps(9))
    with Some show ?thesis using r assms(2) by (simp add: loc scan_function_def Let_def)
  qed
qed

lemma scan_functions_space:
  assumes "pci_env E space" and "length (pci_devices p) = 64" and "unat (pci_device_count p) \<le> 64"
  shows "if unat (pci_device_count p) + length (devices_at space ls) \<le> 64
    then \<exists>p' m'. scan_functions E ls (p, m) = Ret () (p', m') \<and> length (pci_devices p') = 64
       \<and> unat (pci_device_count p') = unat (pci_device_count p) + length (devices_at space ls)
       \<and> take (unat (pci_device_count p')) (pci_devices p') =
           take (unat (pci_device_count p)) (pci_devices p) @ devices_at space ls
    else \<exists>s. scan_functions E ls (p, m) = Stop Bad_access s"
  using assms(2,3)
proof (induction ls arbitrary: p m)
  case (Cons l ls)
  note step = scan_function_space [OF assms(1) Cons.prems(1), of l m]
  show ?case
  proof (cases "device_at space l")
    case None
    with step obtain m' where "scan_function E l (p, m) = Ret () (p, m')" by auto
    then show ?thesis using Cons.IH [OF Cons.prems, of m'] None by (auto split: if_splits)
  next
    case (Some dev)
    show ?thesis
    proof (cases "unat (pci_device_count p) < 64")
      case True
      let ?n = "unat (pci_device_count p)"
      let ?p = "p\<lparr>pci_devices := (pci_devices p)[?n := dev], pci_device_count := pci_device_count p + 1\<rparr>"
      have n: "unat (pci_device_count ?p) = Suc ?n" using True by (simp add: unat_word_ariths)
      have t: "take (Suc ?n) (pci_devices ?p) = take ?n (pci_devices p) @ [dev]"
        using True Cons.prems(1) by (simp add: take_Suc_conv_app_nth)
      obtain m' where m': "scan_function E l (p, m) = Ret () (?p, m')" using step Some True by auto
      have "length (pci_devices ?p) = 64" "unat (pci_device_count ?p) \<le> 64" using Cons.prems(1) n True by simp_all
      from Cons.IH [OF this, of m'] show ?thesis unfolding n t by (auto simp: m' Some split: if_splits)
    next
      case False
      then show ?thesis using step Some Cons.prems(2) by auto
    qed
  qed
qed simp

lemma pci_addr_masks: "\<exists>c k. (\<forall>i. bit c i \<longleftrightarrow> i = 31) \<and> (\<forall>i. bit k i \<longleftrightarrow> 2 \<le> i \<and> i < 8) \<and> k = 0xfc \<and> pci_addr b d f off =
    c OR push_bit 16 (ucast b) OR push_bit 11 (ucast d) OR push_bit 8 (ucast f) OR ucast (off AND k)"
proof (intro exI conjI allI)
  show "bit (push_bit 31 1 :: u32) i \<longleftrightarrow> i = 31" for i
    by (auto simp only: bit_push_bit_iff bit_1_iff possible_bit_word len_bit0 len_num1)
  show "bit (push_bit 2 (mask 6) :: u8) i \<longleftrightarrow> 2 \<le> i \<and> i < 8" for i
    by (auto simp only: bit_push_bit_iff bit_mask_iff possible_bit_word len_bit0 len_num1)
  show k: "push_bit 2 (mask 6) = (0xfc :: u8)" by (simp add: mask_eq_exp_minus_1)
  show "pci_addr b d f off = push_bit 31 1 OR push_bit 16 (ucast b) OR push_bit 11 (ucast d)
      OR push_bit 8 (ucast f) OR ucast (off AND push_bit 2 (mask 6))"
    unfolding pci_addr_def k by simp
qed

lemma small_bits: "unat (w :: u8) < 2 ^ k \<Longrightarrow> k \<le> i \<Longrightarrow> \<not> bit w i"
proof -
  assume "unat w < 2 ^ k" "k \<le> i"
  then have "take_bit k w = w" by (simp add: word_unat_eq_iff unsigned_take_bit_eq take_bit_nat_eq_self)
  then show ?thesis using \<open>k \<le> i\<close> by (metis bit_take_bit_iff not_le)
qed

lemma pci_addr_fields:
  assumes "unat d < 32" and "unat f < 8"
  shows "ucast (drop_bit 16 (pci_addr b d f off)) = b"
    "take_bit 5 (ucast (drop_bit 11 (pci_addr b d f off))) = d"
    "take_bit 3 (ucast (drop_bit 8 (pci_addr b d f off))) = f"
    "ucast (pci_addr b d f off) = off AND 0xfc"
proof -
  have d: "\<not> bit d i" if "5 \<le> i" for i using small_bits [of d 5] assms(1) that by simp
  have f: "\<not> bit f i" if "3 \<le> i" for i using small_bits [of f 3] assms(2) that by simp
  obtain c k where c: "\<And>i. bit c i \<longleftrightarrow> i = 31" and k: "\<And>i. bit k i \<longleftrightarrow> 2 \<le> i \<and> i < 8" "k = 0xfc"
    and eq: "pci_addr b d f off =
    c OR push_bit 16 (ucast b) OR push_bit 11 (ucast d) OR push_bit 8 (ucast f) OR ucast (off AND k)"
    using pci_addr_masks by metis
  show "ucast (drop_bit 16 (pci_addr b d f off)) = b"
    unfolding eq by (rule bit_word_eqI) (auto simp: bit_simps c k(1) d f)
  show "take_bit 5 (ucast (drop_bit 11 (pci_addr b d f off))) = d"
    unfolding eq by (rule bit_word_eqI) (use d in \<open>auto simp: bit_simps c k(1) f simp flip: not_le\<close>)
  show "take_bit 3 (ucast (drop_bit 8 (pci_addr b d f off))) = f"
    unfolding eq by (rule bit_word_eqI) (use f in \<open>auto simp: bit_simps c k(1) simp flip: not_le\<close>)
  show "ucast (pci_addr b d f off) = off AND 0xfc"
    unfolding eq k(2) [symmetric] by (rule bit_word_eqI) (auto simp: bit_simps c k(1))
qed

section \<open>Properties\<close>

text \<open>
  C40. Discovery is complete: whatever the configuration space holds, if at most 64 functions
  answer then \<open>scan_pci\<close> returns 1 and the device table holds exactly the answering
  functions, each with its configuration words, in the order bus, device, function; if more
  answer, the scan writes outside the table.
\<close>

theorem scan_pci_finds_all:
  assumes "pci_env E space"
  shows "if length (devices_at space pci_locations) \<le> 64
    then \<exists>p m'. scan_pci E boot_pci m = Ret 1 (p, m')
      \<and> unat (pci_device_count p) = length (devices_at space pci_locations)
      \<and> take (unat (pci_device_count p)) (pci_devices p) = devices_at space pci_locations
    else \<exists>s. scan_pci E boot_pci m = Stop Bad_access s"
proof -
  have "length (pci_devices boot_pci) = 64" "unat (pci_device_count boot_pci) = 0" by (simp_all add: boot_pci_def)
  with scan_functions_space [OF assms this(1), of pci_locations "println ''Scanning PCIs ...'' m"]
  show ?thesis by (auto simp: scan_pci_def Let_def split: if_splits)
qed

text \<open>An environment whose configuration space is given.\<close>

definition config_env :: "(u32 \<Rightarrow> u32) \<Rightarrow> env" where
  "config_env space = \<lparr>env_inb = (\<lambda>_ _. 0), env_inw = (\<lambda>_ _. 0),
     env_inl = (\<lambda>log _. case log of Outl _ a # _ \<Rightarrow> space a | _ \<Rightarrow> 0), env_ticks = (\<lambda>_. 0), env_dma = (\<lambda>_. [])\<rparr>"

lemma devices_at_none: "(\<And>l. l \<in> set ls \<Longrightarrow> device_at space l = None) \<Longrightarrow> devices_at space ls = []"
  by (induction ls) auto

theorem scan_pci_finds_all_witness:
  "\<exists>p m. pci_env (config_env (\<lambda>_. 0xffffffff)) (\<lambda>_. 0xffffffff)
     \<and> scan_pci (config_env (\<lambda>_. 0xffffffff)) boot_pci boot_machine = Ret 1 (p, m) \<and> unat (pci_device_count p) = 0"
proof -
  have E: "pci_env (config_env (\<lambda>_. 0xffffffff)) (\<lambda>_. 0xffffffff)" by (simp add: pci_env_def config_env_def)
  have "devices_at (\<lambda>_. 0xffffffff) pci_locations = []"
    by (rule devices_at_none) (auto simp: device_at_def)
  with scan_pci_finds_all [OF E, of boot_machine] E show ?thesis by auto
qed

text \<open>
  Configuration addresses of different functions never coincide: bus, device (below 32),
  function (below 8) and the register can be read back from the address.
\<close>

theorem pci_addr_injective:
  assumes "unat d < 32" and "unat f < 8" and "unat d' < 32" and "unat f' < 8"
  shows "pci_addr b d f off = pci_addr b' d' f' off' \<longleftrightarrow>
    b = b' \<and> d = d' \<and> f = f' \<and> off AND 0xfc = off' AND 0xfc"
proof
  assume eq: "pci_addr b d f off = pci_addr b' d' f' off'"
  note l = pci_addr_fields [OF assms(1,2), of b off] and r = pci_addr_fields [OF assms(3,4), of b' off']
  show "b = b' \<and> d = d' \<and> f = f' \<and> off AND 0xfc = off' AND 0xfc"
    using l r unfolding eq by (metis (no_types))
qed (simp add: pci_addr_def)

theorem pci_addr_injective_witness: "pci_addr 0 1 1 4 \<noteq> pci_addr 0 1 2 4"
  using pci_addr_injective [of 1 1 1 2 0 4 0 4] by simp

text \<open>
  Looking a device up gives the first discovered device of the class; enabling bus
  mastering on it sets bit 2 of the command word in the copy and, when it was clear, writes
  exactly that word to the command register of that device and nothing else.
\<close>

theorem pci_find_and_enable:
  assumes "pci_find_device bc sc p = Some dev" and "pci_enable_bus_master dev m = (dev', m')"
  shows "(\<exists>i < unat (pci_device_count p). i < length (pci_devices p) \<and> dev = pci_devices p ! i
       \<and> base_class (cfg dev) = bc \<and> sub_class (cfg dev) = sc
       \<and> (\<forall>j < i. base_class (cfg (pci_devices p ! j)) \<noteq> bc \<or> sub_class (cfg (pci_devices p ! j)) \<noteq> sc))
    \<and> bit (command (cfg dev')) 2 \<and> bar (cfg dev') = bar (cfg dev)
    \<and> m' = (if bit (command (cfg dev)) 2 then m
          else outw PCI_CFG_DATA_REGISTER (command (cfg dev) OR 4)
            (outl PCI_CFG_ADDR_REGISTER (pci_addr (ucast (bus dev)) (device dev) (func dev) 4) m))"
proof -
  have four: "(w :: u16) AND 4 = 0 \<longleftrightarrow> \<not> bit w 2" for w
    using and_exp_eq_0_iff_not_bit [of w 2] by simp
  have two: "ucast (pci_addr b d f 4 AND 2) = (0 :: u16)" for b d f
  proof -
    obtain c k where k: "\<forall>i. bit (c :: u32) i \<longleftrightarrow> i = 31" "\<forall>i. bit (k :: u8) i \<longleftrightarrow> 2 \<le> i \<and> i < 8"
      "pci_addr b d f 4 = c OR push_bit 16 (ucast b) OR push_bit 11 (ucast d) OR push_bit 8 (ucast f) OR ucast (4 AND k)"
      using pci_addr_masks by metis
    have "\<not> bit (pci_addr b d f 4) 1" unfolding k(3) using k(1,2) by (simp add: bit_simps)
    then have "pci_addr b d f 4 AND 2 = 0" using and_exp_eq_0_iff_not_bit [of "pci_addr b d f 4" 1] by simp
    then show ?thesis by simp
  qed
  have set2: "bit (w OR 4 :: u16) 2" for w by (simp add: bit_or_iff)
  have "\<exists>i < unat (pci_device_count p). i < length (pci_devices p) \<and> dev = pci_devices p ! i
       \<and> base_class (cfg dev) = bc \<and> sub_class (cfg dev) = sc
       \<and> (\<forall>j < i. base_class (cfg (pci_devices p ! j)) \<noteq> bc \<or> sub_class (cfg (pci_devices p ! j)) \<noteq> sc)"
    using assms(1) by (auto simp: pci_find_device_def find_Some_iff)
  then show ?thesis
    using assms(2) set2 by (auto simp: pci_enable_bus_master_def Let_def four pci_write16_def two split: if_splits)
qed

definition ide_sample :: pci_device where
  "ide_sample = \<lparr>bus = 0, device = 1, func = 1, cfg = \<lparr>vendor_id = 0x8086, device_id = 0x7010, command = 1,
     status = 0, revision = 0, prog_if = 0x80, sub_class = 1, base_class = 1, bar = [0, 0, 0, 0, 0xc041, 0]\<rparr>\<rparr>"

theorem pci_find_and_enable_witness:
  "\<exists>dev m. pci_find_device 1 1 \<lparr>pci_device_count = 1, pci_devices = [ide_sample]\<rparr> = Some ide_sample
     \<and> pci_enable_bus_master ide_sample boot_machine = (dev, m) \<and> bit (command (cfg dev)) 2"
proof -
  have f: "pci_find_device 1 1 \<lparr>pci_device_count = 1, pci_devices = [ide_sample]\<rparr> = Some ide_sample"
    by (simp add: pci_find_device_def ide_sample_def)
  obtain dev m where e: "pci_enable_bus_master ide_sample boot_machine = (dev, m)" by fastforce
  show ?thesis using pci_find_and_enable [OF f e] f e by blast
qed

end
