(* ===== verification/Block_Device.thy ===== *)
theory Block_Device
  imports Prelude
begin

text \<open>
  The interface between the disk driver and the file system: a read function over a state,
  with what it promises. A read of sectors inside the 28-bit address range returns; it either
  delivers the bytes stored there or, if the device is not \<open>reliable\<close>, reports failure. A
  healthy device is a reliable one.
\<close>

locale block_device =
  fixes rd :: "u32 \<Rightarrow> u8 \<Rightarrow> 's \<Rightarrow> ((u8 list + u8 list) \<times> 's) option"
    and inv :: "'s \<Rightarrow> bool"
    and stored :: "nat \<Rightarrow> nat \<Rightarrow> u8 list"
    and reliable :: bool
  assumes rd_returns: "inv s \<Longrightarrow> unat lba + unat n \<le> 2 ^ 28 \<Longrightarrow>
      \<exists>r s'. rd lba n s = Some (r, s') \<and> inv s' \<and> (r = Inr (stored (unat lba) (unat n)) \<or> \<not> reliable \<and> isl r)"
    and stored_length: "inv s \<Longrightarrow> length (stored a k) = k * 512"

locale healthy_device = block_device rd inv stored True for rd inv stored
begin

lemma rd_succeeds:
  "inv s \<Longrightarrow> unat lba + unat n \<le> 2 ^ 28 \<Longrightarrow>
   \<exists>s'. rd lba n s = Some (Inr (stored (unat lba) (unat n)), s') \<and> inv s'"
  using rd_returns by fastforce

end

end
