(* ===== verification/Disk.thy ===== *)
theory Disk
  imports Interrupts Pci Block_Device
begin

text \<open>
  The IDE disk driver, \<^verbatim>\<open>kernel/disk.c\<close>: bus-master transfers through one static
  buffer of eight sectors, with waiting loops bounded by the tick counter. A waiting loop is a
  \<^theory_text>\<open>partial_function (option)\<close>, so \<open>None\<close> stands for a wait that never
  ends; the contract of a running timer excludes it. What the drive delivers is the contract
  \<open>ata_env\<close>: a finished read transfer leaves the sectors named by the programmed
  registers in the buffer.
\<close>

section \<open>Model\<close>

abbreviation DISK_SECTOR_SIZE :: nat where "DISK_SECTOR_SIZE \<equiv> 512"
abbreviation DISK_DMA_MAX_SECTORS :: u8 where "DISK_DMA_MAX_SECTORS \<equiv> 8"
abbreviation ATA_PRIMARY_CONTROL_REGISTER :: u16 where "ATA_PRIMARY_CONTROL_REGISTER \<equiv> 0x3f6"
abbreviation ATA_PRIMARY_DATA_REGISTER :: u16 where "ATA_PRIMARY_DATA_REGISTER \<equiv> 0x1f0"
abbreviation ATA_FEATURE_REGISTER_OFFSET :: u16 where "ATA_FEATURE_REGISTER_OFFSET \<equiv> 0x1"
abbreviation ATA_SECCOUNT_REGISTER_OFFSET :: u16 where "ATA_SECCOUNT_REGISTER_OFFSET \<equiv> 0x2"
abbreviation ATA_LBALOW_REGISTER_OFFSET :: u16 where "ATA_LBALOW_REGISTER_OFFSET \<equiv> 0x3"
abbreviation ATA_LBAMID_REGISTER_OFFSET :: u16 where "ATA_LBAMID_REGISTER_OFFSET \<equiv> 0x4"
abbreviation ATA_LBAHIGHT_REGISTER_OFFSET :: u16 where "ATA_LBAHIGHT_REGISTER_OFFSET \<equiv> 0x5"
abbreviation ATA_DRVHEAD_REGISTER_OFFSET :: u16 where "ATA_DRVHEAD_REGISTER_OFFSET \<equiv> 0x6"
abbreviation ATA_COMMAND_REGISTER_OFFSET :: u16 where "ATA_COMMAND_REGISTER_OFFSET \<equiv> 0x7"
abbreviation ATA_STATUS_REGISTER_OFFSET :: u16 where "ATA_STATUS_REGISTER_OFFSET \<equiv> 0x7"
abbreviation BM_COMMAND_REGISTER_OFFSET :: u16 where "BM_COMMAND_REGISTER_OFFSET \<equiv> 0x0"
abbreviation BM_STATUS_REGISTER_OFFSET :: u16 where "BM_STATUS_REGISTER_OFFSET \<equiv> 0x2"
abbreviation BM_PRDT_REGISTER_OFFSET :: u16 where "BM_PRDT_REGISTER_OFFSET \<equiv> 0x4"
abbreviation ATA_COMMAND_DMA_READ :: u8 where "ATA_COMMAND_DMA_READ \<equiv> 0xc8"
abbreviation ATA_COMMAND_DMA_WRITE :: u8 where "ATA_COMMAND_DMA_WRITE \<equiv> 0xca"
abbreviation ATA_COMMAND_DMA_CACHE_FLUSH :: u8 where "ATA_COMMAND_DMA_CACHE_FLUSH \<equiv> 0xe7"
abbreviation ATA_STATUS_ERROR :: u8 where "ATA_STATUS_ERROR \<equiv> 0x1"
abbreviation ATA_STATUS_FAULT :: u8 where "ATA_STATUS_FAULT \<equiv> 0x20"
abbreviation ATA_STATUS_BUSY :: u8 where "ATA_STATUS_BUSY \<equiv> 0x80"
abbreviation BM_COMMAND_START :: u8 where "BM_COMMAND_START \<equiv> 0x1"
abbreviation BM_COMMAND_READ :: u8 where "BM_COMMAND_READ \<equiv> 0x8"
abbreviation BM_COMMAND_WRITE :: u8 where "BM_COMMAND_WRITE \<equiv> 0x0"
abbreviation BM_STATUS_ERROR :: u8 where "BM_STATUS_ERROR \<equiv> 0x2"
abbreviation BM_STATUS_IRQ_COMPLETED :: u8 where "BM_STATUS_IRQ_COMPLETED \<equiv> 0x4"
abbreviation PRDT_END :: u16 where "PRDT_END \<equiv> 0x8000"
abbreviation ATA_BUSY_TIMEOUT_TICKS :: u32 where "ATA_BUSY_TIMEOUT_TICKS \<equiv> 100"
abbreviation ATA_DMA_TIMEOUT_TICKS :: u32 where "ATA_DMA_TIMEOUT_TICKS \<equiv> 100"

record prdt_entry =
  buffer_phys_addr :: u32
  transfer_bytes :: u16
  prdt_reserved :: u16

record disk =
  primary_prdt :: prdt_entry
  dma_buffer :: "u8 list"
  ide_dev :: pci_device

definition kernel_phys_ptr :: "u32 \<Rightarrow> u32" where
  "kernel_phys_ptr ptr = ptr - KERNEL_VMA_TO_LMA_OFFSET"

definition bm_base :: "disk \<Rightarrow> u16" where
  "bm_base k = ucast (bar (cfg (ide_dev k)) ! 4 AND 0xfffc)"

definition ata_irq_handler :: "env \<Rightarrow> machine \<Rightarrow> machine" where
  "ata_irq_handler E m = snd (inb E (ATA_PRIMARY_DATA_REGISTER + ATA_STATUS_REGISTER_OFFSET) m)"

definition init_disk :: "env \<Rightarrow> pci \<Rightarrow> disk \<Rightarrow> interrupts \<Rightarrow> machine \<Rightarrow> u8 \<times> disk \<times> interrupts \<times> machine" where
  "init_disk E p k t m =
     (let m = print ''Initializing IDE disk ... '' m in
      case pci_find_device 0x1 0x1 p of
        None \<Rightarrow> (0, k, t, println ''Failed: IDE controller not found'' m)
      | Some dev \<Rightarrow>
          let k = k\<lparr>ide_dev := dev\<rparr> in
          if bar (cfg dev) ! 4 AND 0xfffc = 0 then (0, k, t, println ''Failed: bus-master BAR missing'' m)
          else let (dev, m) = pci_enable_bus_master dev m;
                   k = k\<lparr>ide_dev := dev\<rparr>;
                   m = outb ATA_PRIMARY_CONTROL_REGISTER 0x0 m;
                   t = register_irq_handler 14 Ata_irq_handler t;
                   m = unmask_irq E 14 m;
                   m = println ''Done'' m
               in (1, k, t, m))"

definition ata_io_wait :: "env \<Rightarrow> machine \<Rightarrow> machine" where
  "ata_io_wait E m =
     snd (inb E ATA_PRIMARY_CONTROL_REGISTER (snd (inb E ATA_PRIMARY_CONTROL_REGISTER
       (snd (inb E ATA_PRIMARY_CONTROL_REGISTER (snd (inb E ATA_PRIMARY_CONTROL_REGISTER m)))))))"

partial_function (option) not_busy_loop :: "env \<Rightarrow> u32 \<Rightarrow> machine \<Rightarrow> (u8 \<times> machine) option" where
  "not_busy_loop E start m =
     (let (now, m) = get_current_ticks E m in
      if now - start < ATA_BUSY_TIMEOUT_TICKS
      then let (ata_status, m) = inb E (ATA_PRIMARY_DATA_REGISTER + ATA_STATUS_REGISTER_OFFSET) m in
           if ata_status AND ATA_STATUS_BUSY = 0 then Some (1, m)
           else not_busy_loop E start (ata_io_wait E m)
      else Some (0, m))"

definition ata_wait4_not_busy :: "env \<Rightarrow> machine \<Rightarrow> (u8 \<times> machine) option" where
  "ata_wait4_not_busy E m = (let (start, m) = get_current_ticks E m in not_busy_loop E start m)"

definition ata_set_lba28 :: "env \<Rightarrow> u32 \<Rightarrow> machine \<Rightarrow> machine" where
  "ata_set_lba28 E lba m =
     ata_io_wait E (outb (ATA_PRIMARY_DATA_REGISTER + ATA_DRVHEAD_REGISTER_OFFSET)
       (ucast (0xe0 OR (drop_bit 24 lba AND 0xf))) m)"

partial_function (option) dma_loop :: "env \<Rightarrow> disk \<Rightarrow> u32 \<Rightarrow> machine \<Rightarrow> (u8 \<times> machine) option" where
  "dma_loop E k start m =
     (let (now, m) = get_current_ticks E m in
      if now - start < ATA_DMA_TIMEOUT_TICKS
      then let (ata_status, m) = inb E (ATA_PRIMARY_DATA_REGISTER + ATA_STATUS_REGISTER_OFFSET) m;
               (bm_status, m) = inb E (bm_base k + BM_STATUS_REGISTER_OFFSET) m in
           if ata_status AND (ATA_STATUS_ERROR OR ATA_STATUS_FAULT) \<noteq> 0 then Some (0, m)
           else if bm_status AND BM_STATUS_ERROR \<noteq> 0 then Some (0, m)
           else if bm_status AND BM_STATUS_IRQ_COMPLETED \<noteq> 0 then Some (1, m)
           else dma_loop E k start m
      else Some (0, m))"

definition ata_wait4_dma :: "env \<Rightarrow> disk \<Rightarrow> machine \<Rightarrow> (u8 \<times> machine) option" where
  "ata_wait4_dma E k m = (let (start, m) = get_current_ticks E m in dma_loop E k start m)"

text \<open>The accesses that program the transfer, up to the command.\<close>

definition program_transfer :: "env \<Rightarrow> symbols \<Rightarrow> disk \<Rightarrow> u32 \<Rightarrow> u8 \<Rightarrow> u8 \<Rightarrow> machine \<Rightarrow> machine" where
  "program_transfer E L k lba sectors is_write m =
     (let bm_command_port = bm_base k + BM_COMMAND_REGISTER_OFFSET;
          bm_direction = (if is_write \<noteq> 0 then BM_COMMAND_WRITE else BM_COMMAND_READ);
          bm_status_port = bm_base k + BM_STATUS_REGISTER_OFFSET;
          bm_prdt_port = bm_base k + BM_PRDT_REGISTER_OFFSET;
          (c, m) = inb E bm_command_port m;
          m = outb bm_command_port (c AND NOT BM_COMMAND_START) m;
          m = outb bm_command_port bm_direction m;
          m = outb bm_status_port (BM_STATUS_IRQ_COMPLETED OR BM_STATUS_ERROR) m;
          m = outl bm_prdt_port (kernel_phys_ptr (sym_primary_prdt L)) m;
          m = ata_set_lba28 E lba m;
          m = outb (ATA_PRIMARY_DATA_REGISTER + ATA_FEATURE_REGISTER_OFFSET) 0x0 m;
          m = outb (ATA_PRIMARY_DATA_REGISTER + ATA_SECCOUNT_REGISTER_OFFSET) sectors m;
          m = outb (ATA_PRIMARY_DATA_REGISTER + ATA_LBALOW_REGISTER_OFFSET) (ucast lba) m;
          m = outb (ATA_PRIMARY_DATA_REGISTER + ATA_LBAMID_REGISTER_OFFSET) (ucast (drop_bit 8 lba)) m;
          m = outb (ATA_PRIMARY_DATA_REGISTER + ATA_LBAHIGHT_REGISTER_OFFSET) (ucast (drop_bit 16 lba)) m;
          m = outb bm_command_port (bm_direction OR BM_COMMAND_START) m;
          ata_command = (if is_write \<noteq> 0 then ATA_COMMAND_DMA_WRITE else ATA_COMMAND_DMA_READ)
      in outb (ATA_PRIMARY_DATA_REGISTER + ATA_COMMAND_REGISTER_OFFSET) ata_command m)"

text \<open>
  The device's side of a finished transfer: a read has filled the buffer, a write has taken
  its bytes.
\<close>

definition dma_effect :: "env \<Rightarrow> u8 \<Rightarrow> u8 \<Rightarrow> disk \<Rightarrow> machine \<Rightarrow> disk \<times> machine" where
  "dma_effect E sectors is_write k m =
     (let bytes = unat sectors * DISK_SECTOR_SIZE in
      if is_write \<noteq> 0 then (k, log_event (Dma_out (take bytes (dma_buffer k))) m)
      else (k\<lparr>dma_buffer := take bytes (env_dma E (io_log m)) @ drop bytes (dma_buffer k)\<rparr>, m))"

text \<open>What follows the wait for the transfer: stop the bus master, check, flush after a write.\<close>

definition finish_transfer :: "env \<Rightarrow> u8 \<Rightarrow> disk \<Rightarrow> machine \<Rightarrow> (u8 \<times> disk \<times> machine) option" where
  "finish_transfer E is_write k m =
     (let bm_direction = (if is_write \<noteq> 0 then BM_COMMAND_WRITE else BM_COMMAND_READ);
          m = outb (bm_base k + BM_COMMAND_REGISTER_OFFSET) bm_direction m in
      case ata_wait4_not_busy E m of
        None \<Rightarrow> None
      | Some (r, m) \<Rightarrow>
          if r = 0 then Some (0, k, m)
          else let (status, m) = inb E (ATA_PRIMARY_DATA_REGISTER + ATA_STATUS_REGISTER_OFFSET) m;
                   (bm_status, m) = inb E (bm_base k + BM_STATUS_REGISTER_OFFSET) m;
                   m = outb (bm_base k + BM_STATUS_REGISTER_OFFSET) (BM_STATUS_IRQ_COMPLETED OR BM_STATUS_ERROR) m in
            if status AND (ATA_STATUS_ERROR OR ATA_STATUS_FAULT) \<noteq> 0 \<or> bm_status AND BM_STATUS_ERROR \<noteq> 0
            then Some (0, k, m)
            else if is_write \<noteq> 0
            then let m = outb (ATA_PRIMARY_DATA_REGISTER + ATA_COMMAND_REGISTER_OFFSET) ATA_COMMAND_DMA_CACHE_FLUSH m in
              case ata_wait4_not_busy E m of
                None \<Rightarrow> None
              | Some (r, m) \<Rightarrow>
                  if r = 0 then Some (0, k, m)
                  else let (status, m) = inb E (ATA_PRIMARY_DATA_REGISTER + ATA_STATUS_REGISTER_OFFSET) m in
                    if status AND (ATA_STATUS_ERROR OR ATA_STATUS_FAULT) \<noteq> 0 then Some (0, k, m)
                    else Some (1, k, m)
            else Some (1, k, m))"

definition ata_dma_transfer :: "env \<Rightarrow> symbols \<Rightarrow> u32 \<Rightarrow> u8 \<Rightarrow> u8 \<Rightarrow> disk \<Rightarrow> machine \<Rightarrow> (u8 \<times> disk \<times> machine) option" where
  "ata_dma_transfer E L lba sectors is_write k m =
     (if sectors = 0 \<or> sectors > DISK_DMA_MAX_SECTORS then Some (0, k, m)
      else let k = k\<lparr>primary_prdt := \<lparr>buffer_phys_addr = kernel_phys_ptr (sym_dma_buffer L),
                  transfer_bytes = ucast sectors * of_nat DISK_SECTOR_SIZE, prdt_reserved = PRDT_END\<rparr>\<rparr> in
        case ata_wait4_not_busy E m of
          None \<Rightarrow> None
        | Some (r, m) \<Rightarrow>
            if r = 0 then Some (0, k, m)
            else let m = program_transfer E L k lba sectors is_write m in
              case ata_wait4_dma E k m of
                None \<Rightarrow> None
              | Some (r, m) \<Rightarrow>
                  if r = 0
                  then Some (0, k, outb (bm_base k + BM_COMMAND_REGISTER_OFFSET)
                         (if is_write \<noteq> 0 then BM_COMMAND_WRITE else BM_COMMAND_READ) m)
                  else let (k, m) = dma_effect E sectors is_write k m in finish_transfer E is_write k m)"

text \<open>
  Reading and writing go chunk by chunk. The bytes are a list; the result of a read is
  \<open>Inr\<close> the bytes when the function returns 1 and \<open>Inl\<close> the bytes stored so far when it
  returns 0.
\<close>

definition chunk_of :: "u8 \<Rightarrow> u8" where
  "chunk_of remaining = (if remaining > DISK_DMA_MAX_SECTORS then DISK_DMA_MAX_SECTORS else remaining)"

lemma chunk_of_decr: "remaining \<noteq> 0 \<Longrightarrow> unat (remaining - chunk_of remaining) < unat remaining"
  by (auto simp: chunk_of_def unat_sub_u32_le word_less_nat_alt unat_sub word_le_nat_alt not_less
      unat_gt_0)

function disk_read :: "env \<Rightarrow> symbols \<Rightarrow> u32 \<Rightarrow> u8 \<Rightarrow> disk \<times> machine \<Rightarrow> ((u8 list + u8 list) \<times> disk \<times> machine) option" where
  "disk_read E L lba remaining (k, m) =
     (if remaining = 0 then Some (Inr [], k, m)
      else let chunk = chunk_of remaining; bytes = unat chunk * DISK_SECTOR_SIZE in
        case ata_dma_transfer E L lba chunk 0 k m of
          None \<Rightarrow> None
        | Some (r, k, m) \<Rightarrow>
            if r = 0 then Some (Inl [], k, m)
            else let out = take bytes (dma_buffer k) in
              map_option (\<lambda>(rest, s). (map_sum ((@) out) ((@) out) rest, s))
                (disk_read E L (lba + ucast chunk) (remaining - chunk) (k, m)))"
  by pat_completeness auto
termination
  by (relation "measure (\<lambda>(E, L, lba, remaining, s). unat remaining)") (auto simp: chunk_of_decr)

declare disk_read.simps [simp del]

function disk_write :: "env \<Rightarrow> symbols \<Rightarrow> u32 \<Rightarrow> u8 list \<Rightarrow> u8 \<Rightarrow> disk \<times> machine \<Rightarrow> (u8 \<times> disk \<times> machine) option" where
  "disk_write E L lba buf remaining (k, m) =
     (if remaining = 0 then Some (1, k, m)
      else let chunk = chunk_of remaining; bytes = unat chunk * DISK_SECTOR_SIZE;
               k = k\<lparr>dma_buffer := take bytes buf @ drop bytes (dma_buffer k)\<rparr> in
        case ata_dma_transfer E L lba chunk 1 k m of
          None \<Rightarrow> None
        | Some (r, k, m) \<Rightarrow>
            if r = 0 then Some (0, k, m)
            else disk_write E L (lba + ucast chunk) (drop bytes buf) (remaining - chunk) (k, m))"
  by pat_completeness auto
termination
  by (relation "measure (\<lambda>(E, L, lba, buf, remaining, s). unat remaining)") (auto simp: chunk_of_decr)

declare disk_write.simps [simp del]

section \<open>Waiting\<close>

text \<open>
  The contract of the running timer: the counter shows the number of ticks so far, a port
  access takes at most ten ticks, and the processor reads the counter fewer than
  \<open>K\<close> times per tick.
\<close>

fun ticks_reads :: "io_event list \<Rightarrow> nat" where
  "ticks_reads [] = 0"
| "ticks_reads (Ticks_read v # es) = Suc (ticks_reads es)"
| "ticks_reads (_ # es) = ticks_reads es"

definition timer_env :: "env \<Rightarrow> (io_event list \<Rightarrow> nat) \<Rightarrow> nat \<Rightarrow> bool" where
  "timer_env E T K \<longleftrightarrow> (\<forall>log. env_ticks E log = of_nat (T log))
     \<and> (\<forall>e log. T log \<le> T (e # log) \<and> T (e # log) \<le> T log + 10)
     \<and> (\<forall>log. ticks_reads log < K * (T log + 1))"

text \<open>Waiting reads ports and the counter, and writes none.\<close>

definition only_reads :: "machine \<Rightarrow> machine \<Rightarrow> bool" where
  "only_reads m m' \<longleftrightarrow> (\<forall>p. last_out p (io_log m') = last_out p (io_log m)) \<and> m' = m\<lparr>io_log := io_log m'\<rparr>"

lemma only_reads_refl [simp]: "only_reads m m"
  by (simp add: only_reads_def)

lemma only_reads_trans: "only_reads a b \<Longrightarrow> only_reads b c \<Longrightarrow> only_reads a c"
  unfolding only_reads_def by (metis machine.surjective machine.update_convs(1))

lemma only_reads_inb [simp]: "only_reads m (snd (inb E p m))"
  by (simp add: only_reads_def inb_def Let_def)

lemma only_reads_ticks [simp]: "only_reads m (snd (get_current_ticks E m))"
  by (simp add: only_reads_def get_current_ticks_def log_event_def Let_def)

lemma only_reads_io_wait [simp]: "only_reads m (ata_io_wait E m)"
  unfolding ata_io_wait_def by (meson only_reads_inb only_reads_trans)

lemma not_busy_loop_reads:
  assumes "not_busy_loop E start m = Some r"
  shows "only_reads m (snd r)"
  using assms
proof (rule not_busy_loop.raw_induct [rotated, where P = "\<lambda>E start m r. only_reads m (snd r)"])
  fix loop :: "env \<Rightarrow> u32 \<Rightarrow> machine \<Rightarrow> (u8 \<times> machine) option" and E start m r
  assume IH: "\<And>E start m r. loop E start m = Some r \<Longrightarrow> only_reads m (snd r)"
  define m1 where "m1 = snd (get_current_ticks E m)"
  define m2 where "m2 = snd (inb E 0x1f7 m1)"
  assume "(let (now, m) = get_current_ticks E m in
      if now - start < ATA_BUSY_TIMEOUT_TICKS
      then let (ata_status, m) = inb E (ATA_PRIMARY_DATA_REGISTER + ATA_STATUS_REGISTER_OFFSET) m in
           if ata_status AND ATA_STATUS_BUSY = 0 then Some (1, m)
           else loop E start (ata_io_wait E m)
      else Some (0, m)) = Some r"
  then have "only_reads (ata_io_wait E m2) (snd r) \<or> snd r = m2 \<or> snd r = m1"
    using IH [of E start "ata_io_wait E m2" r]
    by (auto simp: split_def Let_def m1_def [symmetric] m2_def [symmetric] split: if_splits)
  moreover have "only_reads m m1" "only_reads m1 m2" "only_reads m2 (ata_io_wait E m2)"
    by (simp_all add: m1_def m2_def)
  ultimately show "only_reads m (snd r)" using only_reads_trans by blast
qed

lemma dma_loop_reads:
  assumes "dma_loop E k start m = Some r"
  shows "only_reads m (snd r)"
  using assms
proof (rule dma_loop.raw_induct [rotated, where P = "\<lambda>E k start m r. only_reads m (snd r)"])
  fix loop :: "env \<Rightarrow> disk \<Rightarrow> u32 \<Rightarrow> machine \<Rightarrow> (u8 \<times> machine) option" and E k start m r
  assume IH: "\<And>E k start m r. loop E k start m = Some r \<Longrightarrow> only_reads m (snd r)"
  define m1 where "m1 = snd (get_current_ticks E m)"
  define m2 where "m2 = snd (inb E 0x1f7 m1)"
  define m3 where "m3 = snd (inb E (bm_base k + 2) m2)"
  assume "(let (now, m) = get_current_ticks E m in
      if now - start < ATA_DMA_TIMEOUT_TICKS
      then let (ata_status, m) = inb E (ATA_PRIMARY_DATA_REGISTER + ATA_STATUS_REGISTER_OFFSET) m;
               (bm_status, m) = inb E (bm_base k + BM_STATUS_REGISTER_OFFSET) m in
           if ata_status AND (ATA_STATUS_ERROR OR ATA_STATUS_FAULT) \<noteq> 0 then Some (0, m)
           else if bm_status AND BM_STATUS_ERROR \<noteq> 0 then Some (0, m)
           else if bm_status AND BM_STATUS_IRQ_COMPLETED \<noteq> 0 then Some (1, m)
           else loop E k start m
      else Some (0, m)) = Some r"
  then have "only_reads m3 (snd r) \<or> snd r = m1"
    using IH [of E k start m3 r]
    by (auto simp: split_def Let_def m1_def [symmetric] m2_def [symmetric] m3_def [symmetric] split: if_splits)
  moreover have "only_reads m m1" "only_reads m1 m3"
    unfolding m1_def m2_def m3_def by (meson only_reads_inb only_reads_ticks only_reads_trans)+
  ultimately show "only_reads m (snd r)" using only_reads_trans by blast
qed

lemma wait_reads:
  "ata_wait4_not_busy E m = Some (r, m') \<Longrightarrow> only_reads m m'"
  "ata_wait4_dma E k m = Some (r, m') \<Longrightarrow> only_reads m m'"
  unfolding ata_wait4_not_busy_def ata_wait4_dma_def split_def Let_def
  using only_reads_trans [OF only_reads_ticks [of m E], of m'] not_busy_loop_reads dma_loop_reads
  by (metis snd_conv)+

text \<open>Waiting ends when the timer runs.\<close>

lemma elapsed:
  assumes "timer_env E T K" and "T0 \<le> T log" and "T log \<le> T0 + 100000"
  shows "env_ticks E log - of_nat T0 < (100 :: u32) \<longleftrightarrow> T log - T0 < 100"
proof -
  have "env_ticks E log - of_nat T0 = of_nat (T log - T0)"
    using assms(1,2) by (simp add: timer_env_def of_nat_diff)
  moreover have "unat (of_nat (T log - T0) :: u32) = T log - T0"
    using assms(2,3) by (intro unat_of_nat_u32) linarith
  ultimately show ?thesis by (simp add: word_less_nat_alt del: of_nat_diff)
qed

lemma timer_event:
  "timer_env E T K \<Longrightarrow> T log \<le> T (e # log)" "timer_env E T K \<Longrightarrow> T (e # log) \<le> T log + 10"
  "timer_env E T K \<Longrightarrow> ticks_reads log < K * (T log + 1)"
  by (simp_all add: timer_env_def)

lemma ticks_reads_append [simp]: "ticks_reads (a @ b) = ticks_reads a + ticks_reads b"
  by (induction a rule: ticks_reads.induct) simp_all

lemma timer_events: "timer_env E T K \<Longrightarrow> T log \<le> T (es @ log) \<and> T (es @ log) \<le> T log + 10 * length es"
proof (induction es)
  case (Cons e es)
  then show ?case using timer_event(1,2) [where log = "es @ log" and e = e, OF Cons.prems] by simp
qed simp

lemma poll_step:
  assumes "timer_env E T K" and "T0 \<le> T log" and "T log - T0 < 100"
    and "log' = es @ log" and "length es \<le> 6" and "ticks_reads es = 1"
    and "K * (T0 + 101) - ticks_reads log \<le> Suc n"
  shows "T0 \<le> T log'" "T log' \<le> T0 + 10000" "K * (T0 + 101) - ticks_reads log' \<le> n"
proof -
  have "T log \<le> T log'" "T log' \<le> T log + 6000"
    using timer_events [OF assms(1), of log es] assms(4,5) by auto
  then show "T0 \<le> T log'" "T log' \<le> T0 + 10000" "K * (T0 + 101) - ticks_reads log' \<le> n"
    using assms(2-) by auto
qed

lemma poll_timeout:
  assumes "timer_env E T K" and "T0 \<le> T log" and "T log \<le> T0 + 10000" and "K * (T0 + 101) - ticks_reads log \<le> 0"
  shows "\<not> env_ticks E log - of_nat T0 < 100"
proof -
  have "ticks_reads log < K * (T log + 1)" using timer_event(3) [OF assms(1)] .
  then have "K * (T0 + 101) < K * (T log + 1)" using assms(4) by simp
  then have "T0 + 101 < T log + 1" by (rule mult_less_cancel1 [THEN iffD1, THEN conjunct2])
  then show ?thesis using elapsed [OF assms(1,2)] assms(3) by simp
qed

lemma not_busy_loop_returns:
  assumes env: "timer_env E T K"
  shows "T0 \<le> T (io_log m) \<Longrightarrow> T (io_log m) \<le> T0 + 10000 \<Longrightarrow> K * (T0 + 101) - ticks_reads (io_log m) \<le> n \<Longrightarrow>
    \<exists>r. not_busy_loop E (of_nat T0) m = Some r"
proof (induction n arbitrary: m)
  case 0
  then show ?case using poll_timeout [OF env 0]
    by (subst not_busy_loop.simps) (simp add: get_current_ticks_def Let_def)
next
  case (Suc n)
  define m2 where "m2 = ata_io_wait E (snd (inb E 0x1f7 (snd (get_current_ticks E m))))"
  obtain es where es: "io_log m2 = es @ io_log m" "length es \<le> 6" "ticks_reads es = 1"
    by (rule that [of "take 6 (io_log m2)"])
      (simp_all add: m2_def ata_io_wait_def inb_def Let_def get_current_ticks_def log_event_def)
  show ?case
  proof (cases "T (io_log m) - T0 < 100")
    case True
    have "\<exists>r. not_busy_loop E (of_nat T0) m2 = Some r"
      using poll_step [OF env Suc.prems(1) True es Suc.prems(3)] Suc.IH by blast
    then show ?thesis by (subst not_busy_loop.simps) (simp add: split_def Let_def m2_def)
  next
    case False
    then have "\<not> env_ticks E (io_log m) - of_nat T0 < 100" using elapsed [OF env, of T0] Suc.prems by simp
    then show ?thesis by (subst not_busy_loop.simps) (simp add: get_current_ticks_def Let_def)
  qed
qed

lemma dma_loop_returns:
  assumes env: "timer_env E T K"
  shows "T0 \<le> T (io_log m) \<Longrightarrow> T (io_log m) \<le> T0 + 10000 \<Longrightarrow> K * (T0 + 101) - ticks_reads (io_log m) \<le> n \<Longrightarrow>
    \<exists>r. dma_loop E k (of_nat T0) m = Some r"
proof (induction n arbitrary: m)
  case 0
  then show ?case using poll_timeout [OF env 0]
    by (subst dma_loop.simps) (simp add: get_current_ticks_def Let_def)
next
  case (Suc n)
  define m2 where "m2 = snd (inb E (bm_base k + 2) (snd (inb E 0x1f7 (snd (get_current_ticks E m)))))"
  obtain es where es: "io_log m2 = es @ io_log m" "length es \<le> 6" "ticks_reads es = 1"
    by (rule that [of "take 3 (io_log m2)"])
      (simp_all add: m2_def inb_def Let_def get_current_ticks_def log_event_def)
  show ?case
  proof (cases "T (io_log m) - T0 < 100")
    case True
    have "\<exists>r. dma_loop E k (of_nat T0) m2 = Some r"
      using poll_step [OF env Suc.prems(1) True es Suc.prems(3)] Suc.IH by blast
    then show ?thesis by (subst dma_loop.simps) (simp add: split_def Let_def m2_def)
  next
    case False
    then have "\<not> env_ticks E (io_log m) - of_nat T0 < 100" using elapsed [OF env, of T0] Suc.prems by simp
    then show ?thesis by (subst dma_loop.simps) (simp add: get_current_ticks_def Let_def)
  qed
qed

lemma waits_return:
  assumes "timer_env E T K"
  shows "\<exists>r m'. ata_wait4_not_busy E m = Some (r, m')" "\<exists>r m'. ata_wait4_dma E k m = Some (r, m')"
proof -
  let ?m = "snd (get_current_ticks E m)"
  have t: "fst (get_current_ticks E m) = of_nat (T (io_log m))"
    using assms by (simp add: get_current_ticks_def timer_env_def Let_def)
  have "T (io_log m) \<le> T (io_log ?m)" "T (io_log ?m) \<le> T (io_log m) + 10000"
    using timer_events [OF assms, of "io_log m" "[Ticks_read (env_ticks E (io_log m))]"]
    by (simp_all add: get_current_ticks_def log_event_def Let_def)
  from not_busy_loop_returns [OF assms this order_refl] dma_loop_returns [OF assms this order_refl, of k]
  show "\<exists>r m'. ata_wait4_not_busy E m = Some (r, m')" "\<exists>r m'. ata_wait4_dma E k m = Some (r, m')"
    by (simp_all add: ata_wait4_not_busy_def ata_wait4_dma_def split_def Let_def t)
qed

section \<open>The programmed transfer\<close>

text \<open>The sector address and count that the drive's registers hold.\<close>

definition port_byte :: "u16 \<Rightarrow> io_event list \<Rightarrow> u8" where
  "port_byte p log = (case last_out p log of Some v \<Rightarrow> v | None \<Rightarrow> 0)"

definition prog_lba :: "io_event list \<Rightarrow> u32" where
  "prog_lba log = ucast (port_byte 0x1f3 log) OR push_bit 8 (ucast (port_byte 0x1f4 log))
     OR push_bit 16 (ucast (port_byte 0x1f5 log)) OR push_bit 24 (ucast (port_byte 0x1f6 log AND 0xf))"

definition sectors_of :: "(nat \<Rightarrow> u8 list) \<Rightarrow> nat \<Rightarrow> nat \<Rightarrow> u8 list" where
  "sectors_of img lba n = concat (map img [lba..<lba + n])"

text \<open>
  The contract of the drive: sectors have 512 bytes, and when the last command is a DMA read
  the data delivered are the sectors that the registers name.
\<close>

definition ata_env :: "env \<Rightarrow> (nat \<Rightarrow> u8 list) \<Rightarrow> bool" where
  "ata_env E img \<longleftrightarrow> (\<forall>n. length (img n) = DISK_SECTOR_SIZE)
     \<and> (\<forall>log. port_byte 0x1f7 log = ATA_COMMAND_DMA_READ \<longrightarrow>
          env_dma E log = sectors_of img (unat (prog_lba log)) (unat (port_byte 0x1f2 log)))"

text \<open>The bus-master ports are not the drive's own registers.\<close>

definition bm_apart :: "disk \<Rightarrow> bool" where
  "bm_apart k \<longleftrightarrow> {bm_base k, bm_base k + 2} \<inter> {0x1f0, 0x1f1, 0x1f2, 0x1f3, 0x1f4, 0x1f5, 0x1f6, 0x1f7} = {}"

lemma length_sectors_of:
  "(\<And>i. length (img i) = DISK_SECTOR_SIZE) \<Longrightarrow> length (sectors_of img lba n) = n * DISK_SECTOR_SIZE"
  by (simp add: sectors_of_def length_concat comp_def sum_list_triv)

lemma sectors_of_append: "sectors_of img lba (a + b) = sectors_of img lba a @ sectors_of img (lba + a) b"
proof -
  have "[lba..<lba + (a + b)] = [lba..<lba + a] @ [lba + a..<lba + a + b]"
    by (metis add.assoc le_add1 upt_add_eq_append)
  then show ?thesis by (simp add: sectors_of_def)
qed

lemma lba_bits:
  assumes "unat (lba :: u32) < 2 ^ 28"
  shows "ucast (ucast lba :: u8) OR push_bit 8 (ucast (ucast (drop_bit 8 lba) :: u8))
     OR push_bit 16 (ucast (ucast (drop_bit 16 lba) :: u8))
     OR push_bit 24 (ucast (ucast (0xe0 OR (drop_bit 24 lba AND 0xf)) AND 0xf :: u8)) = lba"
proof (rule bit_word_eqI)
  have "take_bit 28 lba = lba" using assms by (simp add: word_unat_eq_iff unsigned_take_bit_eq take_bit_nat_eq_self)
  then have high: "\<not> bit lba n" if "28 \<le> n" for n using that by (metis bit_take_bit_iff not_le)
  have e0: "\<not> bit (0xe0 :: int) n" if "n < 4" for n
    using that by (auto simp: less_Suc_eq numeral_eq_Suc)
  fix n
  assume "n < LENGTH(32)"
  then consider "n < 8" | "8 \<le> n" "n < 16" | "16 \<le> n" "n < 24" | "24 \<le> n" "n < 28" | "28 \<le> n" "n < 32" by force
  then show "bit ((ucast (ucast lba :: u8) :: u32) OR push_bit 8 (ucast (ucast (drop_bit 8 lba) :: u8))
     OR push_bit 16 (ucast (ucast (drop_bit 16 lba) :: u8))
     OR push_bit 24 (ucast (ucast (0xe0 OR (drop_bit 24 lba AND 0xf)) AND 0xf :: u8))) n = bit lba n"
    by cases (auto simp: bit_simps bit_nibbles high e0)
qed

lemma last_out_io_wait [simp]: "last_out p (io_log (ata_io_wait E m)) = last_out p (io_log m)"
  by (simp add: ata_io_wait_def)

lemma program_transfer_ports:
  assumes "bm_apart k"
  shows "last_out 0x1f7 (io_log (program_transfer E L k lba sectors w m)) = Some (if w \<noteq> 0 then 0xca else 0xc8)"
    "last_out 0x1f2 (io_log (program_transfer E L k lba sectors w m)) = Some sectors"
    "last_out 0x1f3 (io_log (program_transfer E L k lba sectors w m)) = Some (ucast lba)"
    "last_out 0x1f4 (io_log (program_transfer E L k lba sectors w m)) = Some (ucast (drop_bit 8 lba))"
    "last_out 0x1f5 (io_log (program_transfer E L k lba sectors w m)) = Some (ucast (drop_bit 16 lba))"
    "last_out 0x1f6 (io_log (program_transfer E L k lba sectors w m)) =
       Some (ucast (0xe0 OR (drop_bit 24 lba AND 0xf)))"
  using assms by (simp_all add: bm_apart_def program_transfer_def split_def Let_def ata_set_lba28_def)

lemma program_transfer_lba:
  assumes "bm_apart k" and "unat lba < 2 ^ 28" and "only_reads (program_transfer E L k lba sectors w m) m'"
  shows "prog_lba (io_log m') = lba" "port_byte 0x1f2 (io_log m') = sectors"
    "port_byte 0x1f7 (io_log m') = (if w \<noteq> 0 then 0xca else 0xc8)"
proof -
  have *: "last_out p (io_log m') = last_out p (io_log (program_transfer E L k lba sectors w m))" for p
    using assms(3) by (simp add: only_reads_def)
  show "prog_lba (io_log m') = lba"
    using lba_bits [OF assms(2)] by (simp add: prog_lba_def port_byte_def * program_transfer_ports [OF assms(1)])
  show "port_byte 0x1f2 (io_log m') = sectors" "port_byte 0x1f7 (io_log m') = (if w \<noteq> 0 then 0xca else 0xc8)"
    by (simp_all add: port_byte_def * program_transfer_ports [OF assms(1)])
qed

lemma finish_transfer_disk: "finish_transfer E w k m = Some (r, k', m') \<Longrightarrow> k' = k"
  by (auto simp: finish_transfer_def Let_def split_def split: option.splits if_splits)

lemma sectors_bound: "(s :: u8) \<noteq> 0 \<Longrightarrow> \<not> s > 8 \<Longrightarrow> 0 < unat s \<and> unat s \<le> 8"
  by (simp add: word_less_nat_alt unat_gt_0)

lemma bm_base_update [simp]:
  "bm_base (k\<lparr>primary_prdt := x\<rparr>) = bm_base k" "bm_base (k\<lparr>dma_buffer := b\<rparr>) = bm_base k"
  by (simp_all add: bm_base_def)

lemma bm_apart_update [simp]:
  "bm_apart (k\<lparr>primary_prdt := x\<rparr>) = bm_apart k" "bm_apart (k\<lparr>dma_buffer := b\<rparr>) = bm_apart k"
  by (simp_all add: bm_apart_def)

lemma ata_dma_read:
  assumes "ata_env E img" and "bm_apart k" and "unat lba < 2 ^ 28" and "length (dma_buffer k) = 4096"
    and "ata_dma_transfer E L lba sectors 0 k m = Some (r, k', m')"
  shows "bm_base k' = bm_base k \<and> length (dma_buffer k') = 4096
    \<and> (r \<noteq> 0 \<longrightarrow> take (unat sectors * DISK_SECTOR_SIZE) (dma_buffer k') = sectors_of img (unat lba) (unat sectors))"
proof (cases "sectors = 0 \<or> sectors > 8")
  case True
  then show ?thesis using assms(4,5) by (auto simp: ata_dma_transfer_def)
next
  case False
  then have n: "unat sectors \<le> 8" using sectors_bound by blast
  let ?k = "k\<lparr>primary_prdt := \<lparr>buffer_phys_addr = kernel_phys_ptr (sym_dma_buffer L),
                  transfer_bytes = ucast sectors * of_nat DISK_SECTOR_SIZE, prdt_reserved = PRDT_END\<rparr>\<rparr>"
  obtain r1 m1 where w1: "ata_wait4_not_busy E m = Some (r1, m1)"
    using assms(5) False by (auto simp: ata_dma_transfer_def Let_def split: option.splits)
  show ?thesis
  proof (cases "r1 = 0")
    case True
    then show ?thesis using assms(4,5) False w1 by (auto simp: ata_dma_transfer_def)
  next
    case r1: False
    let ?m = "program_transfer E L ?k lba sectors 0 m1"
    obtain r2 m2 where w2: "ata_wait4_dma E ?k ?m = Some (r2, m2)"
      using assms(5) False w1 r1 by (auto simp: ata_dma_transfer_def Let_def split: option.splits)
    show ?thesis
    proof (cases "r2 = 0")
      case True
      then show ?thesis using assms(4,5) False w1 w2 r1 by (auto simp: ata_dma_transfer_def Let_def)
    next
      case r2: False
      have apart: "bm_apart ?k" using assms(2) by simp
      note regs = program_transfer_lba [OF apart assms(3) wait_reads(2) [OF w2]]
      have data: "env_dma E (io_log m2) = sectors_of img (unat lba) (unat sectors)"
        using assms(1) regs by (simp add: ata_env_def)
      have len: "length (sectors_of img (unat lba) (unat sectors)) = unat sectors * DISK_SECTOR_SIZE"
        using assms(1) by (intro length_sectors_of) (simp add: ata_env_def)
      have "finish_transfer E 0 (?k\<lparr>dma_buffer := sectors_of img (unat lba) (unat sectors)
            @ drop (unat sectors * DISK_SECTOR_SIZE) (dma_buffer k)\<rparr>) m2 = Some (r, k', m')"
        using assms(5) False w1 w2 r1 r2 by (simp add: ata_dma_transfer_def Let_def dma_effect_def data len)
      from finish_transfer_disk [OF this] show ?thesis using assms(4) n by (simp add: len)
    qed
  qed
qed

lemma finish_transfer_returns: "timer_env E T K \<Longrightarrow> \<exists>r m'. finish_transfer E w k m = Some (r, k, m')"
proof -
  assume env: "timer_env E T K"
  have "\<exists>x. finish_transfer E w k m = Some x"
    using waits_return(1) [OF env]
    by (auto simp: finish_transfer_def Let_def split_def split: option.split)
      (metis option.distinct(1))+
  then show ?thesis using finish_transfer_disk by (metis prod_cases3)
qed

lemma ata_dma_transfer_returns: "timer_env E T K \<Longrightarrow> \<exists>r k' m'. ata_dma_transfer E L lba sectors w k m = Some (r, k', m')"
proof -
  assume env: "timer_env E T K"
  have "\<exists>x. ata_dma_transfer E L lba sectors w k m = Some x"
    using waits_return [OF env] finish_transfer_returns [OF env]
    by (auto simp: ata_dma_transfer_def Let_def split_def split: option.split)
      (metis option.distinct(1))+
  then show ?thesis by (metis prod_cases3)
qed

section \<open>The driver is a block device\<close>

definition disk_inv :: "env \<Rightarrow> (io_event list \<Rightarrow> nat) \<Rightarrow> nat \<Rightarrow> (nat \<Rightarrow> u8 list) \<Rightarrow> disk \<times> machine \<Rightarrow> bool" where
  "disk_inv E T K img s \<longleftrightarrow> ata_env E img \<and> timer_env E T K \<and> bm_apart (fst s) \<and> length (dma_buffer (fst s)) = 4096"

lemma chunk_of_le: "unat (chunk_of r) \<le> unat r" "unat (chunk_of r) \<le> 8"
  by (auto simp: chunk_of_def word_less_nat_alt)

lemma unat_chunk_rest: "unat (r - chunk_of r) = unat r - unat (chunk_of r)"
  using chunk_of_le(1) [of r] by (simp add: unat_sub word_le_nat_alt)

lemma unat_lba_chunk:
  "unat (lba :: u32) + unat r \<le> 2 ^ 28 \<Longrightarrow> unat (lba + ucast (chunk_of r)) = unat lba + unat (chunk_of r)"
proof -
  assume *: "unat lba + unat r \<le> 2 ^ 28"
  then show ?thesis using chunk_of_le(1) [of r] by (simp add: unat_add_u32_nowrap)
qed

lemma bm_apart_cong: "bm_base k' = bm_base k \<Longrightarrow> bm_apart k' = bm_apart k"
  by (simp add: bm_apart_def)

lemma disk_read_stored:
  "disk_inv E T K img s \<Longrightarrow> unat lba + unat n \<le> 2 ^ 28 \<Longrightarrow>
   \<exists>r s'. disk_read E L lba n s = Some (r, s') \<and> disk_inv E T K img s' \<and> bm_base (fst s') = bm_base (fst s)
     \<and> (\<forall>bs. r = Inr bs \<longrightarrow> bs = sectors_of img (unat lba) (unat n))"
proof (induction E L lba n s rule: disk_read.induct)
  case (1 E L lba n k m)
  show ?case
  proof (cases "n = 0")
    case True
    then show ?thesis using "1.prems"(1) by (simp add: disk_read.simps sectors_of_def)
  next
    case False
    let ?c = "chunk_of n"
    have env: "ata_env E img" "timer_env E T K" "bm_apart k" "length (dma_buffer k) = 4096"
      using "1.prems"(1) by (simp_all add: disk_inv_def)
    obtain r k1 m1 where t: "ata_dma_transfer E L lba ?c 0 k m = Some (r, k1, m1)"
      using ata_dma_transfer_returns [OF env(2)] by blast
    have "0 < unat n" using False by (simp add: unat_gt_0)
    then have "unat lba < 2 ^ 28" using "1.prems"(2) by linarith
    note tr = ata_dma_read [OF env(1,3) this env(4) t]
    have inv1: "disk_inv E T K img (k1, m1)"
      using env tr bm_apart_cong [of k1 k] by (simp add: disk_inv_def)
    show ?thesis
    proof (cases "r = 0")
      case True
      then show ?thesis using False t tr inv1 by (simp add: disk_read.simps Let_def)
    next
      case ok: False
      have bound: "unat (lba + ucast ?c) + unat (n - ?c) \<le> 2 ^ 28"
        using "1.prems"(2) chunk_of_le(1) [of n] by (simp add: unat_lba_chunk unat_chunk_rest)
      obtain r2 s2 where rest: "disk_read E L (lba + ucast ?c) (n - ?c) (k1, m1) = Some (r2, s2)"
          "disk_inv E T K img s2" "bm_base (fst s2) = bm_base k1"
          "\<forall>bs. r2 = Inr bs \<longrightarrow> bs = sectors_of img (unat (lba + ucast ?c)) (unat (n - ?c))"
        using "1.IH" [OF False refl refl t refl refl ok refl inv1 bound] by auto
      have split: "sectors_of img (unat lba) (unat n) = sectors_of img (unat lba) (unat ?c)
          @ sectors_of img (unat (lba + ucast ?c)) (unat (n - ?c))"
        using sectors_of_append [of img "unat lba" "unat ?c" "unat n - unat ?c"] "1.prems"(2) chunk_of_le(1) [of n]
        by (simp add: unat_lba_chunk unat_chunk_rest)
      show ?thesis
        using False t ok tr rest by (cases r2) (auto simp: disk_read.simps [of E L lba n] Let_def split)
    qed
  qed
qed

interpretation disk_dev: block_device "disk_read E L" "disk_inv E T K img" "sectors_of img" False for E L T K img
proof
  show "\<exists>r s'. disk_read E L lba n s = Some (r, s') \<and> disk_inv E T K img s'
      \<and> (r = Inr (sectors_of img (unat lba) (unat n)) \<or> \<not> False \<and> isl r)"
    if "disk_inv E T K img s" "unat lba + unat n \<le> 2 ^ 28" for s lba n
    using disk_read_stored [OF that, of L] by (metis sum.collapse(2))
  show "length (sectors_of img a k) = k * 512" if "disk_inv E T K img s" for s a k
    using that by (intro length_sectors_of) (simp add: disk_inv_def ata_env_def)
qed

text \<open>A drive that is never busy or in error and whose bus master reports completion.\<close>

definition healthy_env :: "env \<Rightarrow> u16 \<Rightarrow> bool" where
  "healthy_env E b \<longleftrightarrow> (\<forall>log. env_inb E log 0x1f7 AND ATA_STATUS_BUSY = 0
     \<and> env_inb E log 0x1f7 AND (ATA_STATUS_ERROR OR ATA_STATUS_FAULT) = 0
     \<and> env_inb E log (b + 2) AND BM_STATUS_ERROR = 0 \<and> env_inb E log (b + 2) AND BM_STATUS_IRQ_COMPLETED \<noteq> 0)"

definition healthy_inv :: "env \<Rightarrow> (io_event list \<Rightarrow> nat) \<Rightarrow> nat \<Rightarrow> (nat \<Rightarrow> u8 list) \<Rightarrow> disk \<times> machine \<Rightarrow> bool" where
  "healthy_inv E T K img s \<longleftrightarrow> disk_inv E T K img s \<and> healthy_env E (bm_base (fst s))"

lemma first_poll:
  assumes "timer_env E T K"
  shows "fst (get_current_ticks E (snd (get_current_ticks E m))) - fst (get_current_ticks E m) < 100"
proof -
  let ?l = "Ticks_read (env_ticks E (io_log m)) # io_log m"
  have "T (io_log m) \<le> T ?l" "T ?l \<le> T (io_log m) + 10" using timer_event(1,2) [OF assms] by blast+
  moreover from this have "env_ticks E ?l - of_nat (T (io_log m)) < 100"
    using elapsed [OF assms, of "T (io_log m)" ?l] by simp
  moreover have "env_ticks E (io_log m) = of_nat (T (io_log m))" using assms by (simp add: timer_env_def)
  ultimately show ?thesis by (simp add: get_current_ticks_def log_event_def Let_def)
qed

lemma healthy_waits:
  assumes "timer_env E T K" and "healthy_env E (bm_base k)"
  shows "\<exists>m'. ata_wait4_not_busy E m = Some (1, m')" "\<exists>m'. ata_wait4_dma E k m = Some (1, m')"
  using assms(2) first_poll [OF assms(1), of m]
  by (simp_all add: ata_wait4_not_busy_def ata_wait4_dma_def split_def Let_def healthy_env_def
      not_busy_loop.simps [of E "fst (get_current_ticks E m)"]
      dma_loop.simps [of E k "fst (get_current_ticks E m)"] inb_def)

lemma healthy_finish:
  assumes "timer_env E T K" and "healthy_env E (bm_base k)"
  shows "\<exists>m'. finish_transfer E 0 k m = Some (1, k, m')"
proof -
  obtain m' where "ata_wait4_not_busy E (outb (bm_base k) 8 m) = Some (1, m')"
    using healthy_waits(1) [OF assms] by blast
  with assms(2) show ?thesis by (simp add: finish_transfer_def Let_def split_def inb_def healthy_env_def)
qed

lemma healthy_transfer:
  assumes "timer_env E T K" and "healthy_env E (bm_base k)" and "sectors \<noteq> 0" and "\<not> sectors > 8"
  shows "\<exists>k' m'. ata_dma_transfer E L lba sectors 0 k m = Some (1, k', m') \<and> bm_base k' = bm_base k"
proof -
  let ?k = "k\<lparr>primary_prdt := \<lparr>buffer_phys_addr = kernel_phys_ptr (sym_dma_buffer L),
                  transfer_bytes = ucast sectors * of_nat DISK_SECTOR_SIZE, prdt_reserved = PRDT_END\<rparr>\<rparr>"
  have h: "healthy_env E (bm_base ?k)" using assms(2) by simp
  obtain m1 where 1: "ata_wait4_not_busy E m = Some (1, m1)" using healthy_waits(1) [OF assms(1,2)] by blast
  obtain m2 where 2: "ata_wait4_dma E ?k (program_transfer E L ?k lba sectors 0 m1) = Some (1, m2)"
    using healthy_waits(2) [OF assms(1) h] by blast
  define k2 where "k2 = fst (dma_effect E sectors 0 ?k m2)"
  have k2: "bm_base k2 = bm_base k" by (simp add: k2_def dma_effect_def Let_def)
  then obtain m3 where "finish_transfer E 0 k2 m2 = Some (1, k2, m3)"
    using healthy_finish [OF assms(1)] assms(2) by metis
  then have "ata_dma_transfer E L lba sectors 0 k m = Some (1, k2, m3)"
    using 1 2 assms(3,4) by (simp add: ata_dma_transfer_def Let_def k2_def dma_effect_def)
  then show ?thesis using k2 by blast
qed

lemma disk_read_succeeds:
  "healthy_inv E T K img s \<Longrightarrow> unat lba + unat n \<le> 2 ^ 28 \<Longrightarrow>
   \<exists>s'. disk_read E L lba n s = Some (Inr (sectors_of img (unat lba) (unat n)), s') \<and> healthy_inv E T K img s'"
proof -
  assume *: "healthy_inv E T K img s" "unat lba + unat n \<le> 2 ^ 28"
  then have inv: "disk_inv E T K img s" by (simp add: healthy_inv_def)
  have "disk_read E L lba n s = Some (r, s') \<Longrightarrow> isl r \<Longrightarrow> False" for r s'
    using *
  proof (induction E L lba n s arbitrary: r s' rule: disk_read.induct)
    case (1 E L lba n k m)
    then have n: "n \<noteq> 0" by (auto simp: disk_read.simps)
    let ?c = "chunk_of n"
    have env: "ata_env E img" "timer_env E T K" "bm_apart k" "length (dma_buffer k) = 4096" "healthy_env E (bm_base k)"
      using "1.prems"(3) by (simp_all add: disk_inv_def healthy_inv_def)
    have c: "?c \<noteq> 0" "\<not> ?c > 8" using n by (auto simp: chunk_of_def)
    obtain k1 m1 where t: "ata_dma_transfer E L lba ?c 0 k m = Some (1, k1, m1)" "bm_base k1 = bm_base k"
      using healthy_transfer [OF env(2,5) c] by blast
    have "0 < unat n" using n by (simp add: unat_gt_0)
    then have "unat lba < 2 ^ 28" using "1.prems"(4) by linarith
    note tr = ata_dma_read [OF env(1,3) this env(4) t(1)]
    have inv1: "healthy_inv E T K img (k1, m1)"
      using env tr bm_apart_cong [of k1 k] t(2) by (simp add: disk_inv_def healthy_inv_def)
    have bound: "unat (lba + ucast ?c) + unat (n - ?c) \<le> 2 ^ 28"
      using "1.prems"(4) chunk_of_le(1) [of n] by (simp add: unat_lba_chunk unat_chunk_rest)
    obtain r2 where "disk_read E L (lba + ucast ?c) (n - ?c) (k1, m1) = Some (r2, s')" "isl r2"
      using "1.prems"(1,2) n t(1) by (auto simp: disk_read.simps [of E L lba n] Let_def isl_map_sum)
    then show ?case using "1.IH" [OF n refl refl t(1) refl refl _ refl _ _ inv1 bound] by simp
  qed
  then show ?thesis
    using disk_read_stored [OF inv *(2), of L] * by (auto simp: healthy_inv_def split: sum.splits)
      (metis isl_def sum.collapse(2) sum.exhaust_sel)
qed

interpretation healthy_disk: healthy_device "disk_read E L" "healthy_inv E T K img" "sectors_of img" for E L T K img
proof
  show "\<exists>r s'. disk_read E L lba n s = Some (r, s') \<and> healthy_inv E T K img s'
      \<and> (r = Inr (sectors_of img (unat lba) (unat n)) \<or> \<not> True \<and> isl r)"
    if "healthy_inv E T K img s" "unat lba + unat n \<le> 2 ^ 28" for s lba n
    using disk_read_succeeds [OF that, of L] by auto
  show "length (sectors_of img a k) = k * 512" if "healthy_inv E T K img s" for s a k
    using that disk_dev.stored_length by (metis healthy_inv_def)
qed

text \<open>A drive that stays busy.\<close>

lemma busy_loop_fails:
  assumes "\<And>log. env_inb E log 0x1f7 AND ATA_STATUS_BUSY \<noteq> 0" and "not_busy_loop E start m = Some r"
  shows "fst r = 0"
proof -
  have "\<And>log. env_inb E log 0x1f7 AND ATA_STATUS_BUSY \<noteq> 0 \<Longrightarrow> not_busy_loop E start m = Some r \<Longrightarrow>
      (\<forall>log. env_inb E log 0x1f7 AND ATA_STATUS_BUSY \<noteq> 0) \<longrightarrow> fst r = 0"
    by (rule not_busy_loop.raw_induct
        [rotated, where P = "\<lambda>E start m r. (\<forall>log. env_inb E log 0x1f7 AND ATA_STATUS_BUSY \<noteq> 0) \<longrightarrow> fst r = 0"])
      (auto simp: split_def Let_def inb_def split: if_splits)
  then show ?thesis using assms by blast
qed

section \<open>Properties\<close>


text \<open>A drive that holds a given image, and one whose sector \<open>n\<close> is filled with the low byte of \<open>n\<close>.\<close>

definition image_drive :: "(nat \<Rightarrow> u8 list) \<Rightarrow> env" where
  "image_drive img = \<lparr>env_inb = (\<lambda>log p. if p = 0xc042 then 4 else 0), env_inw = (\<lambda>_ _. 0), env_inl = (\<lambda>_ _. 0),
     env_ticks = (\<lambda>log. of_nat (length log)),
     env_dma = (\<lambda>log. sectors_of img (unat (prog_lba log)) (unat (port_byte 0x1f2 log)))\<rparr>"

definition sample_img :: "nat \<Rightarrow> u8 list" where
  "sample_img n = replicate 512 (of_nat n)"

definition sample_drive :: env where
  "sample_drive = image_drive sample_img"

definition sample_disk :: disk where
  "sample_disk = \<lparr>primary_prdt = \<lparr>buffer_phys_addr = 0, transfer_bytes = 0, prdt_reserved = 0\<rparr>,
     dma_buffer = replicate 4096 0, ide_dev = ide_sample\<rparr>"

lemma ticks_reads_le: "ticks_reads log \<le> length log"
  by (induction log rule: ticks_reads.induct) auto

lemma image_drive_inv:
  assumes "\<And>n. length (img n) = 512"
  shows "healthy_inv (image_drive img) length 1 img (sample_disk, m)"
proof -
  have "bm_base sample_disk = 0xc040" by (simp add: bm_base_def sample_disk_def ide_sample_def)
  then show ?thesis using assms
    by (simp add: healthy_inv_def disk_inv_def ata_env_def timer_env_def healthy_env_def bm_apart_def
        image_drive_def sample_disk_def ticks_reads_le le_imp_less_Suc)
qed

lemma sample_drive_inv: "healthy_inv sample_drive length 1 sample_img (sample_disk, m)"
  unfolding sample_drive_def by (rule image_drive_inv) (simp add: sample_img_def)


text \<open>
  Reading succeeds on a healthy drive: if the drive is never busy or in error and its bus
  master reports completion, the read returns success with exactly the stored bytes.
\<close>

theorem disk_read_healthy:
  assumes "healthy_inv E T K img s" and "unat lba + unat n \<le> 2 ^ 28"
  shows "\<exists>s'. disk_read E L lba n s = Some (Inr (sectors_of img (unat lba) (unat n)), s') \<and> healthy_inv E T K img s'"
  by (rule healthy_disk.rd_succeeds [OF assms])

theorem disk_read_healthy_witness:
  "\<exists>s'. disk_read sample_drive sample_symbols 2050 20 (sample_disk, boot_machine)
     = Some (Inr (sectors_of sample_img 2050 20), s')"
  using disk_read_healthy [OF sample_drive_inv [of boot_machine], of 2050 20 sample_symbols] by auto

text \<open>
  C35. A dead drive does not hang the kernel: if the busy bit never clears, a read of at least
  one sector returns failure after the time-out, with no byte stored and without having
  written any port.
\<close>

theorem disk_read_dead_drive:
  assumes "timer_env E T K" and "\<forall>log. env_inb E log 0x1f7 AND ATA_STATUS_BUSY \<noteq> 0" and "n \<noteq> 0"
  shows "\<exists>k' m'. disk_read E L lba n (k, m) = Some (Inl [], k', m') \<and> only_reads m m'"
proof -
  obtain r m1 where w: "ata_wait4_not_busy E m = Some (r, m1)" using waits_return(1) [OF assms(1)] by blast
  then have "not_busy_loop E (fst (get_current_ticks E m)) (snd (get_current_ticks E m)) = Some (r, m1)"
    by (simp add: ata_wait4_not_busy_def split_def Let_def)
  from busy_loop_fails [OF _ this] have "r = 0" using assms(2) by simp
  moreover have "chunk_of n \<noteq> 0" "\<not> chunk_of n > 8" using assms(3) by (auto simp: chunk_of_def)
  ultimately show ?thesis
    using assms(3) w wait_reads(1) [OF w] by (simp add: disk_read.simps Let_def ata_dma_transfer_def)
qed

theorem disk_read_dead_drive_witness:
  "\<exists>k m. disk_read (sample_drive\<lparr>env_inb := (\<lambda>_ _. 0xff)\<rparr>) sample_symbols 2050 2 (sample_disk, boot_machine)
     = Some (Inl [], k, m)"
proof -
  have "timer_env (sample_drive\<lparr>env_inb := (\<lambda>_ _. 0xff)\<rparr>) length 1"
    by (simp add: timer_env_def sample_drive_def image_drive_def ticks_reads_le le_imp_less_Suc)
  from disk_read_dead_drive [OF this, of 2 sample_symbols 2050 sample_disk boot_machine]
  show ?thesis by auto
qed

text \<open>
  Programming a transfer: for a sector address below \<open>2 ^ 28\<close> the drive's registers hold
  the address, the count and the DMA command when the wait for completion begins, and the
  command is the last byte written to any port; a count of zero or above eight is refused
  without touching the hardware.
\<close>

theorem transfer_programs_drive:
  assumes "bm_apart k" and "unat lba < 2 ^ 28"
  shows "let log = io_log (program_transfer E L k lba sectors w m) in
      prog_lba log = lba \<and> port_byte 0x1f2 log = sectors
      \<and> hd log = Outb 0x1f7 (if w \<noteq> 0 then ATA_COMMAND_DMA_WRITE else ATA_COMMAND_DMA_READ)
      \<and> (sectors = 0 \<or> 8 < sectors \<longrightarrow> ata_dma_transfer E L lba sectors w k m = Some (0, k, m))"
proof -
  have "hd (io_log (program_transfer E L k lba sectors w m)) =
      Outb 0x1f7 (if w \<noteq> 0 then ATA_COMMAND_DMA_WRITE else ATA_COMMAND_DMA_READ)"
    by (simp add: program_transfer_def Let_def split_def outb_def)
  then show ?thesis
    using program_transfer_lba(1,2) [OF assms only_reads_refl] by (simp add: Let_def ata_dma_transfer_def)
qed

theorem transfer_programs_drive_witness:
  "prog_lba (io_log (program_transfer sample_drive sample_symbols sample_disk 0x1234567 8 0 boot_machine)) = 0x1234567"
proof -
  have "bm_apart sample_disk"
    using sample_drive_inv [of boot_machine] by (simp add: healthy_inv_def disk_inv_def)
  from transfer_programs_drive [OF this, of "0x1234567" sample_drive sample_symbols 8 0 boot_machine]
  show ?thesis by (simp add: Let_def)
qed

end
