(* ===== verification/Heap.thy ===== *)
theory Heap
  imports Console
begin

text \<open>
  The kernel heap, \<^verbatim>\<open>kernel/heap.c\<close>: a first-fit allocator over one static array, its
  blocks linked by headers that lie in the array itself. The headers are a partial map
  from addresses to header records; an address outside its domain holds payload, and
  following it has no defined result. Loops over the header list are
  \<^theory_text>\<open>partial_function (option)\<close>, so that \<open>None\<close> stands for a loop that does not
  end or a pointer to no header; that neither happens is proved.

  The specification is a list of blocks (size, free), laid out back to back from the start
  of the array. \<open>rep_heap\<close> lays such a list out as headers, \<open>first_fit\<close>,
  \<open>release\<close> and \<open>merge\<close> work on the list, and the refinement lemmas
  \<open>kmalloc_rep\<close> and \<open>kfree_rep\<close> say that the pointer code computes the same.
\<close>

section \<open>Model\<close>

abbreviation KERNEL_HEAP_SIZE :: u32 where "KERNEL_HEAP_SIZE \<equiv> 65536"
abbreviation SIZEOF_HEAP_BLOCK :: u32 where "SIZEOF_HEAP_BLOCK \<equiv> 12"

record heap_block =
  hb_size :: u32
  hb_is_free :: u8
  hb_next :: u32

record heap =
  heap_head :: u32
  headers :: "u32 \<rightharpoonup> heap_block"

definition init_heap_blocks :: "u32 \<Rightarrow> heap" where
  "init_heap_blocks kernel_heap =
     \<lparr>heap_head = kernel_heap,
      headers = [kernel_heap \<mapsto> \<lparr>hb_size = KERNEL_HEAP_SIZE - SIZEOF_HEAP_BLOCK, hb_is_free = 1, hb_next = 0\<rparr>]\<rparr>"

definition init_heap :: "u32 \<Rightarrow> machine \<Rightarrow> (u8 \<times> heap) \<times> machine" where
  "init_heap kernel_heap m =
     (let m = print ''Setting up kernel heap space ... '' m;
          h = init_heap_blocks kernel_heap;
          m = println ''Done'' m
      in ((1, h), m))"

definition split_block :: "u32 \<Rightarrow> u32 \<Rightarrow> heap \<Rightarrow> heap option" where
  "split_block block sz h =
     (case headers h block of
        None \<Rightarrow> None
      | Some b \<Rightarrow>
          if hb_size b < sz + SIZEOF_HEAP_BLOCK + 8 then Some h
          else let new_block = block + SIZEOF_HEAP_BLOCK + sz in
            Some (h\<lparr>headers := (headers h)
              (new_block \<mapsto> \<lparr>hb_size = hb_size b - sz - SIZEOF_HEAP_BLOCK, hb_is_free = 1, hb_next = hb_next b\<rparr>,
               block \<mapsto> b\<lparr>hb_size := sz, hb_next := new_block\<rparr>)\<rparr>))"

definition heap_align_up :: "u32 \<Rightarrow> u32" where
  "heap_align_up sz = (sz + 0x7) AND 0xfffffff8"

definition set_is_free :: "u32 \<Rightarrow> u8 \<Rightarrow> heap \<Rightarrow> heap option" where
  "set_is_free block v h =
     map_option (\<lambda>b. h\<lparr>headers := (headers h)(block \<mapsto> b\<lparr>hb_is_free := v\<rparr>)\<rparr>) (headers h block)"

partial_function (option) kmalloc_scan :: "u32 \<Rightarrow> u32 \<Rightarrow> heap \<Rightarrow> (u32 \<times> heap) option" where
  "kmalloc_scan sz block h =
     (if block = 0 then Some (0, h)
      else case headers h block of
        None \<Rightarrow> None
      | Some b \<Rightarrow>
          if hb_is_free b \<noteq> 0 \<and> hb_size b \<ge> sz
          then (case split_block block sz h of
                  None \<Rightarrow> None
                | Some h \<Rightarrow> map_option (Pair (block + SIZEOF_HEAP_BLOCK)) (set_is_free block 0 h))
          else kmalloc_scan sz (hb_next b) h)"

definition kmalloc :: "u32 \<Rightarrow> heap \<Rightarrow> (u32 \<times> heap) option" where
  "kmalloc sz h = kmalloc_scan (heap_align_up sz) (heap_head h) h"

text \<open>
  Absorbing a block turns its header into payload of the block before it, so the address
  leaves the domain of \<open>headers\<close>.
\<close>

partial_function (option) coalesce_from :: "u32 \<Rightarrow> heap \<Rightarrow> heap option" where
  "coalesce_from block h =
     (if block = 0 then Some h
      else case headers h block of
        None \<Rightarrow> None
      | Some b \<Rightarrow>
          if hb_next b = 0 then Some h
          else if hb_is_free b = 0 then coalesce_from (hb_next b) h
          else case headers h (hb_next b) of
            None \<Rightarrow> None
          | Some n \<Rightarrow>
              if hb_is_free n \<noteq> 0 \<and> block + SIZEOF_HEAP_BLOCK + hb_size b = hb_next b
              then coalesce_from block (h\<lparr>headers := (headers h)(hb_next b := None,
                     block \<mapsto> b\<lparr>hb_size := hb_size b + (SIZEOF_HEAP_BLOCK + hb_size n), hb_next := hb_next n\<rparr>)\<rparr>)
              else coalesce_from (hb_next b) h)"

definition coalesce_free_blocks :: "heap \<Rightarrow> heap option" where
  "coalesce_free_blocks h = coalesce_from (heap_head h) h"

definition kfree :: "u32 \<Rightarrow> heap \<Rightarrow> heap option" where
  "kfree data_ptr h =
     (case set_is_free (data_ptr - SIZEOF_HEAP_BLOCK) 1 h of
        None \<Rightarrow> None
      | Some h \<Rightarrow> coalesce_free_blocks h)"

section \<open>Block lists\<close>

type_synonym blocks = "(nat \<times> bool) list"

fun span :: "blocks \<Rightarrow> nat" where
  "span [] = 0"
| "span ((n, f) # bs) = 12 + n + span bs"

lemma span_append [simp]: "span (as @ bs) = span as + span bs"
  by (induction as rule: span.induct) auto

definition next_ptr :: "nat \<Rightarrow> blocks \<Rightarrow> u32" where
  "next_ptr a bs = (if bs = [] then 0 else of_nat a)"

definition header :: "nat \<Rightarrow> bool \<Rightarrow> u32 \<Rightarrow> heap_block" where
  "header n f p = \<lparr>hb_size = of_nat n, hb_is_free = (if f then 1 else 0), hb_next = p\<rparr>"

fun lay_out :: "nat \<Rightarrow> blocks \<Rightarrow> (u32 \<rightharpoonup> heap_block)" where
  "lay_out a [] = Map.empty"
| "lay_out a ((n, f) # bs) =
     (lay_out (a + 12 + n) bs)(of_nat a \<mapsto> header n f (next_ptr (a + 12 + n) bs))"

definition rep_heap :: "nat \<Rightarrow> blocks \<Rightarrow> heap" where
  "rep_heap a bs = \<lparr>heap_head = next_ptr a bs, headers = lay_out a bs\<rparr>"

text \<open>A block list fits at an address when it stays inside the 32-bit address space.\<close>

definition fits :: "nat \<Rightarrow> blocks \<Rightarrow> bool" where
  "fits a bs \<longleftrightarrow> 0 < a \<and> a + span bs < 4294967296"

fun first_fit :: "nat \<Rightarrow> blocks \<Rightarrow> (nat \<times> blocks) option" where
  "first_fit s [] = None"
| "first_fit s ((n, f) # bs) =
     (if f \<and> s \<le> n
      then Some (12, if n < s + 20 then (n, False) # bs else (s, False) # (n - s - 12, True) # bs)
      else map_option (\<lambda>(off, bs'). (12 + n + off, (n, f) # bs')) (first_fit s bs))"

fun release :: "nat \<Rightarrow> blocks \<Rightarrow> blocks option" where
  "release off [] = None"
| "release off ((n, f) # bs) =
     (if off = 0 then Some ((n, True) # bs)
      else if off < 12 + n then None
      else map_option ((#) (n, f)) (release (off - (12 + n)) bs))"

fun merge :: "blocks \<Rightarrow> blocks" where
  "merge [] = []"
| "merge [b] = [b]"
| "merge ((n, f) # (k, g) # bs) =
     (if f \<and> g then merge ((n + (12 + k), True) # bs) else (n, f) # merge ((k, g) # bs))"


lemma fits_Cons: "fits a ((n, f) # bs) \<Longrightarrow> fits (a + 12 + n) bs"
  by (simp add: fits_def)

lemma fits_append: "fits a (pre @ bs) \<Longrightarrow> fits (a + span pre) bs"
  by (simp add: fits_def)

lemma next_ptr_append [simp]: "next_ptr a (pre @ b # bs) = of_nat a"
  by (simp add: next_ptr_def)

lemma next_ptr_Nil [simp]: "next_ptr a [] = 0" and next_ptr_Cons [simp]: "next_ptr a (b # bs) = of_nat a"
  by (simp_all add: next_ptr_def)

lemma lay_out_bounds:
  "fits a bs \<Longrightarrow> x < 4294967296 \<Longrightarrow> lay_out a bs (of_nat x) \<noteq> None \<Longrightarrow> a \<le> x \<and> x < a + span bs"
proof (induction a bs rule: lay_out.induct)
  case (2 a n f bs)
  have a: "a < 4294967296" using "2.prems"(1) by (simp add: fits_def)
  show ?case
  proof (cases "x = a")
    case False
    then have "lay_out (a + 12 + n) bs (of_nat x) \<noteq> None"
      using "2.prems" a by (simp add: of_nat_u32_eq_iff)
    then show ?thesis using "2.IH" "2.prems" fits_Cons by fastforce
  qed simp
qed simp

lemma lay_out_before: "fits a bs \<Longrightarrow> x < a \<Longrightarrow> a \<le> 4294967296 \<Longrightarrow> lay_out a bs (of_nat x) = None"
  using lay_out_bounds [of a bs x] by fastforce

lemma lay_out_at:
  assumes "fits a (pre @ (n, f) # bs)"
  shows "lay_out a (pre @ (n, f) # bs) (of_nat (a + span pre))
      = Some (header n f (next_ptr (a + span pre + 12 + n) bs))"
  using assms
proof (induction pre arbitrary: a)
  case (Cons b pre)
  obtain k g where b: "b = (k, g)" by fastforce
  have "(of_nat (a + span (b # pre)) :: u32) \<noteq> of_nat a"
    using Cons.prems by (subst of_nat_u32_eq_iff) (auto simp: fits_def b)
  then show ?case
    using Cons.IH [of "a + 12 + k"] Cons.prems by (simp add: b fits_def ac_simps)
qed simp

text \<open>
  The header updates of the code are changes of one block of the list: the prefix before
  it is untouched.
\<close>

fun lay_prefix :: "nat \<Rightarrow> blocks \<Rightarrow> u32 \<Rightarrow> (u32 \<rightharpoonup> heap_block)" where
  "lay_prefix a [] p = Map.empty"
| "lay_prefix a ((n, f) # bs) p =
     (lay_prefix (a + 12 + n) bs p)(of_nat a \<mapsto> header n f (if bs = [] then p else of_nat (a + 12 + n)))"

lemma lay_out_append:
  "lay_out a (pre @ bs) = lay_out (a + span pre) bs ++ lay_prefix a pre (next_ptr (a + span pre) bs)"
proof (induction pre arbitrary: a)
  case (Cons b pre)
  obtain n f where b: "b = (n, f)" by fastforce
  show ?case
    using Cons [of "a + 12 + n"]
    by (cases "pre = []"; cases "bs = []")
      (simp_all add: b next_ptr_def add.assoc fun_eq_iff map_add_def)
qed simp

lemma lay_prefix_outside:
  "0 < a \<Longrightarrow> a + span pre \<le> x \<Longrightarrow> x < 4294967296 \<Longrightarrow> lay_prefix a pre p (of_nat x) = None"
proof (induction a pre p rule: lay_prefix.induct)
  case (2 a n f bs p)
  then have "(of_nat x :: u32) \<noteq> of_nat a" by (subst of_nat_u32_eq_iff) auto
  with "2" show ?case by (simp add: ac_simps)
qed simp

lemma map_add_upd_outside: "p x = None \<Longrightarrow> (m ++ p)(x := u) = m(x := u) ++ p"
  by (auto simp: fun_eq_iff map_add_def split: option.split)

lemma lay_out_upd_suffix:
  assumes "fits a (pre @ b # bs)" and "a + span pre \<le> x" and "x < 4294967296"
  shows "(m ++ lay_prefix a pre p)(of_nat x := u) = m(of_nat x := u) ++ lay_prefix a pre p"
  using assms by (intro map_add_upd_outside lay_prefix_outside) (auto simp: fits_def)

lemma lay_out_set_free:
  assumes fit: "fits a (pre @ (n, f) # bs)"
  shows "(lay_out a (pre @ (n, f) # bs))
      (of_nat (a + span pre) \<mapsto> header n g (next_ptr (a + span pre + 12 + n) bs))
      = lay_out a (pre @ (n, g) # bs)"
proof -
  have "a + span pre < 4294967296" using fit by (simp add: fits_def)
  then show ?thesis
    unfolding lay_out_append by (simp add: lay_out_upd_suffix [OF fit] del: of_nat_add)
qed

lemma lay_out_split:
  assumes fit: "fits a (pre @ (n, f) # bs)" and room: "s + 12 \<le> n"
  shows "(lay_out a (pre @ (n, f) # bs))
      (of_nat (a + span pre + 12 + s) \<mapsto> header (n - s - 12) True (next_ptr (a + span pre + 12 + n) bs),
       of_nat (a + span pre) \<mapsto> header s f (of_nat (a + span pre + 12 + s)))
      = lay_out a (pre @ (s, f) # (n - s - 12, True) # bs)"
proof -
  have lt: "a + span pre < 4294967296" "a + span pre + 12 + s < 4294967296"
    using fit room by (simp_all add: fits_def)
  have ne: "(of_nat (a + span pre) :: u32) \<noteq> of_nat (a + span pre + 12 + s)"
    using lt by (subst of_nat_u32_eq_iff) auto
  have addr: "a + span pre + 12 + s + 12 + (n - s - 12) = a + span pre + 12 + n" using room by simp
  have "(lay_out (a + span pre) ((n, f) # bs))
      (of_nat (a + span pre + 12 + s) \<mapsto> header (n - s - 12) True (next_ptr (a + span pre + 12 + n) bs),
       of_nat (a + span pre) \<mapsto> header s f (of_nat (a + span pre + 12 + s)))
     = lay_out (a + span pre) ((s, f) # (n - s - 12, True) # bs)"
    unfolding lay_out.simps addr using ne by (auto simp: fun_eq_iff simp del: of_nat_add)
  then show ?thesis
    unfolding lay_out_append
    by (simp add: lay_out_upd_suffix [OF fit] lt del: of_nat_add lay_out.simps)
qed

lemma lay_out_absorb:
  assumes fit: "fits a (pre @ (n, True) # (k, True) # bs)"
  shows "(lay_out a (pre @ (n, True) # (k, True) # bs))
      (of_nat (a + span pre + 12 + n) := None,
       of_nat (a + span pre) \<mapsto> header (n + (12 + k)) True (next_ptr (a + span pre + 12 + n + 12 + k) bs))
      = lay_out a (pre @ (n + (12 + k), True) # bs)"
proof -
  have lt: "a + span pre < 4294967296" "a + span pre + 12 + n < 4294967296"
    using fit by (simp_all add: fits_def)
  have ne: "(of_nat (a + span pre) :: u32) \<noteq> of_nat (a + span pre + 12 + n)"
    using lt by (subst of_nat_u32_eq_iff) auto
  have fresh: "lay_out (a + span pre + 12 + n + 12 + k) bs (of_nat (a + span pre + 12 + n)) = None"
    using fit by (intro lay_out_before) (simp_all add: fits_def)
  have addr: "a + span pre + 12 + (n + (12 + k)) = a + span pre + 12 + n + 12 + k" by simp
  have "(lay_out (a + span pre) ((n, True) # (k, True) # bs))
      (of_nat (a + span pre + 12 + n) := None,
       of_nat (a + span pre) \<mapsto> header (n + (12 + k)) True (next_ptr (a + span pre + 12 + n + 12 + k) bs))
     = lay_out (a + span pre) ((n + (12 + k), True) # bs)"
    unfolding lay_out.simps addr using ne fresh by (auto simp: fun_eq_iff simp del: of_nat_add)
  then show ?thesis
    unfolding lay_out_append
    by (simp add: lay_out_upd_suffix [OF fit] lt del: of_nat_add lay_out.simps)
qed


section \<open>Refinement\<close>

lemma header_sel [simp]:
  "hb_size (header n f p) = of_nat n" "hb_next (header n f p) = p"
  "hb_is_free (header n f p) = 0 \<longleftrightarrow> \<not> f"
  by (simp_all add: header_def)

lemma header_upd [simp]:
  "(header n f p)\<lparr>hb_is_free := (if g then 1 else 0)\<rparr> = header n g p"
  "(header n f p)\<lparr>hb_is_free := 0\<rparr> = header n False p"
  "(header n f p)\<lparr>hb_is_free := 1\<rparr> = header n True p"
  "(header n f p)\<lparr>hb_size := of_nat k, hb_next := q\<rparr> = header k f q"
  by (simp_all add: header_def)

lemma u32_arith_of_nat:
  fixes x y :: nat
  shows "(of_nat x :: u32) + 12 = of_nat (x + 12)" "(12 :: u32) + of_nat x = of_nat (12 + x)"
    "(of_nat x :: u32) + of_nat y = of_nat (x + y)" "(of_nat x :: u32) + 8 = of_nat (x + 8)"
  by simp_all

text \<open>The heap with a given head pointer and a block list laid out behind it.\<close>

abbreviation heap_of :: "u32 \<Rightarrow> nat \<Rightarrow> blocks \<Rightarrow> heap" where
  "heap_of q a bs \<equiv> \<lparr>heap_head = q, headers = lay_out a bs\<rparr>"

lemma set_is_free_at:
  assumes "fits a (pre @ (n, f) # bs)"
  shows "set_is_free (of_nat (a + span pre)) (if g then 1 else 0) (heap_of q a (pre @ (n, f) # bs))
      = Some (heap_of q a (pre @ (n, g) # bs))"
  using lay_out_at [OF assms] lay_out_set_free [OF assms, of g]
  by (simp add: set_is_free_def del: of_nat_add)

lemma split_block_at:
  assumes fit: "fits a (pre @ (n, f) # bs)" and s: "s \<le> n" and n: "n \<le> 65536"
  shows "split_block (of_nat (a + span pre)) (of_nat s) (heap_of q a (pre @ (n, f) # bs))
     = Some (heap_of q a (pre @ (if n < s + 20 then [(n, f)] else [(s, f), (n - s - 12, True)]) @ bs))"
proof (cases "n < s + 20")
  case True
  then have "(of_nat n :: u32) < of_nat s + 12 + 8"
    using s n by (simp only: u32_arith_of_nat word_less_nat_alt unat_of_nat_u32)
  with True show ?thesis
    using lay_out_at [OF fit] by (simp add: split_block_def del: of_nat_add)
next
  case False
  then have guard: "\<not> (of_nat n :: u32) < of_nat s + 12 + 8"
    using s n by (simp only: u32_arith_of_nat word_less_nat_alt unat_of_nat_u32)
  have "(of_nat n :: u32) - of_nat s - 12 = of_nat (n - s - 12)"
    using False by (simp add: of_nat_diff)
  then have new: "\<lparr>hb_size = of_nat n - of_nat s - 12, hb_is_free = 1, hb_next = p\<rparr>
      = header (n - s - 12) True p" for p
    by (simp add: header_def)
  have addr: "(of_nat (a + span pre) :: u32) + 12 + of_nat s = of_nat (a + span pre + 12 + s)"
    by simp
  show ?thesis
    using lay_out_at [OF fit] guard False lay_out_split [OF fit, of s]
    by (simp add: split_block_def Let_def new addr del: of_nat_add)
qed

lemma kmalloc_scan_rep:
  assumes "fits a (pre @ bs)" and "span bs \<le> 65536" and "s < 4294967296"
  shows "kmalloc_scan (of_nat s) (next_ptr (a + span pre) bs) (heap_of q a (pre @ bs))
     = Some (case first_fit s bs of
         None \<Rightarrow> (0, heap_of q a (pre @ bs))
       | Some (off, bs') \<Rightarrow> (of_nat (a + span pre + off), heap_of q a (pre @ bs')))"
  using assms
proof (induction bs arbitrary: pre)
  case Nil
  then show ?case by (simp add: kmalloc_scan.simps)
next
  case (Cons b bs)
  obtain n f where b: "b = (n, f)" by fastforce
  have fit: "fits a (pre @ (n, f) # bs)" and n: "n \<le> 65536"
    using Cons.prems by (simp_all add: b)
  have nz: "(of_nat (a + span pre) :: u32) \<noteq> 0"
    using fit by (subst of_nat_u32_eq_0_iff) (auto simp: fits_def)
  have guard: "(of_nat s :: u32) \<le> of_nat n \<longleftrightarrow> s \<le> n"
    using Cons.prems(3) n by (simp add: word_le_nat_alt)
  show ?case
  proof (cases "f \<and> s \<le> n")
    case True
    then have f: "f" and s: "s \<le> n" by simp_all
    have fit': "fits a (pre @ (if n < s + 20 then [(n, True)] else [(s, True), (n - s - 12, True)]) @ bs)"
      using fit s by (auto simp: fits_def)
    have set: "set_is_free (of_nat (a + span pre)) 0
          (heap_of q a (pre @ (if n < s + 20 then [(n, True)] else [(s, True), (n - s - 12, True)]) @ bs))
        = Some (heap_of q a (pre @ (if n < s + 20 then [(n, False)] else [(s, False), (n - s - 12, True)]) @ bs))"
      using set_is_free_at [of a pre _ True _ False] fit' by (auto simp del: of_nat_add split: if_splits)
    show ?thesis
      using nz guard True split_block_at [OF fit s n] set lay_out_at [OF fit]
      by (subst kmalloc_scan.simps) (auto simp: b u32_arith_of_nat(1) simp del: of_nat_add split: if_splits)
  next
    case False
    have "kmalloc_scan (of_nat s) (next_ptr (a + span (pre @ [b])) bs) (heap_of q a ((pre @ [b]) @ bs))
     = Some (case first_fit s bs of
         None \<Rightarrow> (0, heap_of q a ((pre @ [b]) @ bs))
       | Some (off, bs') \<Rightarrow> (of_nat (a + span (pre @ [b]) + off), heap_of q a ((pre @ [b]) @ bs')))"
      using Cons.prems by (intro Cons.IH) (simp_all add: b)
    then show ?thesis
      using nz guard False lay_out_at [OF fit]
      by (subst kmalloc_scan.simps)
        (auto simp: b add.assoc simp del: of_nat_add split: option.splits)
  qed
qed


lemma coalesce_from_rep:
  "fits a (pre @ bs) \<Longrightarrow>
   coalesce_from (next_ptr (a + span pre) bs) (heap_of q a (pre @ bs)) = Some (heap_of q a (pre @ merge bs))"
proof (induction bs arbitrary: pre rule: merge.induct)
  case 1
  then show ?case by (simp add: coalesce_from.simps)
next
  case (2 b)
  obtain n f where b: "b = (n, f)" by fastforce
  show ?case
    using lay_out_at [of a pre n f "[]"] "2.prems"
    by (subst coalesce_from.simps) (simp add: b del: of_nat_add)
next
  case (3 n f k g bs)
  have fit: "fits a (pre @ (n, f) # (k, g) # bs)" and fit': "fits a ((pre @ [(n, f)]) @ (k, g) # bs)"
    using "3.prems" by simp_all
  have nz: "(of_nat (a + span pre) :: u32) \<noteq> 0" "(of_nat (a + span pre + 12 + n) :: u32) \<noteq> 0"
    using fit by (auto simp: fits_def of_nat_u32_eq_0_iff simp del: of_nat_add)
  note here = lay_out_at [OF fit, unfolded next_ptr_Cons]
  have there: "lay_out a (pre @ (n, f) # (k, g) # bs) (of_nat (a + span pre + 12 + n))
      = Some (header k g (next_ptr (a + span pre + 12 + n + 12 + k) bs))"
    using lay_out_at [OF fit'] by (simp add: add.assoc del: of_nat_add)
  have consec: "(of_nat (a + span pre) :: u32) + 12 + of_nat n = of_nat (a + span pre + 12 + n)"
    by simp
  show ?case
  proof (cases "f \<and> g")
    case True
    have "coalesce_from (of_nat (a + span pre)) (heap_of q a (pre @ (n + (12 + k), True) # bs))
        = Some (heap_of q a (pre @ merge ((n + (12 + k), True) # bs)))"
      using "3.IH"(1) [OF True, of pre] fit by (simp add: fits_def del: of_nat_add)
    then show ?thesis
      using nz here there consec True lay_out_absorb [of a pre n k bs] fit
      by (subst coalesce_from.simps) (simp add: u32_arith_of_nat(2,3) del: of_nat_add)
  next
    case False
    have "coalesce_from (of_nat (a + span pre + 12 + n)) (heap_of q a (pre @ (n, f) # (k, g) # bs))
        = Some (heap_of q a (pre @ (n, f) # merge ((k, g) # bs)))"
      using "3.IH"(2) [OF False, of "pre @ [(n, f)]"] fit by (simp add: add.assoc del: of_nat_add)
    then show ?thesis
      using nz here there consec False by (subst coalesce_from.simps) (auto simp del: of_nat_add)
  qed
qed

lemma heap_align_up_unat:
  assumes "unat sz \<le> 4294967288"
  shows "unat (heap_align_up sz) = (unat sz + 7) div 8 * 8"
  using assms by (simp add: heap_align_up_def unat_and_fffffff8 unat_word_ariths)

text \<open>First refinement: on a laid-out heap \<open>kmalloc\<close> is \<open>first_fit\<close>.\<close>

lemma first_fit_nonempty: "first_fit s bs = Some (off, bs') \<Longrightarrow> bs \<noteq> [] \<and> bs' \<noteq> []"
  by (cases bs) (auto split: if_splits)

lemma kmalloc_rep:
  assumes "fits a bs" and "span bs \<le> 65536"
  shows "kmalloc sz (rep_heap a bs)
     = Some (case first_fit (unat (heap_align_up sz)) bs of
         None \<Rightarrow> (0, rep_heap a bs)
       | Some (off, bs') \<Rightarrow> (of_nat (a + off), rep_heap a bs'))"
  using kmalloc_scan_rep [of a "[]" bs "unat (heap_align_up sz)" "next_ptr a bs"] assms
    first_fit_nonempty [of "unat (heap_align_up sz)" bs]
  by (auto simp: kmalloc_def rep_heap_def next_ptr_def split: option.splits)

lemma release_Some:
  "release off bs = Some bs' \<Longrightarrow>
   \<exists>pre n f post. bs = pre @ (n, f) # post \<and> span pre = off \<and> bs' = pre @ (n, True) # post"
proof (induction off bs arbitrary: bs' rule: release.induct)
  case (2 off n f bs)
  show ?case
  proof (cases "off = 0")
    case True
    then show ?thesis using "2.prems" by (intro exI [of _ "[]"]) auto
  next
    case False
    then obtain cs where cs: "release (off - (12 + n)) bs = Some cs" "bs' = (n, f) # cs" "12 + n \<le> off"
      using "2.prems" by (auto split: if_splits)
    then obtain pre k g post where "bs = pre @ (k, g) # post" "span pre = off - (12 + n)"
        "cs = pre @ (k, True) # post"
      using "2.IH" False by fastforce
    with cs show ?thesis by (intro exI [of _ "(n, f) # pre"]) auto
  qed
qed simp

text \<open>Second refinement: \<open>kfree\<close> on a block's payload address is \<open>release\<close> and \<open>merge\<close>.\<close>

lemma kfree_rep:
  assumes fit: "fits a bs" and rel: "release off bs = Some bs'"
  shows "kfree (of_nat (a + off + 12)) (rep_heap a bs) = Some (rep_heap a (merge bs'))"
proof -
  obtain pre n f post where bs: "bs = pre @ (n, f) # post" and off: "off = span pre"
      and bs': "bs' = pre @ (n, True) # post"
    using release_Some [OF rel] by blast
  have ptr: "(of_nat (a + off + 12) :: u32) - 12 = of_nat (a + span pre)" by (simp add: off)
  have fit': "fits a bs'" using fit by (simp add: fits_def bs bs')
  have "merge xs = [] \<longleftrightarrow> xs = []" for xs by (induction xs rule: merge.induct) auto
  then have np: "next_ptr a bs = next_ptr a (merge bs')" by (simp add: bs bs' next_ptr_def)
  show ?thesis
    unfolding kfree_def ptr
    using set_is_free_at [of a pre n f post True "next_ptr a bs"] fit
      coalesce_from_rep [of a "[]" bs' "next_ptr a bs"] fit'
    by (simp add: rep_heap_def bs bs' coalesce_free_blocks_def np [unfolded bs bs', symmetric] del: of_nat_add)
qed


section \<open>The specification\<close>

text \<open>The payload regions (start, size) of the blocks in use, for a list laid out at an address.\<close>

fun live :: "nat \<Rightarrow> blocks \<Rightarrow> (nat \<times> nat) set" where
  "live a [] = {}"
| "live a ((n, f) # bs) = (if f then {} else {(a + 12, n)}) \<union> live (a + 12 + n) bs"

lemma live_append: "live a (pre @ bs) = live a pre \<union> live (a + span pre) bs"
  by (induction a pre rule: live.induct) (auto simp: add.assoc)

lemma live_bounds: "(p, n) \<in> live a bs \<Longrightarrow> a + 12 \<le> p \<and> p + n \<le> a + span bs"
  by (induction a bs rule: live.induct) (force split: if_splits)+

definition apart :: "nat \<times> nat \<Rightarrow> nat \<times> nat \<Rightarrow> bool" where
  "apart r t \<longleftrightarrow> fst r + snd r \<le> fst t \<or> fst t + snd t \<le> fst r"

lemma first_fit_Some:
  assumes "first_fit s bs = Some (off, bs')"
  shows "\<exists>pre n post. bs = pre @ (n, True) # post \<and> s \<le> n \<and> off = span pre + 12
     \<and> bs' = pre @ (if n < s + 20 then [(n, False)] else [(s, False), (n - s - 12, True)]) @ post"
  using assms
proof (induction s bs arbitrary: off bs' rule: first_fit.induct)
  case (2 s n f bs)
  show ?case
  proof (cases "f \<and> s \<le> n")
    case True
    then show ?thesis using "2.prems" by (intro exI [of _ "[]"]) (auto split: if_splits)
  next
    case False
    then obtain o1 cs where o1: "first_fit s bs = Some (o1, cs)" "off = 12 + n + o1" "bs' = (n, f) # cs"
      using "2.prems" by auto
    from "2.IH" [OF False o1(1)] obtain pre k post
      where "bs = pre @ (k, True) # post" "s \<le> k" "o1 = span pre + 12"
        "cs = pre @ (if k < s + 20 then [(k, False)] else [(s, False), (k - s - 12, True)]) @ post"
      by blast
    with o1 show ?thesis by (intro exI [of _ "(n, f) # pre"]) auto
  qed
qed simp

lemma first_fit_None: "first_fit s bs = None \<longleftrightarrow> (\<forall>(n, f) \<in> set bs. f \<longrightarrow> n < s)"
  by (induction s bs rule: first_fit.induct) (auto simp: not_le)

lemma first_fit_live:
  assumes "first_fit s bs = Some (off, bs')"
  shows "span bs' = span bs"
    and "\<exists>m \<ge> s. live a bs' = insert (a + off, m) (live a bs)
        \<and> (\<forall>r \<in> live a bs. apart r (a + off, m) \<and> fst r \<noteq> a + off) \<and> a + off + m \<le> a + span bs \<and> a + 12 \<le> a + off"
proof -
  obtain pre n post where bs: "bs = pre @ (n, True) # post" and s: "s \<le> n" and off: "off = span pre + 12"
    and bs': "bs' = pre @ (if n < s + 20 then [(n, False)] else [(s, False), (n - s - 12, True)]) @ post"
    using first_fit_Some [OF assms] by blast
  show "span bs' = span bs" using s by (simp add: bs bs')
  define m where "m = (if n < s + 20 then n else s)"
  have far: "apart r (a + off, m) \<and> fst r \<noteq> a + off" if "r \<in> live a bs" for r
    using that s live_bounds [of "fst r" "snd r" a pre] live_bounds [of "fst r" "snd r" "a + span pre + 12 + n" post]
    by (auto simp: bs live_append apart_def off m_def)
  have "live a bs' = insert (a + off, m) (live a bs)"
    using s by (auto simp: bs bs' live_append off m_def add.assoc)
  moreover have "s \<le> m" and "off + m \<le> span bs" using s by (auto simp: m_def bs off)
  ultimately show "\<exists>m \<ge> s. live a bs' = insert (a + off, m) (live a bs)
        \<and> (\<forall>r \<in> live a bs. apart r (a + off, m) \<and> fst r \<noteq> a + off) \<and> a + off + m \<le> a + span bs \<and> a + 12 \<le> a + off"
    using far by (auto simp: off)
qed

fun no_adjacent_free :: "blocks \<Rightarrow> bool" where
  "no_adjacent_free ((n, f) # (k, g) # bs) = (\<not> (f \<and> g) \<and> no_adjacent_free ((k, g) # bs))"
| "no_adjacent_free bs = True"

lemma merge_span [simp]: "span (merge bs) = span bs"
  by (induction bs rule: merge.induct) auto

lemma merge_live [simp]: "live a (merge bs) = live a bs"
  by (induction bs arbitrary: a rule: merge.induct) (auto simp: add.assoc)

lemma merge_eq_Nil [simp]: "merge bs = [] \<longleftrightarrow> bs = []"
  by (induction bs rule: merge.induct) auto

lemma merge_used_head: "\<exists>cs. merge ((n, False) # bs) = (n, False) # cs"
  by (cases bs) auto

lemma no_adjacent_free_Cons:
  "no_adjacent_free ((n, f) # bs) \<longleftrightarrow> no_adjacent_free bs \<and> (f \<and> bs \<noteq> [] \<longrightarrow> \<not> snd (hd bs))"
  by (cases bs) auto

lemma merge_no_adjacent_free: "no_adjacent_free (merge bs)"
proof (induction bs rule: merge.induct)
  case (3 n f k g bs)
  show ?case
  proof (cases "f \<and> g")
    case False
    then have "f \<Longrightarrow> merge ((k, g) # bs) \<noteq> [] \<Longrightarrow> \<not> snd (hd (merge ((k, g) # bs)))"
      using merge_used_head [of k bs] by auto
    then show ?thesis using "3.IH"(2) [OF False] False by (auto simp: no_adjacent_free_Cons)
  qed (use "3.IH" in auto)
qed auto

lemma merge_id: "no_adjacent_free bs \<Longrightarrow> merge bs = bs"
  by (induction bs rule: merge.induct) auto

lemma release_at: "release (span pre) (pre @ (n, f) # post) = Some (pre @ (n, True) # post)"
  by (induction pre rule: span.induct) auto

lemma live_split:
  "(p, n) \<in> live a bs \<Longrightarrow> \<exists>pre post. bs = pre @ (n, False) # post \<and> p = a + span pre + 12"
proof (induction a bs rule: live.induct)
  case (2 a k f bs)
  show ?case
  proof (cases "(p, n) \<in> live (a + 12 + k) bs")
    case True
    from "2.IH" [OF True] obtain pre post where "bs = pre @ (n, False) # post" "p = a + 12 + k + span pre + 12"
      by blast
    then have "(k, f) # bs = ((k, f) # pre) @ (n, False) # post \<and> p = a + span ((k, f) # pre) + 12"
      by simp
    then show ?thesis by blast
  next
    case False
    then have "(k, f) # bs = [] @ (n, False) # bs \<and> p = a + span [] + 12"
      using "2.prems" by (auto split: if_splits)
    then show ?thesis by blast
  qed
qed simp

lemma release_live:
  assumes "(p, n) \<in> live a bs"
  shows "\<exists>bs'. release (p - 12 - a) bs = Some bs' \<and> live a bs' = live a bs - {(p, n)}
     \<and> span bs' = span bs \<and> bs' \<noteq> []"
proof -
  obtain pre post where bs: "bs = pre @ (n, False) # post" and p: "p = a + span pre + 12"
    using live_split [OF assms] by blast
  have "r \<noteq> (p, n)" if "r \<in> live a pre \<or> r \<in> live (a + span pre + 12 + n) post" for r
    using that live_bounds [of "fst r" "snd r" a pre] live_bounds [of "fst r" "snd r" "a + span pre + 12 + n" post]
    by (auto simp: p)
  then show ?thesis
    using release_at [of pre n False post] by (auto simp: bs p live_append)
qed

text \<open>On a list without adjacent free blocks, freeing what was just allocated restores the list.\<close>

lemma first_fit_release:
  assumes "first_fit s bs = Some (off, bs')" and "no_adjacent_free bs"
  shows "\<exists>bs''. release (off - 12) bs' = Some bs'' \<and> merge bs'' = bs"
proof -
  obtain pre n post where bs: "bs = pre @ (n, True) # post" and s: "s \<le> n" and off: "off = span pre + 12"
    and bs': "bs' = pre @ (if n < s + 20 then [(n, False)] else [(s, False), (n - s - 12, True)]) @ post"
    using first_fit_Some [OF assms(1)] by blast
  define bs'' where "bs'' = pre @ (if n < s + 20 then [(n, True)] else [(s, True), (n - s - 12, True)]) @ post"
  have "release (off - 12) bs' = Some bs''"
    using release_at [of pre _ False] by (auto simp: bs' bs''_def off)
  moreover have "merge bs'' = bs"
    using assms(2) unfolding bs bs''_def
  proof (induction pre)
    case Nil
    then show ?case using merge_id [OF Nil.prems] s by auto
  next
    case (Cons b pre)
    obtain k f where b: "b = (k, f)" by fastforce
    have IH: "merge (pre @ (if n < s + 20 then [(n, True)] else [(s, True), (n - s - 12, True)]) @ post)
        = pre @ (n, True) # post"
      using Cons by (simp add: b no_adjacent_free_Cons)
    show ?case
    proof (cases pre)
      case Nil
      then have "\<not> f" and "merge ((n, True) # post) = (n, True) # post"
        using Cons.prems merge_id [of "(n, True) # post"] by (simp_all add: b)
      then show ?thesis using IH Nil by (auto simp: b)
    next
      case (Cons c pre')
      moreover obtain j g where "c = (j, g)" by fastforce
      ultimately show ?thesis using IH Cons.prems by (auto simp: b split: if_splits)
    qed
  qed
  ultimately show ?thesis by blast
qed


section \<open>The allocator's contract\<close>

text \<open>
  What a client sees of a heap: the regions in use, read off the headers, and that the
  headers form a well-laid-out list that fills the array at \<open>base\<close>.
\<close>

definition allocated :: "heap \<Rightarrow> (u32 \<times> u32) set" where
  "allocated h = {(p, n). \<exists>b. headers h (p - SIZEOF_HEAP_BLOCK) = Some b \<and> hb_is_free b = 0 \<and> n = hb_size b}"

definition heap_ok :: "u32 \<Rightarrow> heap \<Rightarrow> bool" where
  "heap_ok base h \<longleftrightarrow> 0 < unat base \<and> unat base + 65536 < 4294967296
     \<and> (\<exists>bs. h = rep_heap (unat base) bs \<and> bs \<noteq> [] \<and> span bs = 65536)"

definition coalesced :: "heap \<Rightarrow> bool" where
  "coalesced h \<longleftrightarrow> (\<forall>p b c. headers h p = Some b \<longrightarrow> hb_next b \<noteq> 0 \<longrightarrow> headers h (hb_next b) = Some c
     \<longrightarrow> hb_is_free b = 0 \<or> hb_is_free c = 0)"

definition regions_apart :: "u32 \<times> u32 \<Rightarrow> u32 \<times> u32 \<Rightarrow> bool" where
  "regions_apart r t \<longleftrightarrow> unat (fst r) + unat (snd r) \<le> unat (fst t)
     \<or> unat (fst t) + unat (snd t) \<le> unat (fst r)"

definition in_heap :: "u32 \<Rightarrow> u32 \<times> u32 \<Rightarrow> bool" where
  "in_heap base r \<longleftrightarrow> unat base + 12 \<le> unat (fst r) \<and> unat (fst r) + unat (snd r) \<le> unat base + 65536"

abbreviation word_region :: "nat \<times> nat \<Rightarrow> u32 \<times> u32" where
  "word_region \<equiv> map_prod of_nat of_nat"

lemma allocated_lay_out:
  "fits a bs \<Longrightarrow> {(p, n). \<exists>b. lay_out a bs (p - 12) = Some b \<and> hb_is_free b = 0 \<and> n = hb_size b}
     = word_region ` live a bs"
proof (induction a bs rule: live.induct)
  case (2 a n f bs)
  have a: "a < 4294967296" using "2.prems" by (simp add: fits_def)
  have fresh: "lay_out (a + 12 + n) bs (of_nat a) = None"
    using "2.prems" by (intro lay_out_before) (simp_all add: fits_def)
  have IH: "{(p, k). \<exists>b. lay_out (a + 12 + n) bs (p - 12) = Some b \<and> hb_is_free b = 0 \<and> k = hb_size b}
     = word_region ` live (a + 12 + n) bs"
    using "2" fits_Cons by blast
  have "{(p, k). \<exists>b. lay_out a ((n, f) # bs) (p - 12) = Some b \<and> hb_is_free b = 0 \<and> k = hb_size b}
     = (if f then {} else {(of_nat a + 12, of_nat n)}) \<union>
       {(p, k). \<exists>b. lay_out (a + 12 + n) bs (p - 12) = Some b \<and> hb_is_free b = 0 \<and> k = hb_size b}"
    using fresh by (auto simp: diff_eq_eq split: if_splits)
  then show ?case unfolding IH by auto
qed simp

lemma allocated_rep: "fits a bs \<Longrightarrow> allocated (rep_heap a bs) = word_region ` live a bs"
  using allocated_lay_out by (simp add: allocated_def rep_heap_def)

lemma live_small: "fits a bs \<Longrightarrow> (p, n) \<in> live a bs \<Longrightarrow> p < 4294967296 \<and> n < 4294967296 \<and> p + n \<le> 4294967296"
  using live_bounds [of p n a bs] by (auto simp: fits_def)

lemma word_region_eq_iff:
  assumes "fits a bs" and "r \<in> live a bs" and "t \<in> live a bs"
  shows "word_region r = word_region t \<longleftrightarrow> r = t"
  using live_small [OF assms(1), of "fst r" "snd r"] live_small [OF assms(1), of "fst t" "snd t"] assms(2,3)
  by (cases r; cases t) (auto simp: of_nat_u32_eq_iff)

lemma lay_out_Some:
  "lay_out a bs w = Some b \<Longrightarrow> \<exists>pre n f post. bs = pre @ (n, f) # post \<and> w = of_nat (a + span pre)
     \<and> b = header n f (next_ptr (a + span pre + 12 + n) post)"
proof (induction a bs rule: lay_out.induct)
  case (2 a n f bs)
  show ?case
  proof (cases "w = of_nat a")
    case True
    then have "(n, f) # bs = [] @ (n, f) # bs \<and> w = of_nat (a + span [])
        \<and> b = header n f (next_ptr (a + span [] + 12 + n) bs)"
      using "2.prems" by simp
    then show ?thesis by blast
  next
    case False
    then obtain pre k g post where "bs = pre @ (k, g) # post" "w = of_nat (a + 12 + n + span pre)"
        "b = header k g (next_ptr (a + 12 + n + span pre + 12 + k) post)"
      using "2" by fastforce
    then have "(n, f) # bs = ((n, f) # pre) @ (k, g) # post \<and> w = of_nat (a + span ((n, f) # pre))
        \<and> b = header k g (next_ptr (a + span ((n, f) # pre) + 12 + k) post)"
      by (simp add: add.assoc)
    then show ?thesis by blast
  qed
qed simp

lemma no_adjacent_free_suffix:
  "no_adjacent_free (pre @ bs) \<Longrightarrow> no_adjacent_free bs"
  by (induction pre) (auto simp: no_adjacent_free_Cons)

lemma adjacent_free_split:
  "\<not> no_adjacent_free bs \<Longrightarrow> \<exists>pre n k post. bs = pre @ (n, True) # (k, True) # post"
proof (induction bs rule: no_adjacent_free.induct)
  case (1 n f k g bs)
  show ?case
  proof (cases "f \<and> g")
    case True
    then show ?thesis by (intro exI [of _ "[]"]) auto
  next
    case False
    then obtain pre i j post where "(k, g) # bs = pre @ (i, True) # (j, True) # post"
      using "1" by auto
    then have "(n, f) # (k, g) # bs = ((n, f) # pre) @ (i, True) # (j, True) # post" by simp
    then show ?thesis by blast
  qed
qed auto

lemma lay_out_next:
  assumes "fits a (pre @ (n, f) # (k, g) # post)"
  shows "lay_out a (pre @ (n, f) # (k, g) # post) (of_nat (a + span pre + 12 + n))
      = Some (header k g (next_ptr (a + span pre + 12 + n + 12 + k) post))"
  using lay_out_at [of a "pre @ [(n, f)]" k g post] assms by (simp add: add.assoc del: of_nat_add)

lemma coalesced_rep:
  assumes fit: "fits a bs"
  shows "coalesced (rep_heap a bs) \<longleftrightarrow> no_adjacent_free bs"
proof
  assume coal: "coalesced (rep_heap a bs)"
  show "no_adjacent_free bs"
  proof (rule ccontr)
    assume "\<not> no_adjacent_free bs"
    then obtain pre n k post where bs: "bs = pre @ (n, True) # (k, True) # post"
      using adjacent_free_split by blast
    have "(of_nat (a + span pre + 12 + n) :: u32) \<noteq> 0"
      using fit by (subst of_nat_u32_eq_0_iff) (auto simp: fits_def bs)
    then show False
      using coal lay_out_at [of a pre n True "(k, True) # post"] lay_out_next [of a pre n True k True post] fit
      by (fastforce simp: coalesced_def rep_heap_def bs simp del: of_nat_add)
  qed
next
  assume nadj: "no_adjacent_free bs"
  show "coalesced (rep_heap a bs)"
    unfolding coalesced_def rep_heap_def heap.select_convs
  proof (intro allI impI)
    fix p b c
    assume b: "lay_out a bs p = Some b" "hb_next b \<noteq> 0" "lay_out a bs (hb_next b) = Some c"
    then obtain pre n f post where bs: "bs = pre @ (n, f) # post"
        and b': "b = header n f (next_ptr (a + span pre + 12 + n) post)"
      using lay_out_Some by blast
    then obtain k g post' where post: "post = (k, g) # post'"
      using b(2) by (cases post) (auto simp: next_ptr_def)
    then have "c = header k g (next_ptr (a + span pre + 12 + n + 12 + k) post')"
      using b(3) lay_out_next [of a pre n f k g post'] fit by (simp add: bs b' del: of_nat_add)
    moreover have "\<not> (f \<and> g)"
      using no_adjacent_free_suffix [of pre "(n, f) # post"] nadj by (simp add: bs post)
    ultimately show "hb_is_free b = 0 \<or> hb_is_free c = 0" by (simp add: b')
  qed
qed


lemma heap_ok_cases:
  assumes "heap_ok base h"
  obtains bs where "h = rep_heap (unat base) bs" "bs \<noteq> []" "span bs = 65536" "fits (unat base) bs"
  using assms by (auto simp: heap_ok_def fits_def)

lemma heap_ok_rep:
  "0 < unat base \<Longrightarrow> unat base + 65536 < 4294967296 \<Longrightarrow> bs \<noteq> [] \<Longrightarrow> span bs = 65536
   \<Longrightarrow> heap_ok base (rep_heap (unat base) bs)"
  by (auto simp: heap_ok_def)

lemma heap_okD: "heap_ok base h \<Longrightarrow> 0 < unat base \<and> unat base + 65536 < 4294967296"
  by (simp add: heap_ok_def)

lemma init_heap_blocks_rep:
  "init_heap_blocks base = rep_heap (unat base) [(65524, True)]"
  by (simp add: init_heap_blocks_def rep_heap_def header_def)

lemma init_heap_blocks_ok:
  assumes "0 < unat base" "unat base + 65536 < 4294967296"
  shows "heap_ok base (init_heap_blocks base)" "allocated (init_heap_blocks base) = {}"
    "coalesced (init_heap_blocks base)"
  using assms by (simp_all add: init_heap_blocks_rep heap_ok_rep allocated_rep coalesced_rep fits_def)

lemma region_in_heap:
  assumes "heap_ok base h" and "r \<in> allocated h"
  shows "in_heap base r"
proof -
  from assms(1) obtain bs where bs: "h = rep_heap (unat base) bs" "span bs = 65536" "fits (unat base) bs"
    by (rule heap_ok_cases)
  then obtain q n where q: "(q, n) \<in> live (unat base) bs" "r = word_region (q, n)"
    using assms(2) by (auto simp: allocated_rep)
  then show ?thesis
    using live_bounds [OF q(1)] live_small [OF bs(3) q(1)] bs(2) by (simp add: in_heap_def)
qed

lemma kmalloc_returns:
  assumes "heap_ok base h"
  shows "\<exists>p h'. kmalloc sz h = Some (p, h') \<and> heap_ok base h'"
proof -
  from assms obtain bs where bs: "h = rep_heap (unat base) bs" "bs \<noteq> []" "span bs = 65536" "fits (unat base) bs"
    by (rule heap_ok_cases)
  show ?thesis
    using kmalloc_rep [OF bs(4), of sz] bs heap_okD [OF assms]
      first_fit_live(1) [of "unat (heap_align_up sz)" bs] first_fit_nonempty [of "unat (heap_align_up sz)" bs]
    by (cases "first_fit (unat (heap_align_up sz)) bs") (auto intro!: heap_ok_rep)
qed

lemma kmalloc_region:
  assumes ok: "heap_ok base h" and km: "kmalloc sz h = Some (p, h')"
  shows "p = 0 \<and> h' = h \<and> (\<forall>q b. headers h q = Some b \<longrightarrow> hb_is_free b \<noteq> 0 \<longrightarrow> hb_size b < heap_align_up sz)
    \<or> p \<noteq> 0 \<and> (\<exists>m. heap_align_up sz \<le> m \<and> allocated h' = insert (p, m) (allocated h)
      \<and> p \<notin> fst ` allocated h \<and> (\<forall>r \<in> allocated h. regions_apart r (p, m)))"
proof -
  let ?s = "unat (heap_align_up sz)" and ?a = "unat base"
  from ok obtain bs where bs: "h = rep_heap ?a bs" "bs \<noteq> []" "span bs = 65536" "fits ?a bs"
    by (rule heap_ok_cases)
  note km' = km [unfolded bs(1) kmalloc_rep [OF bs(4) eq_refl [OF bs(3)]]]
  show ?thesis
  proof (cases "first_fit ?s bs")
    case None
    have "hb_size b < heap_align_up sz" if at: "headers h q = Some b" "hb_is_free b \<noteq> 0" for q b
    proof -
      obtain pre n f post where "bs = pre @ (n, f) # post"
          "b = header n f (next_ptr (?a + span pre + 12 + n) post)"
        using lay_out_Some [of ?a bs q b] at(1) by (auto simp: bs(1) rep_heap_def)
      moreover from this have "n < ?s" using None at(2) by (auto simp: first_fit_None)
      moreover have "n < 4294967296" using \<open>n < ?s\<close> unat_u32_lt [of "heap_align_up sz"] by linarith
      ultimately show ?thesis by (simp add: word_less_nat_alt)
    qed
    then show ?thesis using None km' by (auto simp: bs(1))
  next
    case (Some r)
    then obtain off bs' where ff: "first_fit ?s bs = Some (off, bs')" by (cases r) auto
    then have p: "p = of_nat (?a + off)" and h': "h' = rep_heap ?a bs'" using km' by auto
    obtain m where m: "?s \<le> m" "live ?a bs' = insert (?a + off, m) (live ?a bs)"
        "\<forall>r \<in> live ?a bs. apart r (?a + off, m) \<and> fst r \<noteq> ?a + off" "?a + off + m \<le> ?a + span bs"
      using first_fit_live(2) [OF ff, of ?a] by blast
    have fit': "fits ?a bs'" using first_fit_live(1) [OF ff] bs(4) by (simp add: fits_def)
    have small: "?a + off < 4294967296" "m < 4294967296" "0 < ?a + off"
      using m(4) bs(3,4) by (auto simp: fits_def)
    have alloc': "allocated h' = insert (p, of_nat m) (allocated h)"
      by (simp add: h' allocated_rep [OF fit'] m(2) p bs(1) allocated_rep [OF bs(4)])
    have "p \<noteq> 0" using small by (simp add: p of_nat_u32_eq_0_iff del: of_nat_add)
    moreover have "heap_align_up sz \<le> of_nat m" using m(1) small by (simp add: word_le_nat_alt)
    moreover have "p \<noteq> fst r \<and> regions_apart r (p, of_nat m)" if al: "r \<in> allocated h" for r
    proof -
      obtain q n where q: "(q, n) \<in> live ?a bs" "r = word_region (q, n)"
        using al by (auto simp: bs(1) allocated_rep [OF bs(4)])
      have "apart (q, n) (?a + off, m)" "q \<noteq> ?a + off" using m(3) q(1) by auto
      then show ?thesis
        using small live_small [OF bs(4) q(1)]
        by (auto simp: q(2) p apart_def regions_apart_def of_nat_u32_eq_iff simp del: of_nat_add)
    qed
    ultimately show ?thesis using alloc' by blast
  qed
qed

lemma kfree_region:
  assumes ok: "heap_ok base h" and al: "(p, m) \<in> allocated h"
  shows "\<exists>h'. kfree p h = Some h' \<and> heap_ok base h' \<and> coalesced h' \<and> allocated h' = allocated h - {(p, m)}"
proof -
  let ?a = "unat base"
  from ok obtain bs where bs: "h = rep_heap ?a bs" "bs \<noteq> []" "span bs = 65536" "fits ?a bs"
    by (rule heap_ok_cases)
  obtain q n where q: "(q, n) \<in> live ?a bs" "(p, m) = word_region (q, n)"
    using al by (auto simp: bs(1) allocated_rep [OF bs(4)])
  obtain bs' where bs': "release (q - 12 - ?a) bs = Some bs'" "live ?a bs' = live ?a bs - {(q, n)}"
      "span bs' = span bs" "bs' \<noteq> []"
    using release_live [OF q(1)] by blast
  have "?a + (q - 12 - ?a) + 12 = q" using live_bounds [OF q(1)] by simp
  then have kf: "kfree p h = Some (rep_heap ?a (merge bs'))"
    using kfree_rep [OF bs(4) bs'(1)] q(2) by (simp add: bs(1))
  have fit': "fits ?a (merge bs')" using bs' bs(4) by (simp add: fits_def)
  have "word_region r = (p, m) \<longleftrightarrow> r = (q, n)" if "r \<in> live ?a bs" for r
    using word_region_eq_iff [OF bs(4) that q(1)] q(2) by simp
  then have "word_region ` (live ?a bs - {(q, n)}) = word_region ` live ?a bs - {(p, m)}"
    by (rule image_minus_singleton)
  then have "allocated (rep_heap ?a (merge bs')) = allocated h - {(p, m)}"
    by (simp only: allocated_rep [OF fit'] merge_live bs'(2) bs(1) allocated_rep [OF bs(4)])
  moreover have "heap_ok base (rep_heap ?a (merge bs'))"
    using bs' bs heap_okD [OF ok] by (intro heap_ok_rep) auto
  moreover have "coalesced (rep_heap ?a (merge bs'))"
    by (simp add: coalesced_rep [OF fit'] merge_no_adjacent_free)
  ultimately show ?thesis using kf by blast
qed

lemma kmalloc_kfree:
  assumes ok: "heap_ok base h" and coal: "coalesced h" and km: "kmalloc sz h = Some (p, h')" and p: "p \<noteq> 0"
  shows "kfree p h' = Some h"
proof -
  let ?s = "unat (heap_align_up sz)" and ?a = "unat base"
  from ok obtain bs where bs: "h = rep_heap ?a bs" "bs \<noteq> []" "span bs = 65536" "fits ?a bs"
    by (rule heap_ok_cases)
  note km' = km [unfolded bs(1) kmalloc_rep [OF bs(4) eq_refl [OF bs(3)]]]
  then obtain off bs' where ff: "first_fit ?s bs = Some (off, bs')"
    and p': "p = of_nat (?a + off)" and h': "h' = rep_heap ?a bs'"
    using p by (cases "first_fit ?s bs") auto
  have "no_adjacent_free bs" using coal by (simp add: bs(1) coalesced_rep [OF bs(4)])
  then obtain bs'' where rel: "release (off - 12) bs' = Some bs''" "merge bs'' = bs"
    using first_fit_release [OF ff] by blast
  have fit': "fits ?a bs'" using first_fit_live(1) [OF ff] bs(4) by (simp add: fits_def)
  have "12 \<le> off" using first_fit_live(2) [OF ff, of 0] by auto
  then have "?a + (off - 12) + 12 = ?a + off" by simp
  then show ?thesis using kfree_rep [OF fit' rel(1)] rel(2) by (simp add: p' h' bs(1))
qed


text \<open>
  The interface the rest of the kernel relies on: an allocation never fails silently, it
  returns either null with nothing changed or a region of its own, and freeing a region
  takes exactly that region away.
\<close>

locale allocator =
  fixes inv :: "'h \<Rightarrow> bool"
    and alloc :: "u32 \<Rightarrow> 'h \<Rightarrow> (u32 \<times> 'h) option"
    and free :: "u32 \<Rightarrow> 'h \<Rightarrow> 'h option"
    and regions :: "'h \<Rightarrow> (u32 \<times> u32) set"
    and rounded :: "u32 \<Rightarrow> u32"
  assumes alloc_returns: "inv h \<Longrightarrow> \<exists>p h'. alloc n h = Some (p, h') \<and> inv h'"
    and alloc_null: "inv h \<Longrightarrow> alloc n h = Some (0, h') \<Longrightarrow> h' = h"
    and alloc_region: "inv h \<Longrightarrow> alloc n h = Some (p, h') \<Longrightarrow> p \<noteq> 0 \<Longrightarrow>
      \<exists>m. rounded n \<le> m \<and> regions h' = insert (p, m) (regions h) \<and> p \<notin> fst ` regions h
        \<and> (\<forall>r \<in> regions h. regions_apart r (p, m))"
    and free_region: "inv h \<Longrightarrow> (p, m) \<in> regions h \<Longrightarrow>
      \<exists>h'. free p h = Some h' \<and> inv h' \<and> regions h' = regions h - {(p, m)}"
begin

lemma alloc_inv: "inv h \<Longrightarrow> alloc n h = Some (p, h') \<Longrightarrow> inv h'"
  using alloc_returns [of h n] by auto

lemma alloc_free:
  assumes "inv h" and "alloc n h = Some (p, h')" and "p \<noteq> 0"
  shows "\<exists>h''. free p h' = Some h'' \<and> inv h'' \<and> regions h'' = regions h"
proof -
  obtain m where m: "regions h' = insert (p, m) (regions h)" "p \<notin> fst ` regions h"
    using alloc_region [OF assms] by blast
  then have "regions h' - {(p, m)} = regions h" by force
  then show ?thesis using free_region [of h' p m] alloc_inv [OF assms(1,2)] m(1) by auto
qed

lemma alloc_twice_apart:
  assumes "inv h" and "alloc n h = Some (p, h')" and "p \<noteq> 0" and "alloc k h' = Some (q, h'')" and "q \<noteq> 0"
  shows "p \<noteq> q \<and> (\<exists>m j. rounded n \<le> m \<and> rounded k \<le> j \<and> regions_apart (p, m) (q, j)
    \<and> regions h'' = {(p, m), (q, j)} \<union> regions h)"
proof -
  obtain m where m: "rounded n \<le> m" "regions h' = insert (p, m) (regions h)"
    using alloc_region [OF assms(1-3)] by blast
  obtain j where j: "rounded k \<le> j" "regions h'' = insert (q, j) (regions h')" "q \<notin> fst ` regions h'"
      "\<forall>r \<in> regions h'. regions_apart r (q, j)"
    using alloc_region [OF alloc_inv [OF assms(1,2)] assms(4,5)] by blast
  then show ?thesis using m by (auto simp: insert_commute)
qed

end

interpretation kheap: allocator "heap_ok base" kmalloc kfree allocated heap_align_up for base
proof unfold_locales
  fix h n p h' m
  assume ok: "heap_ok base h"
  show "\<exists>p h'. kmalloc n h = Some (p, h') \<and> heap_ok base h'"
    using ok by (rule kmalloc_returns)
  show "kmalloc n h = Some (0, h') \<Longrightarrow> h' = h"
    using kmalloc_region [OF ok] by fastforce
  show "kmalloc n h = Some (p, h') \<Longrightarrow> p \<noteq> 0 \<Longrightarrow>
      \<exists>m. heap_align_up n \<le> m \<and> allocated h' = insert (p, m) (allocated h) \<and> p \<notin> fst ` allocated h
        \<and> (\<forall>r \<in> allocated h. regions_apart r (p, m))"
    using kmalloc_region [OF ok] by blast
  show "(p, m) \<in> allocated h \<Longrightarrow> \<exists>h'. kfree p h = Some h' \<and> heap_ok base h' \<and> allocated h' = allocated h - {(p, m)}"
    using kfree_region [OF ok] by blast
qed


section \<open>Properties\<close>

text \<open>
  C10. \<open>kmalloc\<close> on a well-formed heap always returns and keeps the heap well-formed.
  Null means that nothing changed and no free block is large enough. Any other result
  starts a region of its own of at least the rounded-up size, inside the heap array and
  apart from every region in use, and no other region changes.
\<close>

theorem kmalloc_correct:
  assumes "heap_ok base h"
  shows "\<exists>p h'. kmalloc sz h = Some (p, h') \<and> heap_ok base h' \<and>
    (if p = 0
     then h' = h \<and> (\<forall>q b. headers h q = Some b \<longrightarrow> hb_is_free b \<noteq> 0 \<longrightarrow> hb_size b < heap_align_up sz)
     else \<exists>m. heap_align_up sz \<le> m \<and> allocated h' = insert (p, m) (allocated h) \<and> p \<notin> fst ` allocated h
        \<and> in_heap base (p, m) \<and> (\<forall>r \<in> allocated h. regions_apart r (p, m)))"
proof -
  obtain p h' where km: "kmalloc sz h = Some (p, h')" "heap_ok base h'"
    using kheap.alloc_returns [OF assms] by blast
  show ?thesis
  proof (cases "p = 0")
    case True
    then show ?thesis using km kmalloc_region [OF assms km(1)] by auto
  next
    case False
    obtain m where m: "heap_align_up sz \<le> m" "allocated h' = insert (p, m) (allocated h)"
        "p \<notin> fst ` allocated h" "\<forall>r \<in> allocated h. regions_apart r (p, m)"
      using kheap.alloc_region [OF assms km(1) False] by blast
    then have "in_heap base (p, m)" using region_in_heap [OF km(2)] by blast
    then show ?thesis using km m False by auto
  qed
qed

text \<open>A heap after one allocation of ten bytes, for the witnesses.\<close>

definition example_heap :: heap where
  "example_heap = rep_heap 0xc0200000 [(16, False), (65496, True)]"

lemma example_init: "heap_ok 0xc0200000 (init_heap_blocks 0xc0200000)" "coalesced (init_heap_blocks 0xc0200000)"
  by (simp_all add: init_heap_blocks_ok)

lemma example_kmalloc: "kmalloc 10 (init_heap_blocks 0xc0200000) = Some (0xc020000c, example_heap)"
  using kmalloc_rep [of "0xc0200000" "[(65524, True)]" 10]
  by (simp add: init_heap_blocks_rep fits_def heap_align_up_def example_heap_def)

theorem kmalloc_correct_witness:
  "heap_ok 0xc0200000 (init_heap_blocks 0xc0200000) \<and> heap_ok 0xc0200000 example_heap
   \<and> (\<exists>m \<ge> 16. allocated example_heap = {(0xc020000c, m)})"
proof -
  have "heap_align_up 10 = 16" by (simp add: heap_align_up_def)
  then show ?thesis
    using kmalloc_correct [OF example_init(1), of 10] example_kmalloc example_init(1)
      init_heap_blocks_ok(2) [of "0xc0200000"] by auto
qed

text \<open>
  C11. \<open>kfree\<close> of a region in use always returns, keeps the heap well-formed, takes away
  exactly that region, and leaves no two neighbouring free blocks.
\<close>

theorem kfree_correct:
  assumes "heap_ok base h" and "(p, m) \<in> allocated h"
  shows "\<exists>h'. kfree p h = Some h' \<and> heap_ok base h' \<and> coalesced h' \<and> allocated h' = allocated h - {(p, m)}"
  using assms by (rule kfree_region)

theorem kfree_correct_witness:
  "(0xc020000c, 16) \<in> allocated example_heap \<and> (\<exists>h'. kfree 0xc020000c example_heap = Some h' \<and> allocated h' = {})"
proof -
  have ok: "heap_ok 0xc0200000 example_heap"
    using heap_ok_rep [of "0xc0200000" "[(16, False), (65496, True)]"] by (simp add: example_heap_def)
  have al: "allocated example_heap = {(0xc020000c, 16)}"
    by (simp add: example_heap_def allocated_rep fits_def)
  show ?thesis using kfree_correct [OF ok, of "0xc020000c" 16] al by auto
qed

text \<open>
  C23. Round trip: on a heap without neighbouring free blocks, freeing what \<open>kmalloc\<close>
  returned gives back exactly the heap before the call, headers included.
\<close>

theorem kmalloc_kfree_roundtrip:
  assumes "heap_ok base h" and "coalesced h" and "kmalloc sz h = Some (p, h')" and "p \<noteq> 0"
  shows "kfree p h' = Some h"
  using assms by (rule kmalloc_kfree)

theorem kmalloc_kfree_roundtrip_witness:
  "kfree 0xc020000c example_heap = Some (init_heap_blocks 0xc0200000)"
  using kmalloc_kfree_roundtrip [OF example_init example_kmalloc] by simp

text \<open>
  The size is rounded up without an overflow check: the seven largest requests wrap
  around to zero, and \<open>kmalloc\<close> answers them on a fresh heap with a valid pointer to a
  region of no bytes instead of null.
\<close>

theorem kmalloc_overflow:
  assumes "0xfffffff9 \<le> sz" and "0 < unat base" and "unat base + 65536 < 4294967296"
  shows "heap_align_up sz = 0 \<and>
    (\<exists>h'. kmalloc sz (init_heap_blocks base) = Some (base + 12, h') \<and> allocated h' = {(base + 12, 0)})"
proof -
  have sz: "4294967289 \<le> unat sz" using assms(1) by (simp add: word_le_nat_alt)
  moreover have "unat sz - 4294967289 < 4294967296" using unat_u32_lt [of sz] by linarith
  ultimately have "unat (sz + 7) = unat sz + 7 - 4294967296"
    by (simp add: unat_word_ariths le_mod_geq)
  then have "unat (sz + 7) < 8" using unat_u32_lt [of sz] by linarith
  then have "unat (heap_align_up sz) = 0" by (simp add: heap_align_up_def unat_and_fffffff8)
  then have zero: "heap_align_up sz = 0" by (simp only: unat_eq_zero)
  have fit: "fits (unat base) [(65524, True)]" "fits (unat base) [(0, False), (65512, True)]"
    using assms(2,3) by (simp_all add: fits_def)
  then have "kmalloc sz (init_heap_blocks base) = Some (base + 12, rep_heap (unat base) [(0, False), (65512, True)])"
    using kmalloc_rep [OF fit(1), of sz] by (simp add: init_heap_blocks_rep zero)
  moreover have "allocated (rep_heap (unat base) [(0, False), (65512, True)]) = {(base + 12, 0)}"
    using fit(2) by (simp add: allocated_rep)
  ultimately show ?thesis using zero by blast
qed

theorem kmalloc_overflow_witness:
  "\<exists>h'. kmalloc 0xffffffff (init_heap_blocks 0xc0200000) = Some (0xc020000c, h') \<and> allocated h' = {(0xc020000c, 0)}"
  using kmalloc_overflow [of "0xffffffff" "0xc0200000"] by simp

end
