(* ===== verification/Fs.thy ===== *)
theory Fs
  imports Block_Device Heap
begin

text \<open>
  The read-only Minix file system, \<^verbatim>\<open>kernel/fs.c\<close>. Its functions take the disk driver's
  read function as an argument \<open>rd\<close>; the driver of \<open>Disk\<close> is one, and what is relied on
  is the locale \<open>block_device\<close>. Structures that the code reads from raw blocks are decoded
  byte by byte. A pointer to memory on the kernel's stack is passed as the value it points
  to; inodes on the kernel heap are in the store of \<open>fs_mem\<close>.
\<close>

section \<open>Model: on-disk structures\<close>

abbreviation FILE_SYSTEM_BASE_SECTOR :: u32 where "FILE_SYSTEM_BASE_SECTOR \<equiv> 2048"
abbreviation FS_BLOCK_SIZE :: u32 where "FS_BLOCK_SIZE \<equiv> 1024"
abbreviation SECTORS_PER_BLOCK :: u32 where "SECTORS_PER_BLOCK \<equiv> 2"
abbreviation INODES_PER_BLOCK :: u16 where "INODES_PER_BLOCK \<equiv> 32"
abbreviation DIRECT_ZONES :: u32 where "DIRECT_ZONES \<equiv> 7"
abbreviation INDIRECT_ZONE_INDEX :: nat where "INDIRECT_ZONE_INDEX \<equiv> 7"
abbreviation DOUBLE_INDIRECT_ZONE_INDEX :: nat where "DOUBLE_INDIRECT_ZONE_INDEX \<equiv> 8"
abbreviation POINTERS_PER_ZONE :: u32 where "POINTERS_PER_ZONE \<equiv> 512"
abbreviation MINIX_ROOT_INODE :: u16 where "MINIX_ROOT_INODE \<equiv> 1"
abbreviation PATH_COMPONENTS :: nat where "PATH_COMPONENTS \<equiv> 32"
abbreviation MINIX_MAX_NAME_LENGTH :: nat where "MINIX_MAX_NAME_LENGTH \<equiv> 30"
abbreviation MINIX_MODE_MASK :: u16 where "MINIX_MODE_MASK \<equiv> 0xf000"
abbreviation MINIX_MODE_DIRECTORY :: u16 where "MINIX_MODE_DIRECTORY \<equiv> 0x4000"

definition get16 :: "u8 list \<Rightarrow> nat \<Rightarrow> u16" where
  "get16 bs i = ucast (bs ! i) OR push_bit 8 (ucast (bs ! (i + 1)))"

definition get32 :: "u8 list \<Rightarrow> nat \<Rightarrow> u32" where
  "get32 bs i = ucast (get16 bs i) OR push_bit 16 (ucast (get16 bs (i + 2)))"

record minix_super_block =
  s_ninodes :: u16
  s_nzones :: u16
  s_imap_blocks :: u16
  s_zmap_blocks :: u16
  s_firstdatazone :: u16
  s_log_zone_size :: u16
  s_max_size :: u32
  s_magic :: u16
  s_state :: u16

definition super_of :: "u8 list \<Rightarrow> minix_super_block" where
  "super_of b = \<lparr>s_ninodes = get16 b 0, s_nzones = get16 b 2, s_imap_blocks = get16 b 4,
     s_zmap_blocks = get16 b 6, s_firstdatazone = get16 b 8, s_log_zone_size = get16 b 10,
     s_max_size = get32 b 12, s_magic = get16 b 16, s_state = get16 b 18\<rparr>"

record minix_inode =
  i_mode :: u16
  i_uid :: u16
  i_size :: u32
  i_time :: u32
  i_gid :: u8
  i_nlinks :: u8
  i_zone :: "u16 list"

definition inode_of :: "u8 list \<Rightarrow> nat \<Rightarrow> minix_inode" where
  "inode_of b o' = \<lparr>i_mode = get16 b o', i_uid = get16 b (o' + 2), i_size = get32 b (o' + 4),
     i_time = get32 b (o' + 8), i_gid = b ! (o' + 12), i_nlinks = b ! (o' + 13),
     i_zone = map (\<lambda>i. get16 b (o' + 14 + 2 * i)) [0..<9]\<rparr>"

record file_t =
  f_inode :: u32
  f_pos :: u32

type_synonym 's reader = "u32 \<Rightarrow> u8 \<Rightarrow> 's \<Rightarrow> ((u8 list + u8 list) \<times> 's) option"

section \<open>Model: paths\<close>

text \<open>
  The component array is 32 rows of 31 bytes, that is 992 bytes in a row; a component is
  stored without regard to the length of a row. \<open>None\<close> is a store outside the array.
\<close>

fun store_name :: "nat \<Rightarrow> nat \<Rightarrow> u8 list \<Rightarrow> u8 list \<Rightarrow> u8 list option" where
  "store_name name_i char_i [] components = Some components"
| "store_name name_i char_i (c # cs) components =
     (let i = name_i * (MINIX_MAX_NAME_LENGTH + 1) + char_i in
      if i < length components then store_name name_i (Suc char_i) cs (components[i := c]) else None)"

function split_loop :: "nat \<Rightarrow> u8 list \<Rightarrow> u8 list \<Rightarrow> (nat \<times> u8 list) option" where
  "split_loop name_i path components =
     (let path = dropWhile (\<lambda>c. c = 0x2f) path in
      if path = [] then Some (name_i, components)
      else let name = takeWhile (\<lambda>c. c \<noteq> 0x2f) path in
        case store_name name_i 0 (name @ [0]) components of
          None \<Rightarrow> None
        | Some components \<Rightarrow> split_loop (name_i + 1) (drop (length name) path) components)"
  by pat_completeness auto
termination
proof (relation "measure (\<lambda>(name_i, path, components). length path)", simp, goal_cases)
  case (1 name_i path components p name c)
  then have "0 < length name" using hd_dropWhile [of "\<lambda>c. c = 0x2f" path] by (simp add: takeWhile_eq_Nil_iff)
  then have "length p - length name < length p" using 1 by simp
  also have "\<dots> \<le> length path" using 1 by (simp add: length_dropWhile_le)
  finally show ?case by simp
qed

declare split_loop.simps [simp del]

text \<open>The path is \<open>None\<close> for a null pointer, otherwise the bytes before the NUL.\<close>

definition split_path :: "u8 list option \<Rightarrow> u8 list \<Rightarrow> (nat \<times> u8 list) option" where
  "split_path path components =
     (case path of
        None \<Rightarrow> Some (0, components)
      | Some p \<Rightarrow> if p = [] \<or> hd p \<noteq> 0x2f then Some (0, components) else split_loop 0 p components)"

section \<open>Model: blocks and files\<close>

text \<open>
  A function that reads the disk returns through \<open>Ret\<close>, or stops: \<open>Diverges\<close> when the
  driver does not return. \<open>None\<close> inside \<open>Ret\<close> is the C function returning 0.
\<close>

definition read_sectors :: "'s reader \<Rightarrow> u32 \<Rightarrow> u8 \<Rightarrow> 's \<Rightarrow> (u8 list option, 's) outcome" where
  "read_sectors rd lba n s =
     (case rd lba n s of
        None \<Rightarrow> Stop Diverges s
      | Some (Inl _, s) \<Rightarrow> Ret None s
      | Some (Inr bs, s) \<Rightarrow> Ret (Some bs) s)"

definition read_block :: "'s reader \<Rightarrow> u32 \<Rightarrow> 's \<Rightarrow> (u8 list option, 's) outcome" where
  "read_block rd block_idx s =
     (let lba = FILE_SYSTEM_BASE_SECTOR + (block_idx * SECTORS_PER_BLOCK)
      in read_sectors rd lba (ucast SECTORS_PER_BLOCK) s)"

definition read_inode :: "'s reader \<Rightarrow> u8 list \<Rightarrow> u16 \<Rightarrow> 's \<Rightarrow> (minix_inode option, 's) outcome" where
  "read_inode rd super_block_buf inode_num s =
     (let inode_idx = inode_num - 1;
          super = super_of super_block_buf;
          block_idx = 2 + ucast (s_imap_blocks super) + ucast (s_zmap_blocks super) + ucast (inode_idx div INODES_PER_BLOCK);
          inode_offset = unat (inode_idx mod INODES_PER_BLOCK) * 32
      in and_then (read_block rd block_idx s)
           (\<lambda>b s. Ret (map_option (\<lambda>block_buf. inode_of block_buf inode_offset) b) s))"

definition read_zone_indirect_pointer :: "'s reader \<Rightarrow> u16 \<Rightarrow> u32 \<Rightarrow> 's \<Rightarrow> (u16 option, 's) outcome" where
  "read_zone_indirect_pointer rd indirect_zone idx s =
     and_then (read_block rd (ucast indirect_zone) s)
       (\<lambda>b s. Ret (map_option (\<lambda>block_buf. get16 block_buf (2 * unat idx)) b) s)"

definition map_file_block :: "'s reader \<Rightarrow> minix_inode \<Rightarrow> u32 \<Rightarrow> 's \<Rightarrow> (u32 option, 's) outcome" where
  "map_file_block rd inode zone_idx s =
     and_then
       (if zone_idx < DIRECT_ZONES then Ret (Some (i_zone inode ! unat zone_idx)) s
        else if zone_idx - DIRECT_ZONES < POINTERS_PER_ZONE
        then read_zone_indirect_pointer rd (i_zone inode ! INDIRECT_ZONE_INDEX) (zone_idx - DIRECT_ZONES) s
        else if zone_idx - DIRECT_ZONES - POINTERS_PER_ZONE < POINTERS_PER_ZONE * POINTERS_PER_ZONE
        then let lvl1_zone = i_zone inode ! DOUBLE_INDIRECT_ZONE_INDEX;
                 lvl1_idx = (zone_idx - DIRECT_ZONES - POINTERS_PER_ZONE) div POINTERS_PER_ZONE;
                 lvl2_idx = (zone_idx - DIRECT_ZONES - POINTERS_PER_ZONE) mod POINTERS_PER_ZONE
             in and_then (read_zone_indirect_pointer rd lvl1_zone lvl1_idx s)
                  (\<lambda>z s. case z of None \<Rightarrow> Ret None s
                         | Some lvl2_zone \<Rightarrow> read_zone_indirect_pointer rd lvl2_zone lvl2_idx s)
        else Ret None s)
       (\<lambda>z s. Ret (case z of None \<Rightarrow> None | Some zone \<Rightarrow> if zone = 0 then None else Some (ucast zone)) s)"

definition chunk_size :: "u32 \<Rightarrow> u32 \<Rightarrow> u32" where
  "chunk_size current_file_pos remaining =
     (let block_offset = current_file_pos mod FS_BLOCK_SIZE;
          chunk = FS_BLOCK_SIZE - block_offset
      in if chunk > remaining then remaining else chunk)"

lemma chunk_size_bounds:
  assumes "0 < remaining"
  shows "0 < chunk_size p remaining" "chunk_size p remaining \<le> remaining"
proof -
  have "unat (p mod 1024) < 1024" by (simp add: unat_mod)
  then have "p mod 1024 < (1024 :: u32)" by (simp add: word_less_nat_alt)
  then have "0 < (1024 :: u32) - p mod 1024"
    by (metis diff_gt_0_iff_gt word_gt_0 eq_iff_diff_eq_0 less_irrefl)
  then show "0 < chunk_size p remaining" "chunk_size p remaining \<le> remaining"
    using assms by (auto simp: chunk_size_def Let_def)
qed

text \<open>
  The loop results in whether it ran to its end and the bytes it stored in the buffer, which a
  failure leaves there.
\<close>

function vfs_read_loop :: "'s reader \<Rightarrow> minix_inode \<Rightarrow> u32 \<Rightarrow> u32 \<Rightarrow> u32 \<Rightarrow> 's \<Rightarrow> (bool \<times> u8 list, 's) outcome" where
  "vfs_read_loop rd inode file_pos max_bytes_to_read read s =
     (if read < max_bytes_to_read
      then let current_file_pos = file_pos + read;
               file_block = current_file_pos div FS_BLOCK_SIZE;
               block_offset = current_file_pos mod FS_BLOCK_SIZE;
               chunk = chunk_size current_file_pos (max_bytes_to_read - read)
           in and_then (map_file_block rd inode file_block s) (\<lambda>db s.
                case db of None \<Rightarrow> Ret (False, []) s
                | Some disk_block \<Rightarrow> and_then (read_block rd disk_block s) (\<lambda>b s.
                    case b of None \<Rightarrow> Ret (False, []) s
                    | Some block_buf \<Rightarrow>
                        and_then (vfs_read_loop rd inode file_pos max_bytes_to_read (read + chunk) s) (\<lambda>rest s.
                          Ret (map_prod id ((@) (take (unat chunk) (drop (unat block_offset) block_buf))) rest) s)))
      else Ret (True, []) s)"
  by pat_completeness auto
termination
proof (relation "measure (\<lambda>(rd, inode, file_pos, max_bytes, read, s). unat (max_bytes - read))", simp, goal_cases)
  case (1 rd inode file_pos m read s)
  let ?c = "chunk_size (file_pos + read) (m - read)"
  have pos: "0 < m - read" using 1(1) by (metis diff_gt_0_iff_gt eq_iff_diff_eq_0 less_irrefl word_gt_0)
  then have c: "0 < ?c" "?c \<le> m - read" by (rule chunk_size_bounds)+
  have "m - (read + ?c) = (m - read) - ?c" by simp
  then have "unat (m - (read + ?c)) = unat (m - read) - unat ?c" using c(2) by (simp only: unat_sub_u32_le)
  then show ?case using 1 c pos by (simp add: word_gt_0 unat_gt_0)
qed

declare vfs_read_loop.simps [simp del]

text \<open>The result is the count that is returned, the bytes stored in the buffer and the new \<open>f_pos\<close>.\<close>

definition vfs_read :: "'s reader \<Rightarrow> minix_inode \<Rightarrow> u32 \<Rightarrow> u32 \<Rightarrow> 's \<Rightarrow> (u32 \<times> u8 list \<times> u32, 's) outcome" where
  "vfs_read rd inode file_pos count s =
     (let remaining_in_file = i_size inode - file_pos;
          max_bytes_to_read = (if remaining_in_file < count then remaining_in_file else count)
      in and_then (vfs_read_loop rd inode file_pos max_bytes_to_read 0 s) (\<lambda>r s.
           case r of (done, bs) \<Rightarrow>
             if done then Ret (max_bytes_to_read, bs, file_pos + max_bytes_to_read) s else Ret (0, bs, file_pos) s))"

definition is_directory :: "minix_inode \<Rightarrow> bool" where
  "is_directory inode \<longleftrightarrow> i_mode inode AND MINIX_MODE_MASK = MINIX_MODE_DIRECTORY"

function name_equal_from :: "nat \<Rightarrow> u8 list \<Rightarrow> u8 list \<Rightarrow> bool" where
  "name_equal_from i name1 name2 =
     (if i < MINIX_MAX_NAME_LENGTH + 1
      then if name1 ! i \<noteq> name2 ! i then False
           else if name1 ! i = 0 then name2 ! i = 0
           else name_equal_from (i + 1) name1 name2
      else False)"
  by pat_completeness auto
termination
  by (relation "measure (\<lambda>(i, a, b). 31 - i)") auto

declare name_equal_from.simps [simp del]

definition name_equal :: "u8 list \<Rightarrow> u8 list \<Rightarrow> bool" where
  "name_equal name1 name2 = name_equal_from 0 name1 name2"

function scan_entries :: "nat \<Rightarrow> nat \<Rightarrow> u8 list \<Rightarrow> u8 list \<Rightarrow> u16 option" where
  "scan_entries entry_offset read block_buf name =
     (if entry_offset + 32 \<le> read
      then let child_inode_num = get16 block_buf entry_offset in
           if child_inode_num = 0 then scan_entries (entry_offset + 32) read block_buf name
           else let entry_name = map (\<lambda>i. block_buf ! (entry_offset + 2 + i)) [0..<MINIX_MAX_NAME_LENGTH] @ [0] in
             if name_equal entry_name name then Some child_inode_num
             else scan_entries (entry_offset + 32) read block_buf name
      else None)"
  by pat_completeness auto
termination
  by (relation "measure (\<lambda>(off, read, b, n). read - off)") auto

declare scan_entries.simps [simp del]

lemma vfs_read_advances:
  assumes "vfs_read rd inode pos count s = Ret (n, bs, pos') s'" and "n \<noteq> 0" and "pos < i_size inode"
  shows "pos' = pos + n" "n \<le> i_size inode - pos"
proof -
  let ?m = "if i_size inode - pos < count then i_size inode - pos else count"
  obtain r s1 where "vfs_read_loop rd inode pos ?m 0 s = Ret r s1"
    using assms(1) by (auto simp only: vfs_read_def Let_def and_then_Ret_iff)
  then have "n = ?m \<and> pos' = pos + ?m"
    using assms(1,2) by (cases r; cases "fst r") (auto simp: vfs_read_def Let_def simp del: if_split)
  then show "pos' = pos + n" "n \<le> i_size inode - pos" by auto
qed

function child_loop :: "'s reader \<Rightarrow> minix_inode \<Rightarrow> u8 list \<Rightarrow> u32 \<Rightarrow> 's \<Rightarrow> (u16, 's) outcome" where
  "child_loop rd dir_inode name pos s =
     (if pos < i_size dir_inode
      then let remaining = i_size dir_inode - pos;
               to_read = (if remaining < FS_BLOCK_SIZE then remaining else FS_BLOCK_SIZE)
           in and_then (vfs_read rd dir_inode pos to_read s) (\<lambda>res s.
                case res of (read, block_buf, pos') \<Rightarrow>
                  if read = 0 then Ret 0 s
                  else case scan_entries 0 (unat read) block_buf name of
                    Some child_inode_num \<Rightarrow> Ret child_inode_num s
                  | None \<Rightarrow> child_loop rd dir_inode name pos' s)
      else Ret 0 s)"
  by pat_completeness auto
termination
proof (relation "measure (\<lambda>(rd, dir_inode, name, pos, s). unat (i_size dir_inode - pos))", simp, goal_cases)
  case (1 rd dir name pos s rem cnt res s' n y bs pos')
  note adv = vfs_read_advances [of rd dir pos cnt s n bs pos' s']
  have r: "pos' = pos + n" "n \<le> i_size dir - pos" using adv 1 by auto
  have "i_size dir - pos' = (i_size dir - pos) - n" by (simp add: r(1))
  then have "unat (i_size dir - pos') = unat (i_size dir - pos) - unat n" using r(2) by (simp only: unat_sub_u32_le)
  moreover have "0 < unat n" using 1 by (simp add: unat_gt_0)
  moreover have "unat n \<le> unat (i_size dir - pos)" using r(2) by (simp add: word_le_nat_alt)
  ultimately show ?case by simp
qed

declare child_loop.simps [simp del]

definition get_child_inode_num :: "'s reader \<Rightarrow> minix_inode \<Rightarrow> u8 list \<Rightarrow> 's \<Rightarrow> (u16, 's) outcome" where
  "get_child_inode_num rd dir_inode name s =
     (if \<not> is_directory dir_inode then Ret 0 s else child_loop rd dir_inode name 0 s)"

section \<open>Model: opening and closing\<close>

record fs_mem =
  fm_heap :: heap
  fm_inodes :: "u32 \<rightharpoonup> minix_inode"

text \<open>
  The result of \<open>kmalloc\<close> is used without a test, so a failed allocation is a write through
  a null pointer.
\<close>

definition set_inode :: "minix_inode \<Rightarrow> 's \<times> fs_mem \<Rightarrow> (u8 \<times> file_t, 's \<times> fs_mem) outcome" where
  "set_inode inode st =
     (case st of (s, fm) \<Rightarrow>
      (case kmalloc 32 (fm_heap fm) of
         None \<Rightarrow> Stop Diverges st
       | Some (file_inode, h) \<Rightarrow>
           if file_inode = 0 then Stop Bad_access (s, fm\<lparr>fm_heap := h\<rparr>)
           else Ret (1, \<lparr>f_inode = file_inode, f_pos = 0\<rparr>)
                  (s, fm\<lparr>fm_heap := h, fm_inodes := (fm_inodes fm)(file_inode \<mapsto> inode)\<rparr>)))"

definition on_dev :: "('s \<Rightarrow> ('a, 's) outcome) \<Rightarrow> 's \<times> fs_mem \<Rightarrow> ('a, 's \<times> fs_mem) outcome" where
  "on_dev f st = (case f (fst st) of Ret a s \<Rightarrow> Ret a (s, snd st) | Stop e s \<Rightarrow> Stop e (s, snd st))"

definition component :: "u8 list \<Rightarrow> nat \<Rightarrow> u8 list" where
  "component components i = take (MINIX_MAX_NAME_LENGTH + 1) (drop (i * (MINIX_MAX_NAME_LENGTH + 1)) components)"

fun walk_path :: "'s reader \<Rightarrow> u8 list \<Rightarrow> u8 list list \<Rightarrow> minix_inode \<Rightarrow> 's \<Rightarrow> (minix_inode option, 's) outcome" where
  "walk_path rd super_block_buf [] current_inode s = Ret (Some current_inode) s"
| "walk_path rd super_block_buf (name # names) current_inode s =
     and_then (get_child_inode_num rd current_inode name s) (\<lambda>child_inode_num s.
       if child_inode_num = 0 then Ret None s
       else and_then (read_inode rd super_block_buf child_inode_num s) (\<lambda>i s.
         case i of None \<Rightarrow> Ret None s
         | Some current_inode \<Rightarrow> walk_path rd super_block_buf names current_inode s))"

text \<open>
  The array of components is uninitialised stack memory, the argument \<open>junk\<close>. The file that
  the caller passes is overwritten, so it is only a result.
\<close>

definition vfs_open :: "'s reader \<Rightarrow> u8 list \<Rightarrow> u8 list \<Rightarrow> u8 list option \<Rightarrow> 's \<times> fs_mem \<Rightarrow> (u8 \<times> file_t, 's \<times> fs_mem) outcome" where
  "vfs_open rd super_block_buf junk path st =
     (let closed = \<lparr>f_inode = 0, f_pos = 0\<rparr> in
      case split_path path junk of
        None \<Rightarrow> Stop Bad_access st
      | Some (component_count, components) \<Rightarrow>
          and_then (on_dev (read_inode rd super_block_buf MINIX_ROOT_INODE) st) (\<lambda>root st.
            case root of None \<Rightarrow> Ret (0, closed) st
            | Some current_inode \<Rightarrow>
                if component_count = 0 then set_inode current_inode st
                else and_then (on_dev (walk_path rd super_block_buf
                       (map (component components) [0..<component_count]) current_inode) st) (\<lambda>i st.
                  case i of None \<Rightarrow> Ret (0, closed) st
                  | Some current_inode \<Rightarrow> set_inode current_inode st)))"

definition vfs_close :: "file_t \<Rightarrow> fs_mem \<Rightarrow> (file_t, fs_mem) outcome" where
  "vfs_close file fm =
     (if f_inode file \<noteq> 0
      then case kfree (f_inode file) (fm_heap fm) of
             None \<Rightarrow> Stop Bad_access fm
           | Some h \<Rightarrow> Ret \<lparr>f_inode = 0, f_pos = 0\<rparr> (fm\<lparr>fm_heap := h, fm_inodes := (fm_inodes fm)(f_inode file := None)\<rparr>)
      else Ret \<lparr>f_inode = 0, f_pos = 0\<rparr> fm)"

section \<open>Specification: files\<close>

text \<open>The zone of block \<open>i\<close> of a file, given the contents \<open>blk\<close> of the disk's blocks.\<close>

definition spec_zone :: "(nat \<Rightarrow> u8 list) \<Rightarrow> minix_inode \<Rightarrow> nat \<Rightarrow> nat option" where
  "spec_zone blk inode i =
     (let ptr = (\<lambda>z k. get16 (blk (unat z)) (2 * k));
          z = (if i < 7 then i_zone inode ! i
               else if i < 7 + 512 then ptr (i_zone inode ! 7) (i - 7)
               else if i < 7 + 512 + 512 * 512 then ptr (ptr (i_zone inode ! 8) ((i - 519) div 512)) ((i - 519) mod 512)
               else 0)
      in if z = 0 then None else Some (unat z))"

lemma of_nat_unat_u16: "(of_nat (unat z) :: u32) = ucast (z :: u16)"
proof -
  have "unat z < 4294967296" by (rule order.strict_trans [OF unat_u16_lt]) simp
  then show ?thesis by (simp add: word_unat_eq_iff)
qed

definition byte_at :: "(nat \<Rightarrow> u8 list) \<Rightarrow> minix_inode \<Rightarrow> nat \<Rightarrow> u8 option" where
  "byte_at blk inode p = map_option (\<lambda>z. blk z ! (p mod 1024)) (spec_zone blk inode (p div 1024))"

text \<open>The bytes from \<open>p\<close> on, if none of them lies in a hole.\<close>

definition file_slice :: "(nat \<Rightarrow> u8 list) \<Rightarrow> minix_inode \<Rightarrow> nat \<Rightarrow> nat \<Rightarrow> u8 list option" where
  "file_slice blk inode p n = those (map (byte_at blk inode) [p..<p + n])"

lemma those_append: "those (a @ b) = Option.bind (those a) (\<lambda>x. map_option ((@) x) (those b))"
  by (induction a) (auto simp: map_option_case split: option.splits bind_splits)

lemma those_map_Some: "those (map (\<lambda>i. Some (f i)) xs) = Some (map f xs)"
  by (induction xs) auto

lemma file_slice_append:
  "file_slice blk inode p (a + b) =
     Option.bind (file_slice blk inode p a) (\<lambda>x. map_option ((@) x) (file_slice blk inode (p + a) b))"
proof -
  have "[p..<p + (a + b)] = [p..<p + a] @ [p + a..<p + a + b]" by (metis add.assoc le_add1 upt_add_eq_append)
  then show ?thesis by (simp add: file_slice_def those_append)
qed

lemma file_slice_length: "file_slice blk inode p n = Some bs \<Longrightarrow> length bs = n"
proof -
  have "those xs = Some ys \<Longrightarrow> length ys = length xs" for xs :: "u8 option list" and ys
    by (induction xs arbitrary: ys) (auto split: option.splits)
  then show "file_slice blk inode p n = Some bs \<Longrightarrow> length bs = n" by (fastforce simp: file_slice_def)
qed

text \<open>Inside one block, the slice is a slice of the block.\<close>

lemma file_slice_block:
  assumes "p mod 1024 + n \<le> 1024" and "0 < n" and "\<And>z. length (blk z) = 1024"
  shows "file_slice blk inode p n =
    map_option (\<lambda>z. take n (drop (p mod 1024) (blk z))) (spec_zone blk inode (p div 1024))"
proof -
  have same: "(p + i) div 1024 = p div 1024" "(p + i) mod 1024 = p mod 1024 + i" if "i < n" for i
  proof -
    have "p + i = p div 1024 * 1024 + (p mod 1024 + i)" "p mod 1024 + i < 1024" using assms(1) that by auto
    then show "(p + i) div 1024 = p div 1024" "(p + i) mod 1024 = p mod 1024 + i"
      by (metis add.commute div_mult_self1 div_less add_0 zero_neq_numeral,
          metis mod_less mod_mult_self3)
  qed
  have "map (byte_at blk inode) [p..<p + n] = map (\<lambda>i. byte_at blk inode (p + i)) [0..<n]"
    by (auto simp: list_eq_iff_nth_eq)
  also have "\<dots> = map (\<lambda>i. map_option (\<lambda>z. blk z ! (p mod 1024 + i)) (spec_zone blk inode (p div 1024))) [0..<n]"
    using same by (simp add: byte_at_def)
  finally have eq: "file_slice blk inode p n =
      those (map (\<lambda>i. map_option (\<lambda>z. blk z ! (p mod 1024 + i)) (spec_zone blk inode (p div 1024))) [0..<n])"
    by (simp add: file_slice_def)
  show ?thesis
  proof (cases "spec_zone blk inode (p div 1024)")
    case None
    then show ?thesis unfolding eq using assms(2) by (cases n) (simp_all add: upt_conv_Cons del: upt_Suc)
  next
    case (Some z)
    have "map (\<lambda>i. blk z ! (p mod 1024 + i)) [0..<n] = take n (drop (p mod 1024) (blk z))"
      using assms(1,3) by (auto simp: list_eq_iff_nth_eq)
    then show ?thesis unfolding eq Some by (simp add: those_map_Some)
  qed
qed

section \<open>Reading files from a block device\<close>

definition block_of :: "(nat \<Rightarrow> nat \<Rightarrow> u8 list) \<Rightarrow> nat \<Rightarrow> u8 list" where
  "block_of stored b = stored (2048 + 2 * b) 2"

lemma spec_zone_bound: "spec_zone blk inode i = Some z \<Longrightarrow> z < 65536"
  by (auto simp: spec_zone_def Let_def split: if_splits)

lemma unat_chunk_size:
  assumes "0 < remaining"
  shows "unat (chunk_size p remaining) = min (1024 - unat p mod 1024) (unat remaining)"
proof -
  have m: "unat (p mod 1024) = unat p mod 1024" by (simp add: unat_mod)
  have "unat p mod 1024 < 1024" by simp
  then have "p mod 1024 \<le> 1024" by (simp add: word_le_nat_alt m)
  then have "unat (1024 - p mod 1024) = 1024 - unat p mod 1024" by (simp add: unat_sub_u32_le m)
  then show ?thesis by (simp add: chunk_size_def Let_def word_less_nat_alt min_def)
qed

text \<open>
  The file system as a client of a block device: its lemmas hold for every device that keeps
  the contract.
\<close>

locale minix_fs = block_device rd inv stored reliable
  for rd :: "'s reader" and inv and stored and reliable
begin

text \<open>
  A computation delivers a result: it returns it, or it reports failure on an unreliable
  device.
\<close>

definition delivers :: "('a option, 's) outcome \<Rightarrow> 'a option \<Rightarrow> bool" where
  "delivers m x \<longleftrightarrow> (\<exists>r s. m = Ret r s \<and> inv s \<and> (r = x \<or> \<not> reliable \<and> r = None))"

lemma delivers_Ret: "inv s \<Longrightarrow> delivers (Ret x s) x"
  by (simp add: delivers_def)

lemma delivers_bind:
  assumes "delivers m x" and "\<And>s. inv s \<Longrightarrow> delivers (f x s) y" and "\<And>s. f None s = Ret None s"
  shows "delivers (and_then m f) y"
  using assms by (force simp: delivers_def)

lemma read_block_delivers:
  assumes "inv s" and "unat b < 2 ^ 26"
  shows "delivers (read_block rd b s) (Some (block_of stored (unat b)))"
proof -
  have "unat (b * 2) = unat b * 2" using assms(2) by (simp add: unat_word_ariths)
  then have "unat (FILE_SYSTEM_BASE_SECTOR + b * SECTORS_PER_BLOCK) = 2048 + 2 * unat b"
    using assms(2) by (simp add: unat_add_u32_nowrap)
  then show ?thesis
    using rd_returns [OF assms(1), of "FILE_SYSTEM_BASE_SECTOR + b * SECTORS_PER_BLOCK" 2] assms(2)
    by (auto simp: delivers_def read_block_def read_sectors_def block_of_def isl_def split: sum.splits)
qed

lemma read_pointer_delivers:
  assumes "inv s"
  shows "delivers (read_zone_indirect_pointer rd z i s) (Some (get16 (block_of stored (unat z)) (2 * unat i)))"
proof -
  have "unat (ucast z :: u32) < 2 ^ 26"
    by (simp only: unat_ucast_widen) (rule order.strict_trans [OF unat_u16_lt], simp)
  from read_block_delivers [OF assms this] show ?thesis
    unfolding read_zone_indirect_pointer_def by (rule delivers_bind) (simp_all add: delivers_Ret)
qed

lemma block_index_parts:
  assumes "\<not> idx < (7 :: u32)"
  shows "unat (idx - 7) = unat idx - 7" "idx - 7 < 512 \<longleftrightarrow> unat idx < 519"
    "\<not> idx - 7 < 512 \<Longrightarrow> unat (idx - 7 - 512) = unat idx - 519"
    "\<not> idx - 7 < 512 \<Longrightarrow> idx - 7 - 512 < 512 * 512 \<longleftrightarrow> unat idx < 7 + 512 + 512 * 512"
proof -
  have 7: "(7 :: u32) \<le> idx" using assms by simp
  then show a: "unat (idx - 7) = unat idx - 7" by (simp add: unat_sub_u32_le)
  have n: "7 \<le> unat idx" using 7 by (simp add: word_le_nat_alt)
  show b: "idx - 7 < 512 \<longleftrightarrow> unat idx < 519" using n by (auto simp: word_less_nat_alt a)
  assume "\<not> idx - 7 < 512"
  then have 512: "(512 :: u32) \<le> idx - 7" "519 \<le> unat idx" using b by auto
  then show c: "unat (idx - 7 - 512) = unat idx - 519" using unat_sub_u32_le [OF 512(1)] by (simp add: a)
  show "idx - 7 - 512 < 512 * 512 \<longleftrightarrow> unat idx < 7 + 512 + 512 * 512"
    unfolding word_less_nat_alt c using 512(2) by auto
qed

lemma map_file_block_delivers:
  assumes "inv s"
  shows "delivers (map_file_block rd inode idx s) (map_option of_nat (spec_zone (block_of stored) inode (unat idx)))"
proof -
  define z where "z =
     (let ptr = (\<lambda>z k. get16 (block_of stored (unat z)) (2 * k)); i = unat idx in
      if i < 7 then Some (i_zone inode ! i)
      else if i < 519 then Some (ptr (i_zone inode ! 7) (i - 7))
      else if i < 7 + 512 + 512 * 512 then Some (ptr (ptr (i_zone inode ! 8) ((i - 519) div 512)) ((i - 519) mod 512))
      else None)"
  have spec: "map_option of_nat (spec_zone (block_of stored) inode (unat idx)) =
      (case z of None \<Rightarrow> None | Some zone \<Rightarrow> if zone = 0 then None else Some (ucast zone :: u32))"
    by (simp add: spec_zone_def z_def Let_def of_nat_unat_u16 split: option.split)
  note idx = block_index_parts [of idx]
  show ?thesis
    unfolding map_file_block_def spec
  proof (rule delivers_bind)
    show "delivers (if idx < DIRECT_ZONES then Ret (Some (i_zone inode ! unat idx)) s
        else if idx - DIRECT_ZONES < POINTERS_PER_ZONE
        then read_zone_indirect_pointer rd (i_zone inode ! INDIRECT_ZONE_INDEX) (idx - DIRECT_ZONES) s
        else if idx - DIRECT_ZONES - POINTERS_PER_ZONE < POINTERS_PER_ZONE * POINTERS_PER_ZONE
        then let lvl1_zone = i_zone inode ! DOUBLE_INDIRECT_ZONE_INDEX;
                 lvl1_idx = (idx - DIRECT_ZONES - POINTERS_PER_ZONE) div POINTERS_PER_ZONE;
                 lvl2_idx = (idx - DIRECT_ZONES - POINTERS_PER_ZONE) mod POINTERS_PER_ZONE
             in and_then (read_zone_indirect_pointer rd lvl1_zone lvl1_idx s)
                  (\<lambda>z s. case z of None \<Rightarrow> Ret None s
                         | Some lvl2_zone \<Rightarrow> read_zone_indirect_pointer rd lvl2_zone lvl2_idx s)
        else Ret None s) z"
    proof (cases "idx < 7")
      case True
      then have "unat idx < 7" by (simp add: word_less_nat_alt)
      with True assms show ?thesis by (simp add: z_def Let_def delivers_Ret)
    next
      case 7: False
      then have n7: "\<not> unat idx < 7" by (simp add: word_less_nat_alt)
      show ?thesis
      proof (cases "idx - 7 < 512")
        case True
        with 7 n7 show ?thesis
          using read_pointer_delivers [OF assms, of "i_zone inode ! 7" "idx - 7"]
          by (simp add: z_def Let_def idx(1,2) [OF 7])
      next
        case 512: False
        have c: "unat (idx - 519) = unat idx - 519" "idx - 519 < 512 * 512 \<longleftrightarrow> unat idx < 7 + 512 + 512 * 512"
          using idx(3,4) [OF 7 512] by simp_all
        have "delivers (and_then (read_zone_indirect_pointer rd (i_zone inode ! 8) ((idx - 519) div 512) s)
                  (\<lambda>z s. case z of None \<Rightarrow> Ret None s
                    | Some lvl2_zone \<Rightarrow> read_zone_indirect_pointer rd lvl2_zone ((idx - 519) mod 512) s))
            (Some (get16 (block_of stored (unat (get16 (block_of stored (unat (i_zone inode ! 8))) (2 * ((unat idx - 519) div 512)))))
               (2 * ((unat idx - 519) mod 512))))"
          using read_pointer_delivers [OF assms, of "i_zone inode ! 8" "(idx - 519) div 512"]
            read_pointer_delivers [where i = "(idx - 519) mod 512"] c(1)
          by (intro delivers_bind [where x = "Some (get16 (block_of stored (unat (i_zone inode ! 8))) (2 * ((unat idx - 519) div 512)))"])
            (simp_all add: unat_div unat_mod)
        then show ?thesis using 7 n7 512 assms
          by (simp add: z_def Let_def idx(2) [OF 7] c(2) [simplified] delivers_Ret)
      qed
    qed
  qed (use delivers_Ret in \<open>auto split: option.splits\<close>)
qed

lemma block_of_length: "inv s \<Longrightarrow> length (block_of stored z) = 1024"
  using stored_length [of s _ 2] by (simp add: block_of_def)

end

definition whole :: "bool \<times> 'a \<Rightarrow> 'a option" where
  "whole r = (if fst r then Some (snd r) else None)"

lemma whole_simps [simp]: "whole (False, x) = None" "whole (True, x) = Some x"
    "whole (map_prod id f r) = map_option f (whole r)"
  by (simp_all add: whole_def)

definition read_whole where
  "read_whole rd inode pos mx n s = and_then (vfs_read_loop rd inode pos mx n s) (\<lambda>r s. Ret (whole r) s)"

lemma read_whole_step:
  fixes pos :: u32
  assumes "n < mx"
  defines "c \<equiv> chunk_size (pos + n) (mx - n)"
  shows "read_whole rd inode pos mx n s =
    and_then (map_file_block rd inode ((pos + n) div FS_BLOCK_SIZE) s) (\<lambda>db s.
      case db of None \<Rightarrow> Ret None s
      | Some disk_block \<Rightarrow> and_then (read_block rd disk_block s) (\<lambda>b s.
          case b of None \<Rightarrow> Ret None s
          | Some block_buf \<Rightarrow> and_then (read_whole rd inode pos mx (n + c) s) (\<lambda>rest s.
              Ret (map_option ((@) (take (unat c) (drop (unat ((pos + n) mod FS_BLOCK_SIZE)) block_buf))) rest) s)))"
  unfolding read_whole_def vfs_read_loop.simps [of rd inode pos mx n] if_P [OF assms(1)] Let_def c_def [symmetric]
  by (auto simp: and_then_assoc intro!: and_then_cong split: option.splits)

context minix_fs
begin

lemma vfs_read_loop_delivers:
  "inv s \<Longrightarrow> unat pos + unat mx < 2 ^ 32 \<Longrightarrow> rd_n \<le> mx \<Longrightarrow>
   delivers (read_whole rd inode pos mx rd_n s) (file_slice (block_of stored) inode (unat pos + unat rd_n) (unat mx - unat rd_n))"
proof (induction "unat mx - unat rd_n" arbitrary: rd_n s rule: less_induct)
  case less
  show ?case
  proof (cases "rd_n < mx")
    case False
    then have "rd_n = mx" using less.prems(3) by simp
    then show ?thesis using less.prems(1)
      by (simp add: read_whole_def vfs_read_loop.simps file_slice_def delivers_Ret)
  next
    case True
    define cur where "cur = pos + rd_n"
    define c where "c = chunk_size cur (mx - rd_n)"
    have n: "unat rd_n < unat mx" using True by (simp add: word_less_nat_alt)
    have p: "unat cur = unat pos + unat rd_n"
      using less.prems(2) n by (simp add: cur_def unat_add_u32_nowrap)
    have rem: "unat (mx - rd_n) = unat mx - unat rd_n" using less.prems(3) by (rule unat_sub_u32_le)
    have rem0: "0 < mx - rd_n" using n rem by (simp add: word_less_nat_alt)
    have c: "unat c = min (1024 - unat cur mod 1024) (unat mx - unat rd_n)"
      using unat_chunk_size [OF rem0] by (simp add: c_def rem)
    have "unat cur mod 1024 < 1024" by simp
    then have cb: "0 < unat c" "unat cur mod 1024 + unat c \<le> 1024" "unat c \<le> unat mx - unat rd_n"
      using c n by auto
    have rc: "unat (rd_n + c) = unat rd_n + unat c" using cb(3) n unat_u32_lt [of mx] by (intro unat_add_u32_nowrap) linarith
    have rcle: "rd_n + c \<le> mx" using rc cb(3) n by (simp add: word_le_nat_alt)
    let ?blk = "block_of stored"
    have slice: "file_slice ?blk inode (unat cur) (unat mx - unat rd_n) =
        Option.bind (map_option (\<lambda>z. take (unat c) (drop (unat cur mod 1024) (?blk z))) (spec_zone ?blk inode (unat cur div 1024)))
          (\<lambda>x. map_option ((@) x) (file_slice ?blk inode (unat pos + unat (rd_n + c)) (unat mx - unat (rd_n + c))))"
      using file_slice_append [of ?blk inode "unat cur" "unat c" "unat mx - unat rd_n - unat c"] cb
        file_slice_block [where inode = inode and blk = ?blk, OF cb(2,1) block_of_length [OF less.prems(1)]] p rc
      by (simp add: add.assoc)
    have IH: "delivers (read_whole rd inode pos mx (rd_n + c) s)
        (file_slice ?blk inode (unat pos + unat (rd_n + c)) (unat mx - unat (rd_n + c)))" if "inv s" for s
      using less.hyps [of "rd_n + c" s] that less.prems(2) rcle rc cb(1,3) n by simp
    have "delivers (read_whole rd inode pos mx rd_n s) (file_slice ?blk inode (unat cur) (unat mx - unat rd_n))"
      unfolding read_whole_step [OF True] cur_def [symmetric] c_def [symmetric] slice
    proof (rule delivers_bind)
      show "delivers (map_file_block rd inode (cur div FS_BLOCK_SIZE) s)
          (map_option of_nat (spec_zone ?blk inode (unat cur div 1024)))"
        using map_file_block_delivers [OF less.prems(1), of inode "cur div FS_BLOCK_SIZE"] by (simp add: unat_div)
      fix s
      assume inv: "inv s"
      let ?f = "\<lambda>db s. case db of None \<Rightarrow> Ret None s
                | Some disk_block \<Rightarrow> and_then (read_block rd disk_block s) (\<lambda>b s.
                    case b of None \<Rightarrow> Ret None s
                    | Some block_buf \<Rightarrow>
                        and_then (read_whole rd inode pos mx (rd_n + c) s) (\<lambda>rest s.
                          Ret (map_option ((@) (take (unat c) (drop (unat (cur mod FS_BLOCK_SIZE)) block_buf))) rest) s))"
      show "delivers (?f (map_option of_nat (spec_zone ?blk inode (unat cur div 1024))) s)
          (Option.bind (map_option (\<lambda>z. take (unat c) (drop (unat cur mod 1024) (?blk z))) (spec_zone ?blk inode (unat cur div 1024)))
          (\<lambda>x. map_option ((@) x) (file_slice ?blk inode (unat pos + unat (rd_n + c)) (unat mx - unat (rd_n + c)))))"
      proof (cases "spec_zone ?blk inode (unat cur div 1024)")
        case None
        then show ?thesis using inv by (simp add: delivers_Ret)
      next
        case (Some z)
        have z: "unat (of_nat z :: u32) = z" using spec_zone_bound [OF Some] by simp
        have zb: "unat (of_nat z :: u32) < 2 ^ 26" using spec_zone_bound [OF Some] by simp
        have mod: "unat (cur mod FS_BLOCK_SIZE) = unat cur mod 1024" by (simp add: unat_mod)
        show ?thesis unfolding Some option.map option.case bind.bind_lunit mod
          by (rule delivers_bind [OF read_block_delivers [OF inv zb]], unfold z option.case)
            (rule delivers_bind [OF IH], simp_all add: delivers_Ret)
      qed
    qed simp
    then show ?thesis unfolding p .
  qed
qed

lemma vfs_read_delivers:
  fixes count :: u32
  assumes "inv s" and "pos \<le> i_size inode"
  defines "n \<equiv> min (unat (i_size inode) - unat pos) (unat count)"
  shows "\<exists>r s'. vfs_read rd inode pos count s = Ret r s' \<and> inv s'
    \<and> (r = (case file_slice (block_of stored) inode (unat pos) n of
              None \<Rightarrow> (0, fst (snd r), pos) | Some bs \<Rightarrow> (of_nat n, bs, pos + of_nat n))
       \<or> \<not> reliable \<and> r = (0, fst (snd r), pos))"
proof -
  define mx where "mx = (if i_size inode - pos < count then i_size inode - pos else count)"
  have "unat (i_size inode - pos) = unat (i_size inode) - unat pos" using assms(2) by (rule unat_sub_u32_le)
  then have mx: "unat mx = n" by (auto simp: mx_def n_def word_less_nat_alt min_def)
  then have mxn: "mx = of_nat n" by (metis word_unat_eq_iff unat_of_nat_u32 unat_u32_lt)
  have "unat pos \<le> unat (i_size inode)" using assms(2) by (simp add: word_le_nat_alt)
  then have "unat pos + unat mx \<le> unat (i_size inode)" using mx by (auto simp: n_def)
  also have "\<dots> < 2 ^ 32" using unat_u32_lt [of "i_size inode"] by simp
  finally have "unat pos + unat mx < 2 ^ 32" .
  then have "delivers (read_whole rd inode pos mx 0 s) (file_slice (block_of stored) inode (unat pos) n)"
    using vfs_read_loop_delivers [OF assms(1), of pos mx 0 inode] by (simp add: mx)
  then obtain ok bs s' where r: "vfs_read_loop rd inode pos mx 0 s = Ret (ok, bs) s'" "inv s'"
      "whole (ok, bs) = file_slice (block_of stored) inode (unat pos) n \<or> \<not> reliable \<and> whole (ok, bs) = None"
    by (auto simp: delivers_def read_whole_def and_then_Ret_iff)
  have "vfs_read rd inode pos count s = Ret (if ok then (mx, bs, pos + mx) else (0, bs, pos)) s'"
    using r(1) by (auto simp: vfs_read_def Let_def mx_def simp del: if_split)
  then show ?thesis using r(2,3) by (cases ok) (auto simp: mxn split: option.splits)
qed

end

section \<open>Specification: directories\<close>

definition entry :: "u8 list \<Rightarrow> nat \<Rightarrow> u16 \<times> u8 list" where
  "entry bs i = (get16 bs (32 * i), takeWhile (\<lambda>c. c \<noteq> 0) (take 30 (drop (32 * i + 2) bs)))"

definition dir_lookup :: "u8 list \<Rightarrow> nat \<Rightarrow> nat \<Rightarrow> u8 list \<Rightarrow> u16 option" where
  "dir_lookup bs a b name = map_option fst (find (\<lambda>(n, m). n \<noteq> 0 \<and> m = name) (map (entry bs) [a..<b]))"

text \<open>A row of the component array that holds a given name.\<close>

definition holds_name :: "u8 list \<Rightarrow> u8 list \<Rightarrow> bool" where
  "holds_name row name \<longleftrightarrow> length name \<le> 30 \<and> 0 \<notin> set name \<and> length row = 31 \<and> take (length name + 1) row = name @ [0]"

lemma name_equal_from_iff:
  "name_equal_from i a b \<longleftrightarrow>
     (\<exists>k. i \<le> k \<and> k < 31 \<and> a ! k = 0 \<and> b ! k = 0 \<and> (\<forall>j. i \<le> j \<and> j < k \<longrightarrow> a ! j = b ! j \<and> a ! j \<noteq> 0))"
proof (induction i a b rule: name_equal_from.induct)
  case (1 i a b)
  show ?case
  proof (cases "i < 31 \<and> a ! i = b ! i \<and> a ! i \<noteq> 0")
    case True
    then have "name_equal_from i a b = name_equal_from (Suc i) a b" by (auto simp: name_equal_from.simps [of i])
    also have "\<dots> \<longleftrightarrow> (\<exists>k. Suc i \<le> k \<and> k < 31 \<and> a ! k = 0 \<and> b ! k = 0 \<and> (\<forall>j. Suc i \<le> j \<and> j < k \<longrightarrow> a ! j = b ! j \<and> a ! j \<noteq> 0))"
      using "1.IH" True by auto
    also have "\<dots> \<longleftrightarrow> (\<exists>k. i \<le> k \<and> k < 31 \<and> a ! k = 0 \<and> b ! k = 0 \<and> (\<forall>j. i \<le> j \<and> j < k \<longrightarrow> a ! j = b ! j \<and> a ! j \<noteq> 0))"
      using True by (metis Suc_leD Suc_leI le_neq_implies_less)
    finally show ?thesis .
  next
    case False
    then show ?thesis by (auto simp: name_equal_from.simps [of i]) (metis le_neq_implies_less order_refl)+
  qed
qed

lemma takeWhile_eq_prefix:
  assumes "length name < length xs" and "0 \<notin> set name"
  shows "takeWhile (\<lambda>c. c \<noteq> 0) xs = name \<longleftrightarrow> xs ! length name = 0 \<and> (\<forall>j < length name. xs ! j = name ! j)"
proof
  assume "takeWhile (\<lambda>c. c \<noteq> 0) xs = name"
  then show "xs ! length name = 0 \<and> (\<forall>j < length name. xs ! j = name ! j)"
    using assms nth_length_takeWhile [of "\<lambda>c. c \<noteq> 0" xs] takeWhile_nth [of _ "\<lambda>c. c \<noteq> 0" xs] by auto
next
  assume *: "xs ! length name = 0 \<and> (\<forall>j < length name. xs ! j = name ! j)"
  then have "take (length name) xs = name" using assms by (auto simp: list_eq_iff_nth_eq)
  moreover have "xs ! i \<noteq> 0" if "i < length name" for i using * assms(2) that nth_mem by metis
  then have "takeWhile (\<lambda>c. c \<noteq> 0) xs = take (length name) xs"
    using * by (intro takeWhile_eq_take_P_nth) auto
  ultimately show "takeWhile (\<lambda>c. c \<noteq> 0) xs = name" by simp
qed

lemma name_equal_entry:
  assumes "holds_name row name" and "length e = 30"
  shows "name_equal (e @ [0]) row \<longleftrightarrow> takeWhile (\<lambda>c. c \<noteq> 0) e = name"
proof -
  let ?e = "e @ [0]"
  have row: "length row = 31" "length name \<le> 30" "0 \<notin> set name" "row ! length name = 0"
    "\<And>j. j < length name \<Longrightarrow> row ! j = name ! j"
    using assms(1) by (auto simp: holds_name_def) (metis nth_append_length nth_take lessI, metis nth_append nth_take less_SucI)+
  have "name_equal ?e row \<longleftrightarrow> ?e ! length name = 0 \<and> (\<forall>j < length name. ?e ! j = name ! j)"
  proof
    assume "name_equal ?e row"
    then obtain k where k: "k < 31" "?e ! k = 0" "row ! k = 0" "\<forall>j < k. ?e ! j = row ! j \<and> ?e ! j \<noteq> 0"
      by (auto simp: name_equal_def name_equal_from_iff)
    have "k = length name"
    proof (cases k "length name" rule: linorder_cases)
      case less
      then have "name ! k = 0" using row(5) k(3) by metis
      then show ?thesis using row(3) less nth_mem by metis
    next
      case greater
      then show ?thesis using k(4) row(4) by metis
    qed
    with k row(5) show "?e ! length name = 0 \<and> (\<forall>j < length name. ?e ! j = name ! j)" by simp
  next
    assume *: "?e ! length name = 0 \<and> (\<forall>j < length name. ?e ! j = name ! j)"
    have "name ! j \<noteq> 0" if "j < length name" for j using row(3) that nth_mem by metis
    then show "name_equal ?e row"
      unfolding name_equal_def name_equal_from_iff using * row by (intro exI [of _ "length name"]) auto
  qed
  also have "\<dots> \<longleftrightarrow> takeWhile (\<lambda>c. c \<noteq> 0) ?e = name"
    using takeWhile_eq_prefix [of name ?e] row(2,3) assms(2) by simp
  also have "takeWhile (\<lambda>c. c \<noteq> 0) ?e = takeWhile (\<lambda>c. c \<noteq> 0) e" by (simp add: takeWhile_tail)
  finally show ?thesis .
qed

lemma entry_bytes:
  assumes "32 * i + 32 \<le> length bs"
  shows "map (\<lambda>j. bs ! (32 * i + 2 + j)) [0..<30] = take 30 (drop (32 * i + 2) bs)"
  using assms by (auto simp: list_eq_iff_nth_eq)

lemma scan_entries_lookup:
  assumes "holds_name row name" and "n \<le> length bs"
  shows "scan_entries (32 * i) n bs row = dir_lookup bs i (n div 32) name"
proof (induction "n div 32 - i" arbitrary: i)
  case 0
  then have "\<not> 32 * i + 32 \<le> n" by (metis add.commute div_le_mono diff_is_0_eq mult_Suc_right nonzero_mult_div_cancel_left not_less_eq_eq zero_neq_numeral)
  with 0 show ?case by (simp add: scan_entries.simps dir_lookup_def)
next
  case (Suc k)
  then have i: "i < n div 32" by simp
  then have le: "32 * i + 32 \<le> n" by (metis Suc_leI add.commute div_mult_self_is_m dual_order.trans less_eq_div_iff_mult_less_eq mult.commute mult_Suc_right zero_less_numeral)
  have bytes: "map (\<lambda>j. bs ! (32 * i + 2 + j)) [0..<MINIX_MAX_NAME_LENGTH] = take 30 (drop (32 * i + 2) bs)"
    using le assms(2) by (intro entry_bytes) simp
  have len: "length (take 30 (drop (32 * i + 2) bs)) = 30" using le assms(2) by simp
  have IH: "scan_entries (32 * i + 32) n bs row = dir_lookup bs (Suc i) (n div 32) name"
    using Suc.hyps(1) [of "Suc i"] Suc.hyps(2) by (simp add: algebra_simps)
  have "[i..<n div 32] = i # [Suc i..<n div 32]" using i by (simp add: upt_conv_Cons)
  then show ?case
    unfolding scan_entries.simps [of "32 * i"] Let_def if_P [OF le] bytes name_equal_entry [OF assms(1) len] IH
    by (simp add: dir_lookup_def entry_def)
qed

lemma entry_slice:
  assumes "32 * i + 32 \<le> n" and "p + n \<le> length bs" and "p = 32 * q"
  shows "entry (take n (drop p bs)) i = entry bs (q + i)"
proof -
  have "get16 (take n (drop p bs)) (32 * i) = get16 bs (32 * (q + i))"
    using assms by (simp add: get16_def add.assoc distrib_left)
  moreover have "take 30 (drop (32 * i + 2) (take n (drop p bs))) = take 30 (drop (32 * (q + i) + 2) bs)"
    using assms by (simp add: list_eq_iff_nth_eq add.assoc distrib_left)
  ultimately show ?thesis by (simp add: entry_def)
qed

lemma dir_lookup_slice:
  assumes "p + n \<le> length bs" and "p = 32 * q"
  shows "dir_lookup (take n (drop p bs)) 0 (n div 32) name = dir_lookup bs q (q + n div 32) name"
proof -
  have "map (entry (take n (drop p bs))) [0..<n div 32] = map (entry bs) [q..<q + n div 32]"
  proof (rule nth_equalityI)
    fix i
    assume "i < length (map (entry (take n (drop p bs))) [0..<n div 32])"
    then have "i < n div 32" by simp
    then have "32 * i + 32 \<le> n" by (metis Suc_leI add.commute dual_order.trans less_eq_div_iff_mult_less_eq mult.commute mult_Suc_right zero_less_numeral)
    then show "map (entry (take n (drop p bs))) [0..<n div 32] ! i = map (entry bs) [q..<q + n div 32] ! i"
      using \<open>i < n div 32\<close> entry_slice [OF _ assms] by simp
  qed simp
  then show ?thesis by (simp add: dir_lookup_def)
qed

lemma dir_lookup_split:
  "a \<le> b \<Longrightarrow> b \<le> c \<Longrightarrow> dir_lookup bs a c name =
     (case dir_lookup bs a b name of Some n \<Rightarrow> Some n | None \<Rightarrow> dir_lookup bs b c name)"
proof -
  have find_append: "find P (xs @ ys) = (case find P xs of Some x \<Rightarrow> Some x | None \<Rightarrow> find P ys)" for P and xs ys :: "(u16 \<times> u8 list) list"
    by (induction xs) auto
  assume "a \<le> b" "b \<le> c"
  then have "[a..<c] = [a..<b] @ [b..<c]" using upt_add_eq_append [of a b "c - b"] by simp
  then show ?thesis by (auto simp: dir_lookup_def find_append split: option.splits)
qed

lemma file_slice_sub:
  assumes "file_slice blk inode 0 N = Some c" and "p + n \<le> N"
  shows "file_slice blk inode p n = Some (take n (drop p c))"
proof -
  obtain a where a: "file_slice blk inode 0 p = Some a"
    using assms file_slice_append [of blk inode 0 p "N - p"] by (cases "file_slice blk inode 0 p") auto
  obtain b where b: "file_slice blk inode p n = Some b" "file_slice blk inode 0 (p + n) = Some (a @ b)"
    using assms file_slice_append [of blk inode 0 "p + n" "N - (p + n)"] file_slice_append [of blk inode 0 p n] a
    by (cases "file_slice blk inode p n") auto
  obtain d where "c = a @ b @ d"
    using assms file_slice_append [of blk inode 0 "p + n" "N - (p + n)"] b(2)
    by (cases "file_slice blk inode (p + n) (N - (p + n))") auto
  then show ?thesis using file_slice_length [OF a] file_slice_length [OF b(1)] b(1) by simp
qed

text \<open>The inode with a given number.\<close>

definition spec_inode :: "(nat \<Rightarrow> u8 list) \<Rightarrow> u8 list \<Rightarrow> u16 \<Rightarrow> minix_inode" where
  "spec_inode blk sb num =
     (let i = unat (num - 1) in
      inode_of (blk (2 + unat (s_imap_blocks (super_of sb)) + unat (s_zmap_blocks (super_of sb)) + i div 32)) (i mod 32 * 32))"

text \<open>
  Following a list of names from an inode. There is no rule for a directory with a hole, so
  the relation also says that the directories on the way have none.
\<close>

inductive resolves :: "(nat \<Rightarrow> u8 list) \<Rightarrow> u8 list \<Rightarrow> minix_inode \<Rightarrow> u8 list list \<Rightarrow> minix_inode option \<Rightarrow> bool"
  for blk :: "nat \<Rightarrow> u8 list" and sb :: "u8 list" where
  here: "resolves blk sb inode [] (Some inode)"
| not_dir: "\<not> is_directory inode \<Longrightarrow> resolves blk sb inode (n # ns) None"
| no_entry: "is_directory inode \<Longrightarrow> file_slice blk inode 0 (unat (i_size inode)) = Some c \<Longrightarrow>
    dir_lookup c 0 (unat (i_size inode) div 32) n = None \<Longrightarrow> resolves blk sb inode (n # ns) None"
| found: "is_directory inode \<Longrightarrow> file_slice blk inode 0 (unat (i_size inode)) = Some c \<Longrightarrow>
    dir_lookup c 0 (unat (i_size inode) div 32) n = Some k \<Longrightarrow> resolves blk sb (spec_inode blk sb k) ns r \<Longrightarrow>
    resolves blk sb inode (n # ns) r"

inductive_cases resolves_ConsE: "resolves blk sb inode (n # ns) r"

lemma dir_lookup_nonzero: "dir_lookup c a b n = Some k \<Longrightarrow> k \<noteq> 0"
  by (auto simp: dir_lookup_def find_Some_iff)

context minix_fs
begin

lemma child_loop_finds:
  assumes slice: "file_slice (block_of stored) dir 0 (unat (i_size dir)) = Some c" and row: "holds_name row name"
  shows "inv s \<Longrightarrow> pos \<le> i_size dir \<Longrightarrow> (pos < i_size dir \<Longrightarrow> 1024 dvd unat pos) \<Longrightarrow>
    \<exists>r s'. child_loop rd dir row pos s = Ret r s' \<and> inv s'
      \<and> (r = (case dir_lookup c (unat pos div 32) (unat (i_size dir) div 32) name of None \<Rightarrow> 0 | Some n \<Rightarrow> n)
          \<or> \<not> reliable \<and> r = 0)"
proof (induction "unat (i_size dir) - unat pos" arbitrary: pos s rule: less_induct)
  case less
  let ?N = "unat (i_size dir)"
  show ?case
  proof (cases "pos < i_size dir")
    case False
    then have "pos = i_size dir" using less.prems(2) by simp
    then show ?thesis using less.prems(1) by (simp add: child_loop.simps dir_lookup_def)
  next
    case True
    define n where "n = min (?N - unat pos) 1024"
    define cnt where "cnt = (if i_size dir - pos < FS_BLOCK_SIZE then i_size dir - pos else FS_BLOCK_SIZE)"
    have rem: "unat (i_size dir - pos) = ?N - unat pos" using less.prems(2) by (rule unat_sub_u32_le)
    then have cnt: "unat cnt = n" by (auto simp: cnt_def n_def word_less_nat_alt min_def)
    have lt: "unat pos < ?N" using True by (simp add: word_less_nat_alt)
    have n: "0 < n" "n \<le> 1024" "unat pos + n \<le> ?N" using lt by (auto simp: n_def)
    have nw: "unat (of_nat n :: u32) = n" using n(2) by simp
    obtain k where "unat pos = 1024 * k" using less.prems(3) [OF True] by (elim dvdE)
    then have "unat pos = 32 * (32 * k)" by simp
    then obtain q where q: "unat pos = 32 * q" by blast
    have len: "length c = ?N" using file_slice_length [OF slice] .
    let ?b = "take n (drop (unat pos) c)"
    have sl: "file_slice (block_of stored) dir (unat pos) n = Some ?b" using file_slice_sub [OF slice n(3)] .
    have mn: "min (?N - unat pos) (unat cnt) = n" using cnt by (simp add: n_def)
    obtain r s1 where r: "vfs_read rd dir pos cnt s = Ret r s1" "inv s1"
        "r = (of_nat n, ?b, pos + of_nat n) \<or> \<not> reliable \<and> r = (0, fst (snd r), pos)"
      using vfs_read_delivers [OF less.prems(1,2), of cnt] unfolding mn sl by auto
    have step: "child_loop rd dir row pos s = (case r of (read, block_buf, pos') \<Rightarrow>
        (if read = 0 then Ret 0 s1 else (case scan_entries 0 (unat read) block_buf row of
          Some k \<Rightarrow> Ret k s1 | None \<Rightarrow> child_loop rd dir row pos' s1)))"
      using True r(1) by (subst child_loop.simps) (simp add: Let_def cnt_def)
    have split: "dir_lookup c q (?N div 32) name =
        (case dir_lookup c q (q + n div 32) name of Some k \<Rightarrow> Some k | None \<Rightarrow> dir_lookup c (q + n div 32) (?N div 32) name)"
      using n(3) q by (intro dir_lookup_split) (auto simp: div_le_mono [of "32 * q + n" ?N 32, simplified])
    show ?thesis
    proof (cases "r = (of_nat n, ?b, pos + of_nat n)")
      case True
      have "of_nat n \<noteq> (0 :: u32)" using n(1) nw by (metis unat_0 less_irrefl)
      moreover have "scan_entries 0 n ?b row = dir_lookup c q (q + n div 32) name"
        using scan_entries_lookup [OF row, of n ?b 0] dir_lookup_slice [of "unat pos" n c q name] n(3) q len by simp
      ultimately have st: "child_loop rd dir row pos s = (case dir_lookup c q (q + n div 32) name of
          Some k \<Rightarrow> Ret k s1 | None \<Rightarrow> child_loop rd dir row (pos + of_nat n) s1)"
        using step True nw by simp
      show ?thesis
      proof (cases "dir_lookup c q (q + n div 32) name")
        case (Some k)
        then show ?thesis using st split q r(2) by simp
      next
        case None
        have p': "unat (pos + of_nat n) = unat pos + n"
          using n(3) nw unat_u32_lt [of "i_size dir"] by (subst unat_add_u32_nowrap) (simp_all del: unat_u32_lt)
        have le': "pos + of_nat n \<le> i_size dir" using p' n(3) by (simp add: word_le_nat_alt)
        have al: "1024 dvd unat (pos + of_nat n)" if "pos + of_nat n < i_size dir"
        proof -
          have "unat pos + n < ?N" using that p' by (simp add: word_less_nat_alt)
          then have "n = 1024" by (auto simp: n_def)
          then show ?thesis using p' less.prems(3) [OF \<open>pos < i_size dir\<close>] by simp
        qed
        have "(unat pos + n) div 32 = q + n div 32" using q by simp
        then show ?thesis
          using less.hyps [of "pos + of_nat n" s1] r(2) le' al p' n(1,3) lt st split None q by simp
      qed
    next
      case False
      then show ?thesis using r step by (cases r) auto
    qed
  qed
qed

lemma get_child_finds:
  assumes "inv s" and "holds_name row name" and "is_directory dir"
    and "file_slice (block_of stored) dir 0 (unat (i_size dir)) = Some c"
  shows "\<exists>k s'. get_child_inode_num rd dir row s = Ret k s' \<and> inv s'
    \<and> (k = (case dir_lookup c 0 (unat (i_size dir) div 32) name of None \<Rightarrow> 0 | Some n \<Rightarrow> n) \<or> \<not> reliable \<and> k = 0)"
  using child_loop_finds [OF assms(4,2,1), of 0] assms(3) by (simp add: get_child_inode_num_def)

lemma read_inode_delivers:
  assumes "inv s"
  shows "delivers (read_inode rd sb num s) (Some (spec_inode (block_of stored) sb num))"
proof -
  let ?a = "s_imap_blocks (super_of sb)" and ?b = "s_zmap_blocks (super_of sb)" and ?i = "num - 1"
  define idx :: u32 where "idx = 2 + ucast ?a + ucast ?b + ucast (?i div INODES_PER_BLOCK)"
  have d: "unat (?i div 32) = unat ?i div 32" by (simp add: unat_div)
  have lt: "unat ?a < 65536" "unat ?b < 65536" "unat ?i div 32 < 65536"
    by simp_all (rule order.strict_trans1 [OF div_le_dividend unat_u16_lt])
  have "idx = of_nat (2 + unat ?a + unat ?b + unat ?i div 32)"
    unfolding idx_def by (simp add: of_nat_unat_u16 flip: d)
  moreover have "2 + unat ?a + unat ?b + unat ?i div 32 < 4294967296" using lt by linarith
  ultimately have idx: "unat idx = 2 + unat ?a + unat ?b + unat ?i div 32"
    by (simp only: unat_of_nat_u32)
  then have "unat idx < 67108864" using lt by linarith
  then have "unat idx < 2 ^ 26" by simp
  from read_block_delivers [OF assms this] show ?thesis
    unfolding read_inode_def Let_def idx_def [symmetric]
    by (rule delivers_bind) (simp_all add: delivers_Ret spec_inode_def Let_def idx unat_mod)
qed

lemma walk_path_delivers:
  "resolves (block_of stored) sb inode names r \<Longrightarrow> list_all2 holds_name rows names \<Longrightarrow> inv s \<Longrightarrow>
   delivers (walk_path rd sb rows inode s) r"
proof (induction arbitrary: rows s rule: resolves.induct)
  case (here inode)
  then show ?case by (simp add: delivers_Ret)
next
  case (not_dir inode n ns)
  then show ?case by (auto simp: list_all2_Cons2 get_child_inode_num_def delivers_Ret)
next
  case (no_entry inode c n ns)
  then obtain row rs where rows: "rows = row # rs" "holds_name row n" by (auto simp: list_all2_Cons2)
  show ?case using get_child_finds [OF no_entry.prems(2) rows(2) no_entry.hyps(1,2)] no_entry.hyps(3)
    by (auto simp: rows(1) delivers_def)
next
  case (found inode c n k ns r)
  then obtain row rs where rows: "rows = row # rs" "holds_name row n" "list_all2 holds_name rs ns"
    by (auto simp: list_all2_Cons2)
  have "k \<noteq> 0" using dir_lookup_nonzero [OF found.hyps(3)] .
  obtain k' s1 where c: "get_child_inode_num rd inode row s = Ret k' s1" "inv s1" "k' = k \<or> \<not> reliable \<and> k' = 0"
    using get_child_finds [OF found.prems(2) rows(2) found.hyps(1,2)] found.hyps(3) by auto
  have "delivers (and_then (read_inode rd sb k s1) (\<lambda>i s.
      case i of None \<Rightarrow> Ret None s | Some i \<Rightarrow> walk_path rd sb rs i s)) r"
    using found.IH [OF rows(3)] by (intro delivers_bind [OF read_inode_delivers [OF c(2)]]) simp_all
  then show ?case using c \<open>k \<noteq> 0\<close> by (auto simp: rows(1) delivers_def)
qed

end

section \<open>Specification: paths\<close>

fun split_on :: "u8 \<Rightarrow> u8 list \<Rightarrow> u8 list list" where
  "split_on c [] = [[]]"
| "split_on c (x # xs) =
     (if x = c then [] # split_on c xs
      else case split_on c xs of [] \<Rightarrow> [[x]] | w # ws \<Rightarrow> (x # w) # ws)"

text \<open>The names of a path: the nonempty parts between slashes.\<close>

definition path_names :: "u8 list \<Rightarrow> u8 list list" where
  "path_names p = filter (\<lambda>w. w \<noteq> []) (split_on 0x2f p)"

lemma split_on_takeWhile:
  "split_on c xs = takeWhile (\<lambda>x. x \<noteq> c) xs #
     (case dropWhile (\<lambda>x. x \<noteq> c) xs of [] \<Rightarrow> [] | _ # ys \<Rightarrow> split_on c ys)"
  by (induction xs) (auto split: list.splits)

lemma path_names_slashes: "path_names (dropWhile (\<lambda>c. c = 0x2f) p) = path_names p"
  by (induction p) (auto simp: path_names_def)

lemma path_names_step:
  assumes "p \<noteq> []" and "hd p \<noteq> 0x2f"
  defines "name \<equiv> takeWhile (\<lambda>c. c \<noteq> 0x2f) p"
  shows "path_names p = name # path_names (drop (length name) p)"
proof -
  have d: "drop (length name) p = dropWhile (\<lambda>c. c \<noteq> 0x2f) p"
    by (metis append_eq_conv_conj name_def takeWhile_dropWhile_id)
  have "name \<noteq> []" using assms by (cases p) auto
  moreover have "path_names (dropWhile (\<lambda>c. c \<noteq> 0x2f) p) =
      filter (\<lambda>w. w \<noteq> []) (case dropWhile (\<lambda>c. c \<noteq> 0x2f) p of [] \<Rightarrow> [] | _ # ys \<Rightarrow> split_on 0x2f ys)"
  proof (cases "dropWhile (\<lambda>c. c \<noteq> 0x2f) p")
    case (Cons x ys)
    then have "x = 0x2f" using hd_dropWhile [of "\<lambda>c. c \<noteq> 0x2f" p] by simp
    then show ?thesis using Cons by (simp add: path_names_def)
  next
    case Nil
    then show ?thesis by (simp only: path_names_def) simp
  qed
  ultimately show ?thesis
    unfolding path_names_def split_on_takeWhile [of _ p] by (simp add: d [unfolded name_def] name_def path_names_def)
qed

lemma path_names_Nil: "path_names [] = []"
  by (simp add: path_names_def)

lemma store_name_spec:
  "store_name i j cs comps =
     (if cs = [] \<or> i * 31 + j + length cs \<le> length comps
      then Some (take (i * 31 + j) comps @ cs @ drop (i * 31 + j + length cs) comps) else None)"
  if "i * 31 + j \<le> length comps"
  using that
proof (induction i j cs comps rule: store_name.induct)
  case (2 i j c cs comps)
  show ?case
  proof (cases "i * 31 + j < length comps")
    case True
    then have "take (Suc (i * 31 + j)) (comps[i * 31 + j := c]) = take (i * 31 + j) comps @ [c]"
      by (simp add: take_Suc_conv_app_nth)
    with True 2 show ?thesis by (auto simp: Let_def)
  qed (use 2 in \<open>auto simp: Let_def\<close>)
qed auto

lemma component_store:
  assumes "length comps = 992" and "k < 32" and "length cs \<le> 31"
    and "store_name k 0 cs comps = Some comps'"
  shows "length comps' = 992" "i \<noteq> k \<Longrightarrow> i < 32 \<Longrightarrow> component comps' i = component comps i"
    "take (length cs) (component comps' k) = cs" "i < 32 \<Longrightarrow> length (component comps i) = 31"
proof -
  have eq: "comps' = take (k * 31) comps @ cs @ drop (k * 31 + length cs) comps"
    using assms store_name_spec [of k 0 comps cs] by (auto split: if_splits)
  have b: "k * 31 + 31 \<le> 992" using assms(2) by simp
  show len: "length comps' = 992" unfolding eq using assms(1,3) b by simp
  show "length (component comps i) = 31" if "i < 32" using that assms(1) by (simp add: component_def)
  show "take (length cs) (component comps' k) = cs"
    unfolding eq component_def using assms(1,3) b by simp
  show "component comps' i = component comps i" if "i \<noteq> k" "i < 32"
  proof (rule nth_equalityI)
    show "length (component comps' i) = length (component comps i)"
      using len assms(1) by (simp add: component_def)
    fix j
    assume "j < length (component comps' i)"
    then have j: "j < 31" by (simp add: component_def)
    then have nth: "component comps' i ! j = comps' ! (i * 31 + j)" "component comps i ! j = comps ! (i * 31 + j)"
      using that len assms(1) by (simp_all add: component_def)
    have "i * 31 + j < k * 31 \<or> k * 31 + length cs \<le> i * 31 + j"
      using that(1) j assms(3) by linarith
    then show "component comps' i ! j = component comps i ! j"
      unfolding nth eq [THEN arg_cong, of "\<lambda>c. c ! (i * 31 + j)"]
      using assms(1,3) b j that(2) by (auto simp: nth_append)
  qed
qed

lemma split_loop_components:
  assumes "length comps = 992" and "0 \<notin> set p" and "\<forall>w \<in> set (path_names p). length w \<le> 30"
    and "k + length (path_names p) \<le> 32"
  shows "\<exists>comps'. split_loop k p comps = Some (k + length (path_names p), comps') \<and> length comps' = 992
    \<and> (\<forall>i < k. component comps' i = component comps i)
    \<and> (\<forall>i < length (path_names p). holds_name (component comps' (k + i)) (path_names p ! i))"
  using assms
proof (induction k p comps rule: split_loop.induct)
  case (1 k p comps)
  define q where "q = dropWhile (\<lambda>c. c = 0x2f) p"
  show ?case
  proof (cases "q = []")
    case True
    then have "path_names p = []" using path_names_slashes [of p] path_names_Nil by (simp only: q_def)
    then show ?thesis using 1(2) True by (simp add: split_loop.simps q_def)
  next
    case False
    define name where "name = takeWhile (\<lambda>c. c \<noteq> 0x2f) q"
    have hd: "hd q \<noteq> 0x2f" using hd_dropWhile [of "\<lambda>c. c = 0x2f" p] False by (simp add: q_def)
    have names: "path_names p = name # path_names (drop (length name) q)"
      using path_names_step [OF False hd] path_names_slashes [of p] by (simp add: q_def name_def)
    have sub: "set q \<subseteq> set p" "set name \<subseteq> set q" "set (drop (length name) q) \<subseteq> set q"
      by (auto simp: q_def name_def dest: set_dropWhileD set_takeWhileD in_set_dropD)
    have nm: "length name \<le> 30" "0 \<notin> set name" using "1.prems"(2,3) names sub by auto
    have k: "k < 32" using "1.prems"(4) names by simp
    have "k * 31 + length (name @ [0]) \<le> length comps" using k nm(1) "1.prems"(1) by simp
    then obtain comps1 where st: "store_name k 0 (name @ [0]) comps = Some comps1"
      using store_name_spec [of k 0 comps "name @ [0]"] by auto
    have cs: "length (name @ [0]) \<le> 31" using nm(1) by simp
    note s1 = component_store [OF "1.prems"(1) k cs st]
    have "\<exists>comps'. split_loop (k + 1) (drop (length name) q) comps1 =
          Some (k + 1 + length (path_names (drop (length name) q)), comps') \<and> length comps' = 992
        \<and> (\<forall>i < k + 1. component comps' i = component comps1 i)
        \<and> (\<forall>i < length (path_names (drop (length name) q)).
             holds_name (component comps' (k + 1 + i)) (path_names (drop (length name) q) ! i))"
      using "1.IH" [OF q_def False name_def st s1(1)] "1.prems" names sub by auto
    then obtain comps' where r: "split_loop (k + 1) (drop (length name) q) comps1 =
          Some (k + 1 + length (path_names (drop (length name) q)), comps')" "length comps' = 992"
        "\<forall>i < k + 1. component comps' i = component comps1 i"
        "\<forall>i < length (path_names (drop (length name) q)).
             holds_name (component comps' (k + 1 + i)) (path_names (drop (length name) q) ! i)" by blast
    have "split_loop k p comps = Some (k + length (path_names p), comps')"
      using False st r(1) names by (subst split_loop.simps) (simp add: q_def [symmetric] name_def [symmetric] Let_def)
    moreover have "holds_name (component comps' k) name"
      using r(2,3) s1(1,3) nm k
      by (simp add: holds_name_def component_def)
    moreover have "holds_name (component comps' (k + i)) (path_names p ! i)"
      if "holds_name (component comps' k) name" "i < length (path_names p)" for i
      using that r(4) names by (cases i) simp_all
    moreover have "\<forall>i < k. component comps' i = component comps i" using r(3) s1(2) k by simp
    ultimately show ?thesis using r(2) by blast
  qed
qed

lemma split_loop_too_many:
  "length comps = 992 \<Longrightarrow> k \<le> 32 \<Longrightarrow> 32 < k + length (path_names p) \<Longrightarrow> split_loop k p comps = None"
proof (induction k p comps rule: split_loop.induct)
  case (1 k p comps)
  define q where "q = dropWhile (\<lambda>c. c = 0x2f) p"
  define name where "name = takeWhile (\<lambda>c. c \<noteq> 0x2f) q"
  have eq: "path_names q = path_names p" using path_names_slashes by (simp only: q_def)
  have "q \<noteq> []" using eq "1.prems"(2,3) path_names_Nil by force
  have hd: "hd q \<noteq> 0x2f" using hd_dropWhile [of "\<lambda>c. c = 0x2f" p] \<open>q \<noteq> []\<close> by (simp add: q_def)
  have names: "path_names p = name # path_names (drop (length name) q)"
    using path_names_step [OF \<open>q \<noteq> []\<close> hd] by (simp add: eq name_def)
  show ?case
  proof (cases "store_name k 0 (name @ [0]) comps")
    case None
    then show ?thesis using \<open>q \<noteq> []\<close> by (subst split_loop.simps) (simp add: q_def [symmetric] name_def [symmetric] Let_def)
  next
    case (Some c)
    then have "k * 31 + length (name @ [0]) \<le> length comps" and len: "length c = length comps"
      using store_name_spec [of k 0 comps "name @ [0]"] "1.prems"(1,2) by (auto split: if_splits)
    then have "k < 32" using "1.prems"(1) by simp
    then have "split_loop (k + 1) (drop (length name) q) c = None"
      using "1.IH" [OF q_def \<open>q \<noteq> []\<close> name_def Some] "1.prems" len names by simp
    then show ?thesis using \<open>q \<noteq> []\<close> Some
      by (subst split_loop.simps) (simp add: q_def [symmetric] name_def [symmetric] Let_def)
  qed
qed

section \<open>Opening a path\<close>

text \<open>A path the component array has room for.\<close>

definition path_ok :: "u8 list \<Rightarrow> bool" where
  "path_ok p \<longleftrightarrow> p \<noteq> [] \<and> hd p = 0x2f \<and> 0 \<notin> set p \<and> length (path_names p) \<le> 32
     \<and> list_all (\<lambda>w. length w \<le> 30) (path_names p)"

lemma split_path_components:
  assumes "path_ok p" and "length junk = 992"
  obtains comps where "split_path (Some p) junk = Some (length (path_names p), comps)"
    "list_all2 holds_name (map (component comps) [0..<length (path_names p)]) (path_names p)"
proof -
  from split_loop_components [of junk p 0] assms obtain comps where
    "split_loop 0 p junk = Some (length (path_names p), comps)"
    "\<forall>i < length (path_names p). holds_name (component comps i) (path_names p ! i)"
    by (auto simp: path_ok_def list_all_iff)
  then show ?thesis using assms(1)
    by (intro that [of comps]) (simp_all add: split_path_def path_ok_def list_all2_conv_all_nth)
qed

context minix_fs
begin

lemma on_dev_delivers:
  assumes "delivers (f s) x"
  obtains r s' where "on_dev f (s, fm) = Ret r (s', fm)" "inv s'" "r = x \<or> \<not> reliable \<and> r = None"
  using assms by (auto simp: delivers_def on_dev_def)

lemma vfs_open_resolves:
  assumes "inv s" and "path_ok p" and "length junk = 992"
    and "resolves (block_of stored) sb (spec_inode (block_of stored) sb 1) (path_names p) r"
  shows "\<exists>s' r'. inv s' \<and> (r' = r \<or> \<not> reliable \<and> r' = None) \<and>
    vfs_open rd sb junk (Some p) (s, fm) =
      (case r' of None \<Rightarrow> Ret (0, \<lparr>f_inode = 0, f_pos = 0\<rparr>) (s', fm) | Some i \<Rightarrow> set_inode i (s', fm))"
proof -
  let ?root = "spec_inode (block_of stored) sb 1" and ?names = "path_names p"
  from split_path_components [OF assms(2,3)] obtain comps where
    sp: "split_path (Some p) junk = Some (length ?names, comps)"
    "list_all2 holds_name (map (component comps) [0..<length ?names]) ?names" by blast
  from on_dev_delivers [where f = "read_inode rd sb 1" and fm = fm, OF read_inode_delivers [OF assms(1)]] obtain r1 s1 where
    r1: "on_dev (read_inode rd sb 1) (s, fm) = Ret r1 (s1, fm)" "inv s1" "r1 = Some ?root \<or> \<not> reliable \<and> r1 = None" by blast
  from on_dev_delivers [where f = "walk_path rd sb (map (component comps) [0..<length ?names]) ?root" and fm = fm,
      OF walk_path_delivers [OF assms(4) sp(2) r1(2)]] obtain r2 s2 where
    r2: "on_dev (walk_path rd sb (map (component comps) [0..<length ?names]) ?root) (s1, fm) = Ret r2 (s2, fm)"
      "inv s2" "r2 = r \<or> \<not> reliable \<and> r2 = None" by blast
  show ?thesis
  proof (cases "r1 = Some ?root")
    case False
    then show ?thesis using r1 by (intro exI [of _ s1] exI [of _ None]) (auto simp: vfs_open_def Let_def sp(1))
  next
    case root: True
    show ?thesis
    proof (cases "?names = []")
      case True
      then have "r = Some ?root" using assms(4) by (auto elim: resolves.cases)
      then show ?thesis using r1 root True
        by (intro exI [of _ s1] exI [of _ r]) (simp add: vfs_open_def Let_def sp(1))
    next
      case False
      then show ?thesis using r1 r2 root
        by (intro exI [of _ s2] exI [of _ r2]) (simp add: vfs_open_def Let_def sp(1) split: option.splits)
    qed
  qed
qed

lemma vfs_open_root:
  assumes "inv s" and "\<And>q. path = Some q \<Longrightarrow> q = [] \<or> hd q \<noteq> 0x2f"
  shows "\<exists>s'. inv s' \<and> (vfs_open rd sb junk path (s, fm) = set_inode (spec_inode (block_of stored) sb 1) (s', fm)
      \<or> \<not> reliable \<and> vfs_open rd sb junk path (s, fm) = Ret (0, \<lparr>f_inode = 0, f_pos = 0\<rparr>) (s', fm))"
proof -
  from on_dev_delivers [where f = "read_inode rd sb 1" and fm = fm, OF read_inode_delivers [OF assms(1)]] obtain r1 s1 where
    r1: "on_dev (read_inode rd sb 1) (s, fm) = Ret r1 (s1, fm)" "inv s1"
      "r1 = Some (spec_inode (block_of stored) sb 1) \<or> \<not> reliable \<and> r1 = None" by blast
  have "split_path path junk = Some (0, junk)" using assms(2) by (auto simp: split_path_def split: option.splits)
  then show ?thesis using r1 by (auto simp: vfs_open_def Let_def)
qed

end

lemma set_inode_ok:
  assumes "heap_ok base (fm_heap fm)" and "kmalloc 32 (fm_heap fm) = Some (a, h)" and "a \<noteq> 0"
  shows "set_inode i (s, fm) = Ret (1, \<lparr>f_inode = a, f_pos = 0\<rparr>)
      (s, fm\<lparr>fm_heap := h, fm_inodes := (fm_inodes fm)(a \<mapsto> i)\<rparr>)"
  using assms by (simp add: set_inode_def)

lemma vfs_open_close:
  assumes "heap_ok base (fm_heap fm)" and "coalesced (fm_heap fm)" and "fm_inodes fm a = None"
    and "set_inode i (s, fm) = Ret (1, f) (s', fm')" and "a = f_inode f"
  shows "vfs_close f fm' = Ret \<lparr>f_inode = 0, f_pos = 0\<rparr> fm"
proof -
  obtain p h where k: "kmalloc 32 (fm_heap fm) = Some (p, h)" "p \<noteq> 0" "f = \<lparr>f_inode = p, f_pos = 0\<rparr>"
      "fm' = fm\<lparr>fm_heap := h, fm_inodes := (fm_inodes fm)(p \<mapsto> i)\<rparr>"
    using assms(4) by (auto simp: set_inode_def split: option.splits prod.splits if_splits)
  have "kfree p h = Some (fm_heap fm)" using kmalloc_kfree [OF assms(1,2) k(1,2)] .
  moreover have "(fm_inodes fm)(p := None) = fm_inodes fm" using assms(3,5) k(3) by auto
  ultimately show ?thesis using k by (simp add: vfs_close_def)
qed

end
