(* ===== verification/Storage.thy ===== *)
theory Storage
  imports Disk Fs
begin

text \<open>
  The file system on the disk: the functions of \<^verbatim>\<open>kernel/fs.c\<close> with the driver of
  \<^verbatim>\<open>kernel/disk.c\<close> as their reader, and \<open>init_fs\<close>. The contracts of the two components
  meet here: the lemmas of \<open>Fs\<close> about any block device, read through the interpretations of
  \<open>Disk\<close>.
\<close>

section \<open>Model\<close>

type_synonym disk_state = "disk \<times> machine"

text \<open>The static buffer of the super block is the result.\<close>

definition init_fs :: "env \<Rightarrow> symbols \<Rightarrow> u8 list \<Rightarrow> disk_state \<Rightarrow> (u8 \<times> u8 list, disk_state) outcome" where
  "init_fs E L super_block_buf s =
     (let s = apsnd (print ''Setting up file system ... '') s;
          super_block_lba = FILE_SYSTEM_BASE_SECTOR + 2
      in case disk_read E L super_block_lba (ucast SECTORS_PER_BLOCK) s of
           None \<Rightarrow> Stop Diverges s
         | Some (Inl bs, s) \<Rightarrow>
             Ret (0, bs @ drop (length bs) super_block_buf)
               (apsnd (print ''Failed: can not read super block'') s)
         | Some (Inr bs, s) \<Rightarrow>
             Ret (1, bs @ drop (length bs) super_block_buf) (apsnd (println ''Done'') s))"

section \<open>The contracts meet\<close>

interpretation disk_fs: minix_fs "disk_read E L" "disk_inv E T K img" "sectors_of img" False for E L T K img
  by intro_locales

interpretation healthy_fs: minix_fs "disk_read E L" "healthy_inv E T K img" "sectors_of img" True for E L T K img
  by intro_locales

section \<open>The processor state\<close>

text \<open>A transfer leaves everything of the machine but the history of port events alone.\<close>

definition quiet :: "machine \<Rightarrow> machine" where
  "quiet m = m\<lparr>io_log := []\<rparr>"

lemma quiet_ports [simp]:
  "quiet (outb p v m) = quiet m" "quiet (outl p w m) = quiet m" "quiet (log_event e m) = quiet m"
  "quiet (snd (inb E p m)) = quiet m" "quiet (snd (get_current_ticks E m)) = quiet m"
  by (simp_all add: quiet_def port_defs get_current_ticks_def)

lemma quiet_only_reads: "only_reads m m' \<Longrightarrow> quiet m' = quiet m"
  unfolding only_reads_def quiet_def by (metis machine.update_convs(1) machine.surjective)

lemma quiet_wait:
  "ata_wait4_not_busy E m = Some (r, m') \<Longrightarrow> quiet m' = quiet m"
  "ata_wait4_dma E k m = Some (r, m') \<Longrightarrow> quiet m' = quiet m"
  using wait_reads quiet_only_reads by fastforce+

lemma quiet_program: "quiet (program_transfer E L k lba sectors w m) = quiet m"
  by (simp add: program_transfer_def Let_def split_def ata_set_lba28_def ata_io_wait_def)

lemma quiet_effect: "quiet (snd (dma_effect E sectors w k m)) = quiet m"
  by (simp add: dma_effect_def Let_def)

lemma quiet_finish: "finish_transfer E w k m = Some (r, k', m') \<Longrightarrow> quiet m' = quiet m"
  by (auto simp: finish_transfer_def Let_def split_def split: option.splits if_splits dest!: quiet_wait)

lemma quiet_transfer: "ata_dma_transfer E L lba n w k m = Some (r, k', m') \<Longrightarrow> quiet m' = quiet m"
  by (auto simp: ata_dma_transfer_def Let_def split_def quiet_program quiet_effect split: option.splits if_splits
      dest!: quiet_wait quiet_finish)

lemma quiet_read: "disk_read E L lba n s = Some (r, s') \<Longrightarrow> quiet (snd s') = quiet (snd s)"
proof (induction E L lba n s arbitrary: r s' rule: disk_read.induct)
  case (1 E L lba n k m)
  show ?case
  proof (cases "n = 0")
    case True
    then show ?thesis using "1.prems" by (simp add: disk_read.simps)
  next
    case False
    then obtain r1 k1 m1 where t: "ata_dma_transfer E L lba (chunk_of n) 0 k m = Some (r1, k1, m1)"
      using "1.prems" by (auto simp: disk_read.simps [of E L lba n] Let_def split: option.splits)
    show ?thesis
    proof (cases "r1 = 0")
      case True
      then show ?thesis using "1.prems" False t quiet_transfer [OF t] by (auto simp: disk_read.simps [of E L lba n] Let_def)
    next
      case r: False
      then obtain r2 where "disk_read E L (lba + ucast (chunk_of n)) (n - chunk_of n) (k1, m1) = Some (r2, s')"
        using "1.prems" False t by (auto simp: disk_read.simps [of E L lba n] Let_def)
      then show ?thesis using "1.IH" [OF False refl refl t refl refl r refl] quiet_transfer [OF t] by simp
    qed
  qed
qed

interpretation quiet_fs: minix_fs "disk_read E L" "\<lambda>s. healthy_inv E T K img s \<and> quiet (snd s) = q" "sectors_of img" True for E L T K img q
proof
  show "\<exists>r s'. disk_read E L lba n s = Some (r, s') \<and> (healthy_inv E T K img s' \<and> quiet (snd s') = q)
      \<and> (r = Inr (sectors_of img (unat lba) (unat n)) \<or> \<not> True \<and> isl r)"
    if "healthy_inv E T K img s \<and> quiet (snd s) = q" "unat lba + unat n \<le> 2 ^ 28" for s lba n
    using healthy_disk.rd_succeeds [of E T K img s lba n L] quiet_read [of E L lba n s] that by auto
  show "length (sectors_of img a k) = k * 512" if "healthy_inv E T K img s \<and> quiet (snd s) = q" for s a k
    using that healthy_disk.stored_length by metis
qed

section \<open>A small file system\<close>

text \<open>
  Block 1 is the super block with one block for each bit map, so block 4 holds the inodes. Inode 1
  is the root directory with one entry, the file \<^verbatim>\<open>a\<close> of inode 2, which holds three bytes.
\<close>

definition pad :: "u8 list \<Rightarrow> u8 list" where
  "pad bs = bs @ replicate (512 - length bs) 0"

definition tiny_fs :: "nat \<Rightarrow> u8 list" where
  "tiny_fs n =
     (if n = 2050 then pad [64, 0, 64, 0, 1, 0, 1, 0]
      else if n = 2056 then pad ([0, 0x40, 0, 0, 32, 0, 0, 0, 0, 0, 0, 0, 0, 0, 5, 0, 0, 0, 0, 0, 0, 0, 0, 0, 0, 0, 0, 0, 0, 0, 0, 0]
                           @ [0, 0x80, 0, 0, 3, 0, 0, 0, 0, 0, 0, 0, 0, 0, 6, 0])
      else if n = 2058 then pad [2, 0, 0x61]
      else if n = 2060 then pad [0x68, 0x69, 0x0a]
      else pad [])"

definition tiny_super :: "u8 list" where
  "tiny_super = block_of (sectors_of tiny_fs) 1"

definition tiny_root :: minix_inode where
  "tiny_root = \<lparr>i_mode = 0x4000, i_uid = 0, i_size = 32, i_time = 0, i_gid = 0, i_nlinks = 0, i_zone = [5, 0, 0, 0, 0, 0, 0, 0, 0]\<rparr>"

definition tiny_file :: minix_inode where
  "tiny_file = \<lparr>i_mode = 0x8000, i_uid = 0, i_size = 3, i_time = 0, i_gid = 0, i_nlinks = 0, i_zone = [6, 0, 0, 0, 0, 0, 0, 0, 0]\<rparr>"

lemma tiny_fs_length: "length (tiny_fs n) = 512"
  by (simp add: tiny_fs_def pad_def)

lemma tiny_drive_inv: "healthy_inv (image_drive tiny_fs) length 1 tiny_fs (sample_disk, m)"
  by (rule image_drive_inv [OF tiny_fs_length])

lemma pad_nth: "i < 512 \<Longrightarrow> length bs \<le> 512 \<Longrightarrow> pad bs ! i = (if i < length bs then bs ! i else 0)"
  by (simp add: pad_def nth_append)

lemma tiny_byte: "i < 512 \<Longrightarrow> block_of (sectors_of tiny_fs) b ! i = tiny_fs (2048 + 2 * b) ! i"
  by (simp add: block_of_def sectors_of_def upt_rec nth_append tiny_fs_length)

lemma tiny_take: "n \<le> 512 \<Longrightarrow> take n (block_of (sectors_of tiny_fs) b) = take n (tiny_fs (2048 + 2 * b))"
  by (simp add: block_of_def sectors_of_def upt_rec tiny_fs_length)

lemma upt_0_9: "[0..<9] = [0, 1, 2, 3, 4, 5, 6, 7, 8]"
  by (simp add: upt_rec)

lemma tiny_inodes:
  "spec_inode (block_of (sectors_of tiny_fs)) tiny_super 1 = tiny_root"
  "spec_inode (block_of (sectors_of tiny_fs)) tiny_super 2 = tiny_file"
proof -
  have maps: "s_imap_blocks (super_of tiny_super) = 1" "s_zmap_blocks (super_of tiny_super) = 1"
    by (simp_all add: tiny_super_def super_of_def get16_def tiny_byte tiny_fs_def pad_nth)
  show "spec_inode (block_of (sectors_of tiny_fs)) tiny_super 1 = tiny_root"
    by (simp add: spec_inode_def Let_def maps inode_of_def upt_0_9 get16_def get32_def tiny_byte tiny_fs_def pad_nth
        tiny_root_def)
  show "spec_inode (block_of (sectors_of tiny_fs)) tiny_super 2 = tiny_file"
    by (simp add: spec_inode_def Let_def maps inode_of_def upt_0_9 get16_def get32_def tiny_byte tiny_fs_def pad_nth
        tiny_file_def)
qed

lemma tiny_zones:
  "spec_zone (block_of (sectors_of tiny_fs)) tiny_root 0 = Some 5"
  "spec_zone (block_of (sectors_of tiny_fs)) tiny_file 0 = Some 6"
  by (simp_all add: spec_zone_def Let_def tiny_root_def tiny_file_def)

lemma tiny_slice:
  "0 < n \<Longrightarrow> n \<le> 512 \<Longrightarrow> file_slice (block_of (sectors_of tiny_fs)) inode 0 n =
     map_option (\<lambda>z. take n (tiny_fs (2048 + 2 * z))) (spec_zone (block_of (sectors_of tiny_fs)) inode 0)"
  using file_slice_block [of 0 n "block_of (sectors_of tiny_fs)" inode]
  by (simp add: tiny_take block_of_def sectors_of_def upt_rec tiny_fs_length)

lemma tiny_lookup:
  "is_directory tiny_root"
  "file_slice (block_of (sectors_of tiny_fs)) tiny_root 0 32 = Some ([2, 0, 0x61] @ replicate 29 0)"
  "dir_lookup ([2, 0, 0x61] @ replicate 29 0) 0 1 [0x61] = Some 2"
  "file_slice (block_of (sectors_of tiny_fs)) tiny_file 0 3 = Some [0x68, 0x69, 0x0a]"
  by (simp add: is_directory_def tiny_root_def, simp_all add: tiny_slice tiny_zones tiny_fs_def pad_def
      dir_lookup_def entry_def get16_def)

lemma tiny_names: "path_names [0x2f, 0x61] = [[0x61]]"
  by (simp add: path_names_def)

lemma tiny_resolves:
  "resolves (block_of (sectors_of tiny_fs)) tiny_super tiny_root (path_names [0x2f, 0x61]) (Some tiny_file)"
  unfolding tiny_names
proof (rule resolves.found [where k = 2])
  have size: "unat (i_size tiny_root) = 32" by (simp add: tiny_root_def)
  show "is_directory tiny_root" by (rule tiny_lookup(1))
  show "file_slice (block_of (sectors_of tiny_fs)) tiny_root 0 (unat (i_size tiny_root)) = Some ([2, 0, 0x61] @ replicate 29 0)"
    unfolding size by (rule tiny_lookup(2))
  show "dir_lookup ([2, 0, 0x61] @ replicate 29 0) 0 (unat (i_size tiny_root) div 32) [0x61] = Some 2"
    unfolding size using tiny_lookup(3) by simp
  show "resolves (block_of (sectors_of tiny_fs)) tiny_super (spec_inode (block_of (sectors_of tiny_fs)) tiny_super 2) [] (Some tiny_file)"
    unfolding tiny_inodes by (rule resolves.here)
qed

definition tiny_state :: "disk_state \<times> fs_mem" where
  "tiny_state = ((sample_disk, boot_machine), \<lparr>fm_heap = init_heap_blocks 0xc0200000, fm_inodes = Map.empty\<rparr>)"

lemma example_kmalloc32: "\<exists>h. kmalloc 32 (init_heap_blocks 0xc0200000) = Some (0xc020000c, h)"
  using kmalloc_rep [of "0xc0200000" "[(65524, True)]" 32]
  by (simp add: init_heap_blocks_rep fits_def heap_align_up_def)

lemma many_names: "path_names (concat (replicate n [0x2f, 0x61])) = replicate n [0x61]"
proof (induction n)
  case (Suc n)
  let ?R = "concat (replicate n [0x2f, 0x61 :: u8])"
  have "takeWhile (\<lambda>c. c \<noteq> 0x2f) (0x61 # ?R) = [0x61]" by (cases n) simp_all
  then have "path_names (0x61 # ?R) = [0x61] # path_names ?R" using path_names_step [of "0x61 # ?R"] by simp
  moreover have "path_names (0x2f # 0x61 # ?R) = path_names (0x61 # ?R)" by (simp add: path_names_def)
  ultimately show ?case using Suc.IH by simp
qed (simp add: path_names_def)

section \<open>Properties\<close>

text \<open>
  C13. Reading a file: with the position inside the file and no hole in the part that is read,
  \<open>vfs_read\<close> on a healthy disk returns exactly the bytes the inode's direct, indirect and double
  indirect zones give for that part, cut off at the end of the file, and advances the position
  by as much. The block arithmetic, the zone lookup, the chunking and the driver's splitting
  into transfers are all behind this.
\<close>

theorem vfs_read_correct:
  fixes count :: u32
  defines "blk \<equiv> \<lambda>img. block_of (sectors_of img)" and "n \<equiv> \<lambda>inode pos. min (unat (i_size inode) - unat pos) (unat count)"
  assumes "healthy_inv E T K img s" and "pos \<le> i_size inode"
    and "file_slice (blk img) inode (unat pos) (n inode pos) = Some bs"
  shows "\<exists>s'. vfs_read (disk_read E L) inode pos count s = Ret (of_nat (n inode pos), bs, pos + of_nat (n inode pos)) s'
    \<and> length bs = n inode pos \<and> healthy_inv E T K img s'"
  using healthy_fs.vfs_read_delivers [OF assms(3,4), of L count] file_slice_length [OF assms(5)] assms(5)
  by (auto simp: blk_def n_def)

theorem vfs_read_correct_witness:
  "\<exists>s'. vfs_read (disk_read (image_drive tiny_fs) sample_symbols) tiny_file 0 100 (sample_disk, boot_machine)
     = Ret (3, [0x68, 0x69, 0x0a], 3) s'"
proof -
  have "file_slice (block_of (sectors_of tiny_fs)) tiny_file (unat (0 :: u32))
      (min (unat (i_size tiny_file) - unat (0 :: u32)) (unat (100 :: u32))) = Some [0x68, 0x69, 0x0a]"
    using tiny_lookup(4) by (simp add: tiny_file_def)
  from vfs_read_correct [OF tiny_drive_inv [of boot_machine] _ this, of sample_symbols] show ?thesis
    by (auto simp: tiny_file_def)
qed



text \<open>
  The end of the file is not a bound for a position behind it: the unsigned difference of
  size and position wraps around, and \<open>vfs_read\<close> delivers bytes of the zones that lie beyond the
  end of the file instead of none.
\<close>

theorem vfs_read_behind_end:
  assumes "healthy_inv E T K img s" and "i_size inode < pos" and "count \<le> i_size inode - pos"
    and "unat pos + unat count < 2 ^ 32"
    and "file_slice (block_of (sectors_of img)) inode (unat pos) (unat count) = Some bs"
  shows "\<exists>s'. vfs_read (disk_read E L) inode pos count s = Ret (count, bs, pos + count) s'"
proof -
  have "healthy_fs.delivers E T K img (read_whole (disk_read E L) inode pos count 0 s) (Some bs)"
    using healthy_fs.vfs_read_loop_delivers [OF assms(1,4), of 0 L inode] assms(5) by simp
  then obtain s' where "vfs_read_loop (disk_read E L) inode pos count 0 s = Ret (True, bs) s'"
    by (auto simp: healthy_fs.delivers_def read_whole_def and_then_Ret_iff whole_def split: if_splits)
  moreover have "(if i_size inode - pos < count then i_size inode - pos else count) = count" using assms(3) by auto
  ultimately show ?thesis by (auto simp: vfs_read_def Let_def)
qed

theorem vfs_read_behind_end_witness:
  "\<exists>bs s'. vfs_read (disk_read (image_drive tiny_fs) sample_symbols) tiny_file 100 20 (sample_disk, boot_machine)
     = Ret (20, bs, 120) s'"
proof -
  have len: "length (block_of (sectors_of tiny_fs) z) = 1024" for z
    by (simp add: block_of_def sectors_of_def upt_rec tiny_fs_length)
  have "\<exists>bs. file_slice (block_of (sectors_of tiny_fs)) tiny_file (unat (100 :: u32)) (unat (20 :: u32)) = Some bs"
    using file_slice_block [of 100 20 "block_of (sectors_of tiny_fs)" tiny_file] len by (simp add: tiny_zones)
  then obtain bs where bs: "file_slice (block_of (sectors_of tiny_fs)) tiny_file (unat (100 :: u32)) (unat (20 :: u32)) = Some bs" ..
  from vfs_read_behind_end [OF tiny_drive_inv [of boot_machine] _ _ _ bs, of sample_symbols] show ?thesis
    by (auto simp: tiny_file_def)
qed

text \<open>
  C14. Opening a path: for a path of at most 32 names of at most 30 bytes, \<open>vfs_open\<close> on a healthy
  disk agrees with name resolution on the directory tree of the image: it reports failure exactly
  if a name is not found in its directory or its parent is no directory, and otherwise hands the
  inode that the path names to \<open>set_inode\<close>.
\<close>

theorem vfs_open_correct:
  assumes "healthy_inv E T K img s" and "path_ok p" and "length junk = 992"
    and "resolves (block_of (sectors_of img)) sb (spec_inode (block_of (sectors_of img)) sb MINIX_ROOT_INODE) (path_names p) r"
  shows "\<exists>s'. healthy_inv E T K img s' \<and> vfs_open (disk_read E L) sb junk (Some p) (s, fm) =
      (case r of None \<Rightarrow> Ret (0, \<lparr>f_inode = 0, f_pos = 0\<rparr>) (s', fm) | Some i \<Rightarrow> set_inode i (s', fm))"
  using healthy_fs.vfs_open_resolves [OF assms, of L fm] by auto

theorem vfs_open_correct_witness:
  "\<exists>s'. vfs_open (disk_read (image_drive tiny_fs) sample_symbols) tiny_super (replicate 992 0) (Some [0x2f, 0x61])
     tiny_state = set_inode tiny_file s'"
proof -
  have "path_ok [0x2f, 0x61]" by (simp add: path_ok_def tiny_names)
  from vfs_open_correct [OF tiny_drive_inv [of boot_machine] this, of "replicate 992 0" tiny_super "Some tiny_file"]
    tiny_resolves show ?thesis by (fastforce simp: tiny_inodes tiny_state_def)
qed



text \<open>
  The component array has no bound: a path of more than 32 names makes \<open>split_path\<close> store
  outside the array on the kernel stack, whatever the disk holds.
\<close>

theorem vfs_open_too_many_names:
  assumes "p \<noteq> []" and "hd p = 0x2f" and "length junk = 992" and "32 < length (path_names p)"
  shows "vfs_open rd sb junk (Some p) st = Stop Bad_access st"
  using split_loop_too_many [of junk 0 p] assms by (simp add: vfs_open_def split_path_def)

theorem vfs_open_too_many_names_witness:
  "vfs_open (disk_read (image_drive tiny_fs) sample_symbols) tiny_super (replicate 992 0)
     (Some (concat (replicate 33 [0x2f, 0x61]))) tiny_state = Stop Bad_access tiny_state"
proof -
  have "length (path_names (concat (replicate 33 [0x2f, 0x61]))) = 33" by (simp add: many_names)
  moreover have "concat (replicate 33 [0x2f, 0x61]) = 0x2f # 0x61 # concat (replicate 32 [0x2f, 0x61 :: u8])"
    using replicate_Suc [of 32 "[0x2f, 0x61 :: u8]"] by simp
  ultimately show ?thesis by (intro vfs_open_too_many_names) simp_all
qed

text \<open>
  A path that is null, empty or relative is not refused: \<open>split_path\<close> answers zero names, the
  same as for the root, and \<open>vfs_open\<close> opens the root directory.
\<close>

theorem vfs_open_relative:
  assumes "healthy_inv E T K img s" and "case path of None \<Rightarrow> True | Some q \<Rightarrow> q = [] \<or> hd q \<noteq> 0x2f"
  shows "\<exists>s'. healthy_inv E T K img s' \<and> vfs_open (disk_read E L) sb junk path (s, fm) =
      set_inode (spec_inode (block_of (sectors_of img)) sb MINIX_ROOT_INODE) (s', fm)"
  using healthy_fs.vfs_open_root [OF assms(1), of path L sb junk fm] assms(2) by (auto split: option.splits)

theorem vfs_open_relative_witness:
  "\<exists>s'. vfs_open (disk_read (image_drive tiny_fs) sample_symbols) tiny_super (replicate 992 0) (Some [0x62]) tiny_state
     = set_inode tiny_root s'"
  using vfs_open_relative [OF tiny_drive_inv [of boot_machine], of "Some [0x62]" sample_symbols tiny_super]
  by (fastforce simp: tiny_inodes tiny_state_def)

end
