(* ===== verification/Tty.thy ===== *)
theory Tty
  imports Interrupts
begin

text \<open>
  The terminal and the keyboard, \<^verbatim>\<open>kernel/tty.c\<close> and \<^verbatim>\<open>kernel/keyboard.c\<close>:
  the keyboard interrupt pushes characters into a ring buffer of 256 bytes and readers pop
  them, sleeping with \<^verbatim>\<open>hlt\<close> while it is empty. The contract of a bounded queue is
  the locale \<open>bounded_queue\<close>; the ring buffer interprets it with capacity 255.
\<close>

section \<open>Model\<close>

abbreviation TTY_QUEUE_SIZE :: u32 where "TTY_QUEUE_SIZE \<equiv> 256"
abbreviation KEYBOARD_CONTROLLER_DATA_REGISTER :: u16 where "KEYBOARD_CONTROLLER_DATA_REGISTER \<equiv> 0x60"

record tty =
  tty_queue :: "u8 list"
  tty_queue_head :: u32
  tty_queue_tail :: u32

definition queue_empty :: "tty \<Rightarrow> bool" where
  "queue_empty t \<longleftrightarrow> tty_queue_head t = tty_queue_tail t"

definition tty_queue_push_char :: "u8 \<Rightarrow> tty \<Rightarrow> tty" where
  "tty_queue_push_char c t =
     t\<lparr>tty_queue := (tty_queue t)[unat (tty_queue_head t) := c],
       tty_queue_head := (tty_queue_head t + 1) mod TTY_QUEUE_SIZE\<rparr>"

definition tty_queue_pop_char :: "tty \<Rightarrow> u8 \<times> tty" where
  "tty_queue_pop_char t =
     (tty_queue t ! unat (tty_queue_tail t),
      t\<lparr>tty_queue_tail := (tty_queue_tail t + 1) mod TTY_QUEUE_SIZE\<rparr>)"

definition boot_tty :: tty where
  "boot_tty = \<lparr>tty_queue = replicate 256 0, tty_queue_head = 0, tty_queue_tail = 0\<rparr>"

definition init_tty :: "tty \<Rightarrow> machine \<Rightarrow> u8 \<times> tty \<times> machine" where
  "init_tty t m =
     (let m = print ''Setting up TTY ... '' m;
          t = t\<lparr>tty_queue_head := 0, tty_queue_tail := 0\<rparr>;
          m = println ''Done'' m
      in (1, t, m))"

definition tty_putc :: "u8 \<Rightarrow> tty \<Rightarrow> tty" where
  "tty_putc c t =
     (if c = 0 then t
      else let c = (if c = 0x0d then 0x0a else c) in tty_queue_push_char c t)"

text \<open>
  A reader that sleeps is woken by interrupts. The characters that the interrupt handlers
  deliver during each sleep are an argument, one list per sleep; \<open>None\<close> is a reader that
  is not woken any more.
\<close>

fun tty_wait :: "u8 list list \<Rightarrow> tty \<Rightarrow> (tty \<times> u8 list list) option" where
  "tty_wait [] t = (if queue_empty t then None else Some (t, []))"
| "tty_wait (w # ws) t = (if queue_empty t then tty_wait ws (fold tty_putc w t) else Some (t, w # ws))"

fun tty_read :: "nat \<Rightarrow> u8 list list \<Rightarrow> tty \<Rightarrow> (u8 list \<times> tty \<times> u8 list list) option" where
  "tty_read 0 ws t = Some ([], t, ws)"
| "tty_read (Suc count) ws t =
     (case tty_wait ws t of
        None \<Rightarrow> None
      | Some (t, ws) \<Rightarrow>
          let (c, t) = tty_queue_pop_char t in
          map_option (\<lambda>(cs, t, ws). (c # cs, t, ws)) (tty_read count ws t))"

definition tty_write :: "u8 list \<Rightarrow> machine \<Rightarrow> nat \<times> machine" where
  "tty_write buf m = (length buf, fold (\<lambda>c m. snd (console_putc c m)) buf m)"

definition scancode_map :: "u8 list" where
  "scancode_map =
     [0, 27] @ cstr ''1234567890-='' @ [8, 0] @
     cstr ''qwertyuiop[]'' @ [10, 0] @ cstr ''as'' @
     cstr ''dfghjkl;'' @ [39, 96, 0, 92] @ cstr ''zxcv'' @
     cstr ''bnm,./'' @ [0] @ cstr ''*'' @ [0] @ cstr '' '' @ [0, 0, 0, 0, 0, 0] @
     [0, 0, 0] @ cstr ''789-456+1230.'' @ replicate 48 0"

definition keyboard_irq_handler :: "env \<Rightarrow> tty \<Rightarrow> machine \<Rightarrow> tty \<times> machine" where
  "keyboard_irq_handler E t m =
     (let (scancode, m) = inb E KEYBOARD_CONTROLLER_DATA_REGISTER m in
      if scancode AND 0x80 = 0 \<and> unat scancode < length scancode_map
      then (tty_putc (scancode_map ! unat scancode) t, m)
      else (t, m))"

definition init_keyboard :: "env \<Rightarrow> interrupts \<Rightarrow> machine \<Rightarrow> u8 \<times> interrupts \<times> machine" where
  "init_keyboard E t m =
     (let m = print ''Initializing keyboard ... '' m;
          t = register_irq_handler 1 Keyboard_irq_handler t;
          m = unmask_irq E 1 m;
          m = println ''Done'' m
      in (1, t, m))"

section \<open>Bounded queues\<close>

text \<open>
  The contract: a state denotes a sequence; pushing appends while there is room, popping
  takes the oldest element.
\<close>

locale bounded_queue =
  fixes inv :: "'s \<Rightarrow> bool"
    and abs :: "'s \<Rightarrow> 'c list"
    and push :: "'c \<Rightarrow> 's \<Rightarrow> 's"
    and pop :: "'s \<Rightarrow> 'c \<times> 's"
    and is_empty :: "'s \<Rightarrow> bool"
    and capacity :: nat
  assumes push_inv: "inv s \<Longrightarrow> inv (push c s)"
    and push_abs: "inv s \<Longrightarrow> length (abs s) < capacity \<Longrightarrow> abs (push c s) = abs s @ [c]"
    and pop_inv: "inv s \<Longrightarrow> inv (snd (pop s))"
    and pop_abs: "inv s \<Longrightarrow> abs s \<noteq> [] \<Longrightarrow> pop s = (hd (abs s), snd (pop s)) \<and> abs (snd (pop s)) = tl (abs s)"
    and empty_abs: "inv s \<Longrightarrow> is_empty s \<longleftrightarrow> abs s = []"
begin

lemma push_many:
  "inv s \<Longrightarrow> length (abs s) + length cs \<le> capacity \<Longrightarrow>
   inv (fold push cs s) \<and> abs (fold push cs s) = abs s @ cs"
proof (induction cs arbitrary: s)
  case (Cons c cs)
  have "inv (push c s)" "abs (push c s) = abs s @ [c]"
    using Cons.prems push_inv push_abs [of s c] by auto
  with Cons.IH [of "push c s"] Cons.prems show ?case by simp
qed simp

lemma push_pop:
  "inv s \<Longrightarrow> abs s = [] \<Longrightarrow> 0 < capacity \<Longrightarrow> fst (pop (push c s)) = c \<and> abs (snd (pop (push c s))) = []"
proof -
  assume "inv s" "abs s = []" "0 < capacity"
  then have "inv (push c s)" "abs (push c s) = [c]" using push_inv push_abs [of s c] by auto
  then show ?thesis using pop_abs [of "push c s"] by (metis fst_conv list.distinct(1) list.sel)
qed

end

section \<open>The ring buffer is a bounded queue\<close>

definition tty_ok :: "tty \<Rightarrow> bool" where
  "tty_ok t \<longleftrightarrow> length (tty_queue t) = 256 \<and> unat (tty_queue_head t) < 256 \<and> unat (tty_queue_tail t) < 256"

definition pending :: "tty \<Rightarrow> nat" where
  "pending t = (unat (tty_queue_head t) + 256 - unat (tty_queue_tail t)) mod 256"

definition tty_content :: "tty \<Rightarrow> u8 list" where
  "tty_content t = map (\<lambda>i. tty_queue t ! ((unat (tty_queue_tail t) + i) mod 256)) [0..<pending t]"

lemmas tty_defs [inv_defs] = tty_ok_def pending_def tty_content_def

lemma length_tty_content [simp]: "length (tty_content t) = pending t"
  by (simp add: tty_content_def)

lemma unat_next: "unat (h :: u32) < 256 \<Longrightarrow> unat ((h + 1) mod TTY_QUEUE_SIZE) = (unat h + 1) mod 256"
  by (simp add: unat_mod unat_word_ariths)

lemma ring_diff:
  assumes "t \<le> h" and "h < 256"
  shows "(h + 256 - t) mod 256 = h - (t :: nat)"
proof -
  have "h + 256 - t = (h - t) + 256" using assms(1) by simp
  then have "(h + 256 - t) mod 256 = (h - t) mod 256" by (simp only: mod_add_self2)
  then show ?thesis using assms by simp
qed

lemma pending_eq:
  assumes "tty_ok t"
  shows "pending t = (if unat (tty_queue_tail t) \<le> unat (tty_queue_head t)
    then unat (tty_queue_head t) - unat (tty_queue_tail t)
    else unat (tty_queue_head t) + 256 - unat (tty_queue_tail t))"
proof (cases "unat (tty_queue_tail t) \<le> unat (tty_queue_head t)")
  case True
  with assms ring_diff show ?thesis by (simp add: pending_def tty_ok_def)
next
  case False
  with assms show ?thesis by (simp add: pending_def tty_ok_def)
qed

lemma pending_lt: "tty_ok t \<Longrightarrow> pending t < 256"
  by (simp add: pending_def)

lemma pending_0: "tty_ok t \<Longrightarrow> pending t = 0 \<longleftrightarrow> tty_queue_head t = tty_queue_tail t"
  by (auto simp: pending_eq tty_ok_def word_unat_eq_iff)

text \<open>The slot that the next character goes to, and the next values of the two indices.\<close>

lemma head_slot: "tty_ok t \<Longrightarrow> (unat (tty_queue_tail t) + pending t) mod 256 = unat (tty_queue_head t)"
  by (auto simp: pending_eq tty_ok_def)

lemma slots_distinct_le:
  assumes "(a + i) mod 256 = (a + j) mod (256 :: nat)" and "i \<le> j" and "j < 256"
  shows "i = j"
proof -
  have "256 dvd (a + j) - (a + i)" using assms(1,2) by (metis add_le_cancel_left mod_eq_dvd_iff_nat)
  then have "256 dvd j - i" by simp
  then show ?thesis using assms(2,3) nat_dvd_not_less [of "j - i" 256] by (cases "j - i = 0") auto
qed

lemma slots_distinct:
  "i < 256 \<Longrightarrow> j < 256 \<Longrightarrow> (a + i) mod 256 = (a + j) mod (256 :: nat) \<longleftrightarrow> i = j"
  using slots_distinct_le [of a i j] slots_distinct_le [of a j i] by (cases "i \<le> j") auto

lemma push_content:
  assumes "tty_ok t"
  shows "tty_ok (tty_queue_push_char c t)"
    "pending t < 255 \<Longrightarrow> tty_content (tty_queue_push_char c t) = tty_content t @ [c]"
    "pending t = 255 \<Longrightarrow> tty_content (tty_queue_push_char c t) = []"
proof -
  let ?t = "tty_queue_push_char c t"
  have h: "unat (tty_queue_head ?t) = (unat (tty_queue_head t) + 1) mod 256"
    using assms by (simp add: tty_queue_push_char_def unat_next tty_ok_def)
  then show ok: "tty_ok ?t" using assms by (simp add: tty_ok_def tty_queue_push_char_def)
  have head: "(unat (tty_queue_tail t) + pending ?t) mod 256 = (unat (tty_queue_tail t) + Suc (pending t)) mod 256"
  proof -
    have "(unat (tty_queue_tail t) + pending ?t) mod 256 = (unat (tty_queue_head t) + 1) mod 256"
      using head_slot [OF ok] h by (simp add: tty_queue_push_char_def)
    also have "\<dots> = ((unat (tty_queue_tail t) + pending t) mod 256 + 1) mod 256"
      by (simp only: head_slot [OF assms])
    finally show ?thesis by (simp add: mod_Suc_eq)
  qed
  show "tty_content ?t = []" if "pending t = 255"
  proof -
    have "(unat (tty_queue_tail t) + pending ?t) mod 256 = (unat (tty_queue_tail t) + 0) mod 256"
      using head that by simp
    then have "pending ?t = 0" using slots_distinct [OF pending_lt [OF ok], of 0] by simp
    then show ?thesis by (simp add: tty_content_def)
  qed
  show "tty_content ?t = tty_content t @ [c]" if "pending t < 255"
  proof -
    have "pending ?t = Suc (pending t)" using head slots_distinct [OF pending_lt [OF ok], of "Suc (pending t)"] that
      by (simp del: add_Suc_right)
    moreover have "unat (tty_queue_head t) \<noteq> (unat (tty_queue_tail t) + i) mod 256" if "i < pending t" for i
      using that pending_lt [OF assms] head_slot [OF assms] slots_distinct by (metis less_irrefl order.strict_trans)
    ultimately show ?thesis
      using assms head_slot [OF assms] by (auto simp: tty_content_def tty_queue_push_char_def tty_ok_def)
  qed
qed

lemma pop_content:
  assumes "tty_ok t"
  shows "tty_ok (snd (tty_queue_pop_char t))"
    "tty_content t \<noteq> [] \<Longrightarrow> tty_queue_pop_char t = (hd (tty_content t), snd (tty_queue_pop_char t))
       \<and> tty_content (snd (tty_queue_pop_char t)) = tl (tty_content t)"
proof -
  let ?t = "snd (tty_queue_pop_char t)"
  have tl: "unat (tty_queue_tail ?t) = (unat (tty_queue_tail t) + 1) mod 256"
    using assms by (simp add: tty_queue_pop_char_def unat_next tty_ok_def)
  then show ok: "tty_ok ?t" using assms by (simp add: tty_ok_def tty_queue_pop_char_def)
  show "tty_queue_pop_char t = (hd (tty_content t), ?t) \<and> tty_content ?t = tl (tty_content t)"
    if "tty_content t \<noteq> []"
  proof -
    have "0 < pending t" using that by (metis length_greater_0_conv length_tty_content)
    then obtain p where p: "pending t = Suc p" using gr0_conv_Suc by blast
    have "(unat (tty_queue_tail ?t) + pending ?t) mod 256 = unat (tty_queue_head t)"
      using head_slot [OF ok] by (simp add: tty_queue_pop_char_def)
    then have "(unat (tty_queue_tail t) + Suc (pending ?t)) mod 256 = (unat (tty_queue_tail t) + pending t) mod 256"
      by (simp add: tl head_slot [OF assms] mod_simps)
    then have "pending ?t = p"
    proof (cases "Suc (pending ?t) < 256")
      case False
      then have "Suc (pending ?t) = 256" using pending_lt [OF ok] by simp
      moreover assume "(unat (tty_queue_tail t) + Suc (pending ?t)) mod 256 = (unat (tty_queue_tail t) + pending t) mod 256"
      ultimately have "(unat (tty_queue_tail t) + 0) mod 256 = (unat (tty_queue_tail t) + pending t) mod 256" by simp
      then show ?thesis using slots_distinct [of 0 "pending t"] pending_lt [OF assms] p by simp
    qed (use slots_distinct [of "Suc (pending ?t)" "pending t"] pending_lt [OF assms] p in simp)
    then show ?thesis
      using assms by (auto simp: tty_content_def p tl upt_conv_Cons tty_queue_pop_char_def mod_simps
          tty_ok_def hd_map map_Suc_upt [symmetric] unat_next simp del: upt_Suc)
  qed
qed

interpretation tty_ring: bounded_queue tty_ok tty_content tty_queue_push_char tty_queue_pop_char queue_empty 255
proof
  fix t :: tty and c
  assume ok: "tty_ok t"
  show "tty_ok (tty_queue_push_char c t)" using push_content(1) [OF ok] .
  show "tty_content (tty_queue_push_char c t) = tty_content t @ [c]" if "length (tty_content t) < 255"
    using push_content(2) [OF ok] that by simp
  show "tty_ok (snd (tty_queue_pop_char t))" using pop_content(1) [OF ok] .
  show "tty_queue_pop_char t = (hd (tty_content t), snd (tty_queue_pop_char t))
      \<and> tty_content (snd (tty_queue_pop_char t)) = tl (tty_content t)" if "tty_content t \<noteq> []"
    using pop_content(2) [OF ok that] .
  show "queue_empty t \<longleftrightarrow> tty_content t = []"
    using pending_0 [OF ok] by (metis queue_empty_def length_0_conv length_tty_content)
qed

section \<open>Reading\<close>

text \<open>The characters that \<open>tty_putc\<close> stores for what it is given.\<close>

definition cooked :: "u8 list \<Rightarrow> u8 list" where
  "cooked cs = map (\<lambda>c. if c = 0x0d then 0x0a else c) (filter (\<lambda>c. c \<noteq> 0) cs)"

lemma tty_putc_cooked: "fold tty_putc cs t = fold tty_queue_push_char (cooked cs) t"
  by (induction cs arbitrary: t) (auto simp: cooked_def tty_putc_def Let_def)

lemma cooked_append: "cooked (a @ b) = cooked a @ cooked b"
  by (simp add: cooked_def)

lemma tty_wait_content:
  assumes "tty_ok t" and "length (tty_content t) + length (cooked (concat ws)) \<le> 255"
    and "tty_content t @ cooked (concat ws) \<noteq> []"
  shows "\<exists>t' ws'. tty_wait ws t = Some (t', ws') \<and> tty_ok t' \<and> tty_content t' \<noteq> []
    \<and> tty_content t' @ cooked (concat ws') = tty_content t @ cooked (concat ws)"
  using assms
proof (induction ws t rule: tty_wait.induct)
  case (2 w ws t)
  show ?case
  proof (cases "queue_empty t")
    case True
    then have e: "tty_content t = []" using tty_ring.empty_abs "2.prems"(1) by blast
    have "tty_ok (fold tty_putc w t)" "tty_content (fold tty_putc w t) = cooked w"
      using tty_ring.push_many [OF "2.prems"(1), of "cooked w"] "2.prems"(2)
      by (simp_all add: tty_putc_cooked cooked_append e)
    then show ?thesis using "2.IH" [OF True] "2.prems"(2,3) True by (simp add: e cooked_append)
  qed (use "2.prems" tty_ring.empty_abs in auto)
qed (use tty_ring.empty_abs in \<open>auto simp: cooked_def\<close>)

lemma tty_read_content:
  assumes "tty_ok t" and "length (tty_content t) + length (cooked (concat ws)) \<le> 255"
    and "n \<le> length (tty_content t @ cooked (concat ws))"
  shows "\<exists>t' ws'. tty_read n ws t = Some (take n (tty_content t @ cooked (concat ws)), t', ws') \<and> tty_ok t'
    \<and> tty_content t' @ cooked (concat ws') = drop n (tty_content t @ cooked (concat ws))"
  using assms
proof (induction n arbitrary: t ws)
  case (Suc n)
  let ?s = "tty_content t @ cooked (concat ws)"
  have "0 < length ?s" using Suc.prems(3) by linarith
  then have "?s \<noteq> []" by blast
  then obtain t1 ws1 where w: "tty_wait ws t = Some (t1, ws1)" "tty_ok t1" "tty_content t1 \<noteq> []"
      "tty_content t1 @ cooked (concat ws1) = ?s"
    using tty_wait_content [OF Suc.prems(1,2)] by blast
  obtain t2 where p: "tty_queue_pop_char t1 = (hd (tty_content t1), t2)" "tty_ok t2" "tty_content t2 = tl (tty_content t1)"
    using tty_ring.pop_abs [OF w(2,3)] tty_ring.pop_inv [OF w(2)] by metis
  have s: "?s = hd (tty_content t1) # (tty_content t2 @ cooked (concat ws1))"
    using w(3,4) p(3) by (metis append_Cons list.collapse)
  have len: "length ?s = Suc (length (tty_content t2 @ cooked (concat ws1)))" unfolding s by simp
  obtain t3 ws3 where r: "tty_read n ws1 t2 = Some (take n (tty_content t2 @ cooked (concat ws1)), t3, ws3)"
      "tty_ok t3" "tty_content t3 @ cooked (concat ws3) = drop n (tty_content t2 @ cooked (concat ws1))"
    using Suc.IH [OF p(2), of ws1] Suc.prems(2,3) len by auto
  show ?case unfolding s using w(1) p(1) r by (simp add: Let_def)
qed simp

section \<open>Properties\<close>

text \<open>
  A terminal read returns what was typed: when the characters waiting and those that
  interrupts will deliver are at least \<open>n\<close> in all and never more than 255 unread, a
  read of \<open>n\<close> characters returns, and gives the first \<open>n\<close> of them in order of
  arrival, carriage returns as newlines and NULs dropped; the rest stays for later reads.
\<close>

theorem tty_read_returns_typed:
  assumes "tty_ok t" and "length (tty_content t @ cooked (concat arrivals)) \<le> 255"
    and "n \<le> length (tty_content t @ cooked (concat arrivals))"
  shows "\<exists>t' rest. tty_read n arrivals t = Some (take n (tty_content t @ cooked (concat arrivals)), t', rest)
    \<and> tty_ok t' \<and> tty_content t' @ cooked (concat rest) = drop n (tty_content t @ cooked (concat arrivals))"
  using tty_read_content [OF assms(1) _ assms(3)] assms(2) by simp

theorem tty_read_returns_typed_witness:
  "\<exists>t' rest. tty_read 2 [cstr ''l'', [0], [115, 0x0d]] boot_tty = Some (cstr ''ls'', t', rest)"
proof -
  have ok: "tty_ok boot_tty" "tty_content boot_tty = []"
    by (simp_all add: tty_ok_def boot_tty_def tty_content_def pending_def)
  have "cooked (concat [cstr ''l'', [0], [115, 0x0d]]) = cstr ''ls'' @ [0x0a]"
    by (simp add: cooked_def cstr_def)
  then show ?thesis
    using tty_read_returns_typed [OF ok(1), of "[cstr ''l'', [0], [115, 0x0d]]" 2] ok(2) by auto
qed

text \<open>
  The buffer has no check for being full: pushing a character when 255 are unread makes
  the buffer look empty, so that all 256 characters are lost to readers.
\<close>

theorem tty_overflow_loses_input:
  assumes "tty_ok t" and "length (tty_content t) = 255" and "c \<noteq> 0"
  shows "queue_empty (tty_putc c t) \<and> tty_content (tty_putc c t) = []"
proof -
  define d where "d = (if c = 0x0d then 0x0a else c)"
  have "tty_putc c t = tty_queue_push_char d t" using assms(3) by (simp add: tty_putc_def d_def)
  then show ?thesis
    using push_content(1,3) [OF assms(1), of d] assms(2) tty_ring.empty_abs by simp
qed

theorem tty_overflow_loses_input_witness:
  "tty_content (tty_putc 65 (fold tty_queue_push_char (replicate 255 66) boot_tty)) = []"
proof -
  have ok: "tty_ok boot_tty" "tty_content boot_tty = []"
    by (simp_all add: tty_ok_def boot_tty_def tty_content_def pending_def)
  have "tty_ok (fold tty_queue_push_char (replicate 255 66) boot_tty)"
    "length (tty_content (fold tty_queue_push_char (replicate 255 66) boot_tty)) = 255"
    using tty_ring.push_many [OF ok(1), of "replicate 255 66"] ok(2) by simp_all
  from tty_overflow_loses_input [OF this, of 65] show ?thesis by simp
qed

end
