(* ===== verification/Kernel.thy ===== *)
theory Kernel
  imports Storage Gdt Interrupts Tty
begin

text \<open>
  The state that the process code shares: the components' states, the objects the kernel keeps
  on its heap, and the variables of \<^verbatim>\<open>kernel/sched.c\<close> and \<^verbatim>\<open>kernel/process.c\<close>. A heap
  object is found by its address in the store of its type; reading an address that holds no
  object of the type is \<open>Bad_access\<close>, and \<open>kfree\<close> takes the object away, so that a use after
  free is one too.
\<close>

section \<open>Objects\<close>

abbreviation PROCESS_FDS :: nat where "PROCESS_FDS \<equiv> 32"
abbreviation PROCESS_KERNEL_STACK_SIZE :: u32 where "PROCESS_KERNEL_STACK_SIZE \<equiv> 8192"
abbreviation SCHEDULER_TICK_INTERVAL :: u32 where "SCHEDULER_TICK_INTERVAL \<equiv> 5"
abbreviation TASK_NEW :: u8 where "TASK_NEW \<equiv> 0"
abbreviation TASK_READY :: u8 where "TASK_READY \<equiv> 1"
abbreviation TASK_RUNNING :: u8 where "TASK_RUNNING \<equiv> 2"
abbreviation TASK_BLOCKED :: u8 where "TASK_BLOCKED \<equiv> 3"
abbreviation TASK_ZOMBIE :: u8 where "TASK_ZOMBIE \<equiv> 4"
abbreviation USER_STACK_BASE :: u32 where "USER_STACK_BASE \<equiv> 0xbffff000"
abbreviation USER_STACK_TOP :: u32 where "USER_STACK_TOP \<equiv> USER_STACK_BASE + PAGE_SIZE"

record mm_t =
  mm_pgd :: u32
  mm_mmap :: u32

record vm_area_t =
  vm_start :: u32
  vm_end :: u32
  vm_offset :: u32
  vm_mm :: u32
  vm_file :: u32
  vm_prev :: u32
  vm_next :: u32

record task_t =
  t_pid :: u32
  t_parent :: u32
  t_state :: u8
  t_exit_code :: u32
  t_mm :: u32
  t_kernel_stack_base :: u32
  t_kernel_stack_top :: u32
  t_kernel_esp :: u32
  t_cr3 :: u32
  t_file :: "u32 list"
  t_prev :: u32
  t_next :: u32

text \<open>The sizes of the structures, which the heap is asked for.\<close>

abbreviation SIZEOF_TASK_T :: u32 where "SIZEOF_TASK_T \<equiv> 172"
abbreviation SIZEOF_MM_T :: u32 where "SIZEOF_MM_T \<equiv> 8"
abbreviation SIZEOF_VM_AREA_T :: u32 where "SIZEOF_VM_AREA_T \<equiv> 28"
abbreviation SIZEOF_FILE_T :: u32 where "SIZEOF_FILE_T \<equiv> 8"

definition zero_task :: task_t where
  "zero_task = \<lparr>t_pid = 0, t_parent = 0, t_state = 0, t_exit_code = 0, t_mm = 0, t_kernel_stack_base = 0,
     t_kernel_stack_top = 0, t_kernel_esp = 0, t_cr3 = 0, t_file = replicate PROCESS_FDS 0, t_prev = 0, t_next = 0\<rparr>"

text \<open>The registers that \<open>switch_to\<close> saves and restores.\<close>

record cpu =
  r_ebp :: u32
  r_ebx :: u32
  r_esi :: u32
  r_edi :: u32
  r_esp :: u32
  r_eip :: u32

text \<open>The entries of the table of system calls.\<close>

datatype syscall_handler = Sys_exit | Sys_read | Sys_write | Sys_execve

record kernel =
  k_machine :: machine
  k_cpu :: cpu
  k_gdt :: gdt
  k_tss :: tss_entry
  k_frames :: frames
  k_heap :: heap
  k_paging :: paging
  k_interrupts :: interrupts
  k_syscalls :: "syscall_handler option list"
  k_pci :: pci
  k_disk :: disk
  k_super :: "u8 list"
  k_tty :: tty
  k_phys :: "u32 \<Rightarrow> u8" \<comment> \<open>the bytes of the frames above the kernel image\<close>
  k_tasks :: "u32 \<rightharpoonup> task_t"
  k_mms :: "u32 \<rightharpoonup> mm_t"
  k_vmas :: "u32 \<rightharpoonup> vm_area_t"
  k_files :: "u32 \<rightharpoonup> file_t"
  k_inodes :: "u32 \<rightharpoonup> minix_inode"
  pid_count :: u32
  task_ptr :: u32
  current_task :: u32
  dead_task :: u32

type_synonym 'a op = "kernel \<Rightarrow> ('a, kernel) outcome"

section \<open>Access\<close>

definition with_task :: "u32 \<Rightarrow> (task_t \<Rightarrow> 'a op) \<Rightarrow> 'a op" where
  "with_task a f k = (case k_tasks k a of None \<Rightarrow> Stop Bad_access k | Some t \<Rightarrow> f t k)"

definition with_mm :: "u32 \<Rightarrow> (mm_t \<Rightarrow> 'a op) \<Rightarrow> 'a op" where
  "with_mm a f k = (case k_mms k a of None \<Rightarrow> Stop Bad_access k | Some m \<Rightarrow> f m k)"

definition with_vma :: "u32 \<Rightarrow> (vm_area_t \<Rightarrow> 'a op) \<Rightarrow> 'a op" where
  "with_vma a f k = (case k_vmas k a of None \<Rightarrow> Stop Bad_access k | Some v \<Rightarrow> f v k)"

definition with_file :: "u32 \<Rightarrow> (file_t \<Rightarrow> 'a op) \<Rightarrow> 'a op" where
  "with_file a f k = (case k_files k a of None \<Rightarrow> Stop Bad_access k | Some v \<Rightarrow> f v k)"

definition with_inode :: "u32 \<Rightarrow> (minix_inode \<Rightarrow> 'a op) \<Rightarrow> 'a op" where
  "with_inode a f k = (case k_inodes k a of None \<Rightarrow> Stop Bad_access k | Some v \<Rightarrow> f v k)"

definition put_task :: "u32 \<Rightarrow> task_t \<Rightarrow> kernel \<Rightarrow> kernel" where
  "put_task a t k = k\<lparr>k_tasks := (k_tasks k)(a \<mapsto> t)\<rparr>"

definition put_mm :: "u32 \<Rightarrow> mm_t \<Rightarrow> kernel \<Rightarrow> kernel" where
  "put_mm a t k = k\<lparr>k_mms := (k_mms k)(a \<mapsto> t)\<rparr>"

definition put_vma :: "u32 \<Rightarrow> vm_area_t \<Rightarrow> kernel \<Rightarrow> kernel" where
  "put_vma a t k = k\<lparr>k_vmas := (k_vmas k)(a \<mapsto> t)\<rparr>"

definition put_file :: "u32 \<Rightarrow> file_t \<Rightarrow> kernel \<Rightarrow> kernel" where
  "put_file a t k = k\<lparr>k_files := (k_files k)(a \<mapsto> t)\<rparr>"

definition on_machine :: "(machine \<Rightarrow> machine) \<Rightarrow> kernel \<Rightarrow> kernel" where
  "on_machine f k = k\<lparr>k_machine := f (k_machine k)\<rparr>"

text \<open>The assignment of a field of the task at \<open>a\<close>.\<close>

definition set_task :: "u32 \<Rightarrow> (task_t \<Rightarrow> task_t) \<Rightarrow> unit op" where
  "set_task a f = with_task a (\<lambda>t k. Ret () (put_task a (f t) k))"

section \<open>The heap of the kernel\<close>

definition new :: "u32 \<Rightarrow> u32 op" where
  "new sz k = (case kmalloc sz (k_heap k) of None \<Rightarrow> Stop Diverges k | Some (p, h) \<Rightarrow> Ret p (k\<lparr>k_heap := h\<rparr>))"

definition forget :: "u32 \<Rightarrow> kernel \<Rightarrow> kernel" where
  "forget a k = k\<lparr>k_tasks := (k_tasks k)(a := None), k_mms := (k_mms k)(a := None), k_vmas := (k_vmas k)(a := None),
     k_files := (k_files k)(a := None), k_inodes := (k_inodes k)(a := None)\<rparr>"

definition dispose :: "u32 \<Rightarrow> unit op" where
  "dispose a k = (case kfree a (k_heap k) of None \<Rightarrow> Stop Bad_access k | Some h \<Rightarrow> Ret () (forget a (k\<lparr>k_heap := h\<rparr>)))"

section \<open>Files\<close>

text \<open>The operations of the file system on the shared state.\<close>

definition fs_of :: "kernel \<Rightarrow> disk_state \<times> fs_mem" where
  "fs_of k = ((k_disk k, k_machine k), \<lparr>fm_heap = k_heap k, fm_inodes = k_inodes k\<rparr>)"

definition put_fs :: "disk_state \<times> fs_mem \<Rightarrow> kernel \<Rightarrow> kernel" where
  "put_fs st k = k\<lparr>k_disk := fst (fst st), k_machine := snd (fst st), k_heap := fm_heap (snd st), k_inodes := fm_inodes (snd st)\<rparr>"

definition on_fs :: "(disk_state \<times> fs_mem \<Rightarrow> ('a, disk_state \<times> fs_mem) outcome) \<Rightarrow> 'a op" where
  "on_fs f k = (case f (fs_of k) of Ret a st \<Rightarrow> Ret a (put_fs st k) | Stop e st \<Rightarrow> Stop e (put_fs st k))"

definition open_file :: "env \<Rightarrow> symbols \<Rightarrow> u8 list \<Rightarrow> u8 list option \<Rightarrow> u32 \<Rightarrow> u8 op" where
  "open_file E L junk path file k =
     and_then (on_fs (vfs_open (disk_read E L) (k_super k) junk path) k) (\<lambda>r k. Ret (fst r) (put_file file (snd r) k))"

definition close_file :: "u32 \<Rightarrow> unit op" where
  "close_file file = with_file file (\<lambda>f k.
     and_then (on_fs (\<lambda>st. case vfs_close f (snd st) of Ret f' fm \<Rightarrow> Ret f' (fst st, fm) | Stop e fm \<Rightarrow> Stop e (fst st, fm)) k)
       (\<lambda>f' k. Ret () (put_file file f' k)))"

text \<open>The result is the count and the bytes for the buffer.\<close>

definition read_file :: "env \<Rightarrow> symbols \<Rightarrow> u32 \<Rightarrow> u32 \<Rightarrow> (u32 \<times> u8 list) op" where
  "read_file E L file count = with_file file (\<lambda>f. with_inode (f_inode f) (\<lambda>i k.
     and_then (on_fs (on_dev (vfs_read (disk_read E L) i (f_pos f) count)) k)
       (\<lambda>(n, bs, pos) k. Ret (n, bs) (put_file file (f\<lparr>f_pos := pos\<rparr>) k))))"

definition get_current_task :: "kernel \<Rightarrow> u32" where
  "get_current_task k = current_task k"

definition set_current_task :: "u32 \<Rightarrow> kernel \<Rightarrow> kernel" where
  "set_current_task task k = k\<lparr>current_task := task\<rparr>"

lemmas access_defs = with_task_def with_mm_def with_vma_def with_file_def with_inode_def set_task_def
lemmas put_defs = put_task_def put_mm_def put_vma_def put_file_def

section \<open>Well-formed stores\<close>

text \<open>
  Every object except the static idle task lives in a region the heap has handed out, so a new
  address is not the address of any object.
\<close>

definition objects :: "kernel \<Rightarrow> u32 set" where
  "objects k = dom (k_tasks k) \<union> dom (k_mms k) \<union> dom (k_vmas k) \<union> dom (k_files k) \<union> dom (k_inodes k)"

definition objects_ok :: "symbols \<Rightarrow> u32 \<Rightarrow> kernel \<Rightarrow> bool" where
  "objects_ok L base k \<longleftrightarrow> heap_ok base (k_heap k) \<and> objects k \<subseteq> insert (sym_idle_task L) (fst ` allocated (k_heap k))
     \<and> (unat (sym_idle_task L) < unat base \<or> unat base + 65536 < unat (sym_idle_task L))"

lemma objects_okD: "objects_ok L base k \<Longrightarrow> heap_ok base (k_heap k)"
  by (simp add: objects_ok_def)

lemma new_cases [consumes 1, case_names null fresh]:
  assumes "objects_ok L base k"
  obtains (null) "new sz k = Ret 0 k"
  | (fresh) p h m where "new sz k = Ret p (k\<lparr>k_heap := h\<rparr>)" "p \<noteq> 0" "heap_align_up sz \<le> m" "heap_ok base h"
      "allocated h = insert (p, m) (allocated (k_heap k))" "p \<notin> fst ` allocated (k_heap k)" "p \<notin> objects k"
      "p \<noteq> sym_idle_task L"
proof -
  note ok = objects_okD [OF assms]
  obtain p h where r: "kmalloc sz (k_heap k) = Some (p, h)" "heap_ok base h" using kheap.alloc_returns [OF ok] by blast
  show ?thesis
  proof (cases "p = 0")
    case True
    then have "h = k_heap k" using kheap.alloc_null [OF ok] r(1) by blast
    then show ?thesis using r(1) True by (intro null) (simp add: new_def)
  next
    case False
    from kheap.alloc_region [OF ok r(1) False] obtain m where
      m: "heap_align_up sz \<le> m" "allocated h = insert (p, m) (allocated (k_heap k))" "p \<notin> fst ` allocated (k_heap k)" by blast
    have "in_heap base (p, m)" using region_in_heap [OF r(2)] m(2) by blast
    then have "p \<noteq> sym_idle_task L" using assms by (auto simp: objects_ok_def in_heap_def)
    moreover from this have "p \<notin> objects k" using assms m(3) by (auto simp: objects_ok_def)
    ultimately show ?thesis using r m False by (intro fresh) (auto simp: new_def)
  qed
qed

lemma dispose_region:
  assumes "heap_ok base (k_heap k)" and "(p, m) \<in> allocated (k_heap k)"
  obtains h where "dispose p k = Ret () (forget p (k\<lparr>k_heap := h\<rparr>))" "heap_ok base h" "allocated h = allocated (k_heap k) - {(p, m)}"
  using kheap.free_region [OF assms] by (auto simp: dispose_def)

lemma forget_sel [simp]:
  "k_heap (forget a k) = k_heap k" "k_machine (forget a k) = k_machine k" "k_paging (forget a k) = k_paging k"
  "k_frames (forget a k) = k_frames k" "k_phys (forget a k) = k_phys k" "k_cpu (forget a k) = k_cpu k"
  "k_tasks (forget a k) = (k_tasks k)(a := None)" "k_mms (forget a k) = (k_mms k)(a := None)"
  "k_vmas (forget a k) = (k_vmas k)(a := None)" "k_files (forget a k) = (k_files k)(a := None)"
  "k_inodes (forget a k) = (k_inodes k)(a := None)" "task_ptr (forget a k) = task_ptr k"
  "current_task (forget a k) = current_task k" "dead_task (forget a k) = dead_task k" "pid_count (forget a k) = pid_count k"
  "k_disk (forget a k) = k_disk k" "k_super (forget a k) = k_super k" "k_tss (forget a k) = k_tss k"
  by (simp_all add: forget_def)

text \<open>
  \<open>grown L base S k k'\<close>: since \<open>k\<close> the heap has handed out exactly the regions \<open>S\<close>, all of them new,
  and no object outside them has changed. Allocating adds a region to \<open>S\<close>, freeing one of
  them takes it out again; with nothing left the resources are those of \<open>k\<close>.
\<close>

definition grown :: "symbols \<Rightarrow> u32 \<Rightarrow> (u32 \<times> u32) set \<Rightarrow> kernel \<Rightarrow> kernel \<Rightarrow> bool" where
  "grown L base S k k' \<longleftrightarrow> heap_ok base (k_heap k') \<and> allocated (k_heap k') = S \<union> allocated (k_heap k) \<and> inj_on fst S
     \<and> fst ` S \<inter> (fst ` allocated (k_heap k) \<union> objects k \<union> {0, sym_idle_task L}) = {}
     \<and> (\<forall>a. a \<notin> fst ` S \<longrightarrow> k_tasks k' a = k_tasks k a \<and> k_mms k' a = k_mms k a \<and> k_vmas k' a = k_vmas k a
          \<and> k_files k' a = k_files k a \<and> k_inodes k' a = k_inodes k a)
     \<and> k_paging k' = k_paging k \<and> k_frames k' = k_frames k \<and> k_machine k' = k_machine k"

lemma grown_refl: "objects_ok L base k \<Longrightarrow> grown L base {} k k"
  by (simp add: grown_def objects_ok_def)

lemma grown_objects_ok:
  assumes "objects_ok L base k" and "grown L base S k k'"
  shows "objects_ok L base k'"
proof -
  have "objects k' \<subseteq> fst ` S \<union> objects k" using assms(2) by (auto simp: grown_def objects_def)
  then show ?thesis using assms by (auto simp: objects_ok_def grown_def image_Un)
qed

lemma grown_new [consumes 2, case_names null fresh]:
  assumes "objects_ok L base k" and "grown L base S k k'"
  obtains (null) "new sz k' = Ret 0 k'"
  | (fresh) p h m where "new sz k' = Ret p (k'\<lparr>k_heap := h\<rparr>)" "p \<noteq> 0" "heap_align_up sz \<le> m" "p \<notin> fst ` S"
      "grown L base (insert (p, m) S) k (k'\<lparr>k_heap := h\<rparr>)"
  using grown_objects_ok [OF assms]
proof (cases rule: new_cases [where sz = sz])
  case (fresh p h m)
  have "p \<notin> fst ` S" "p \<notin> fst ` allocated (k_heap k)" using fresh(6) assms(2) by (auto simp: grown_def)
  moreover have "p \<notin> objects k"
    using fresh(7) assms(2) \<open>p \<notin> fst ` S\<close> by (auto simp: objects_def grown_def domIff)
  ultimately show ?thesis using fresh assms(2)
    by (intro that(2)) (auto simp: grown_def inj_on_insert)
qed (rule that(1))

lemma grown_outside:
  assumes "grown L base S k k'" and "k_heap k'' = k_heap k'" "k_paging k'' = k_paging k'" "k_frames k'' = k_frames k'"
    "k_machine k'' = k_machine k'" and "\<And>a. a \<notin> fst ` S \<Longrightarrow> k_tasks k'' a = k_tasks k' a \<and> k_mms k'' a = k_mms k' a
      \<and> k_vmas k'' a = k_vmas k' a \<and> k_files k'' a = k_files k' a \<and> k_inodes k'' a = k_inodes k' a"
  shows "grown L base S k k''"
  using assms unfolding grown_def by presburger

lemma grown_put [simp]:
  "a \<in> fst ` S \<Longrightarrow> grown L base S k k' \<Longrightarrow> grown L base S k (put_task a t k')"
  "a \<in> fst ` S \<Longrightarrow> grown L base S k k' \<Longrightarrow> grown L base S k (put_mm a m k')"
  "a \<in> fst ` S \<Longrightarrow> grown L base S k k' \<Longrightarrow> grown L base S k (put_vma a v k')"
  "a \<in> fst ` S \<Longrightarrow> grown L base S k k' \<Longrightarrow> grown L base S k (put_file a f k')"
  "grown L base S k k' \<Longrightarrow> grown L base S k (k'\<lparr>pid_count := n\<rparr>)"
  by (erule grown_outside; auto simp: put_defs del: imageE)+

lemma grown_dispose:
  assumes "grown L base S k k'" and "(p, m) \<in> S"
  obtains k'' where "dispose p k' = Ret () k''" "grown L base (S - {(p, m)}) k k''" "pid_count k'' = pid_count k'"
proof -
  have "heap_ok base (k_heap k')" "(p, m) \<in> allocated (k_heap k')" using assms by (auto simp: grown_def)
  then obtain h where h: "dispose p k' = Ret () (forget p (k'\<lparr>k_heap := h\<rparr>))" "heap_ok base h"
      "allocated h = allocated (k_heap k') - {(p, m)}" by (rule dispose_region)
  have al: "allocated (k_heap k') = S \<union> allocated (k_heap k)" and inj: "inj_on fst S"
    and disj: "fst ` S \<inter> (fst ` allocated (k_heap k) \<union> objects k \<union> {0, sym_idle_task L}) = {}"
    using assms(1) by (simp_all add: grown_def)
  have "p \<in> fst ` S" using assms(2) by force
  then have p: "p \<notin> objects k" "p \<notin> fst ` allocated (k_heap k)" using disj by blast+
  then have "(p, m) \<notin> allocated (k_heap k)" by force
  then have "allocated h = (S - {(p, m)}) \<union> allocated (k_heap k)" unfolding h(3) al by blast
  moreover have "fst ` (S - {(p, m)}) = fst ` S - {p}"
    using inj_on_image_set_diff [OF inj, of S "{(p, m)}"] assms(2) by simp
  moreover have none: "k_tasks k p = None" "k_mms k p = None" "k_vmas k p = None" "k_files k p = None" "k_inodes k p = None"
    using p(1) by (auto simp: objects_def)
  moreover have "inj_on fst (S - {(p, m)})" using assms(1) by (simp add: grown_def inj_on_diff)
  moreover have "(fst ` S - {p}) \<inter> (fst ` allocated (k_heap k) \<union> objects k \<union> {0, sym_idle_task L}) = {}"
    using assms(1) unfolding grown_def by blast
  moreover have "k_tasks k' a = k_tasks k a \<and> k_mms k' a = k_mms k a \<and> k_vmas k' a = k_vmas k a
      \<and> k_files k' a = k_files k a \<and> k_inodes k' a = k_inodes k a" if "a \<notin> fst ` S - {p}" "a \<noteq> p" for a
    using assms(1) that unfolding grown_def by blast
  moreover have "k_paging k' = k_paging k \<and> k_frames k' = k_frames k \<and> k_machine k' = k_machine k"
    using assms(1) by (simp add: grown_def)
  ultimately have "grown L base (S - {(p, m)}) k (forget p (k'\<lparr>k_heap := h\<rparr>))"
    using h(2) by (simp add: grown_def fun_upd_apply)
  then show ?thesis using h(1) by (intro that [of "forget p (k'\<lparr>k_heap := h\<rparr>)"]) simp_all
qed

lemma grown_nothing:
  assumes "grown L base {} k k'"
  shows "allocated (k_heap k') = allocated (k_heap k)" "k_tasks k' = k_tasks k" "k_mms k' = k_mms k" "k_vmas k' = k_vmas k"
    "k_files k' = k_files k" "k_inodes k' = k_inodes k" "k_paging k' = k_paging k" "k_frames k' = k_frames k"
    "heap_ok base (k_heap k')"
  using assms by (auto simp: grown_def)

section \<open>The state at start\<close>

text \<open>
  The static variables as the loader leaves them, except that the pointer to the disk controller,
  which is null until \<open>init_disk\<close> sets it, is a controller here; and a state with a heap and a
  directory for the examples.
\<close>

definition boot_kernel :: kernel where
  "boot_kernel = \<lparr>k_machine = boot_machine, k_cpu = \<lparr>r_ebp = 0, r_ebx = 0, r_esi = 0, r_edi = 0, r_esp = 0, r_eip = 0\<rparr>,
     k_gdt = replicate 6 zero_entry, k_tss = init_tss_entry, k_frames = replicate PHYSICAL_FRAMES 0,
     k_heap = \<lparr>heap_head = 0, headers = Map.empty\<rparr>,
     k_paging = \<lparr>pd_in_use = replicate 16 0, pt_in_use = replicate 64 0, kmem = (\<lambda>_. 0)\<rparr>,
     k_interrupts = boot_interrupts, k_syscalls = replicate 256 None, k_pci = boot_pci, k_disk = sample_disk, k_super = replicate 1024 0, k_tty = boot_tty,
     k_phys = (\<lambda>_. 0), k_tasks = Map.empty, k_mms = Map.empty, k_vmas = Map.empty, k_files = Map.empty,
     k_inodes = Map.empty, pid_count = 0, task_ptr = 0, current_task = 0, dead_task = 0\<rparr>"

definition sample_kernel :: kernel where
  "sample_kernel = boot_kernel\<lparr>k_machine := boot_machine\<lparr>cr3 := 0x100000\<rparr>, k_frames := init_frames,
     k_heap := init_heap_blocks 0xc0200000, k_paging := one_table, k_super := tiny_super\<rparr>"

lemma sample_kernel_ok:
  "objects_ok sample_symbols 0xc0200000 sample_kernel" "pd_ok sample_symbols (k_paging sample_kernel)"
  "pt_ok sample_symbols (k_paging sample_kernel)"
  "pd_used sample_symbols (k_paging sample_kernel) = {}" "pt_used sample_symbols (k_paging sample_kernel) = {}"
  "get_pd_vma (get_cr3 (k_machine sample_kernel)) = 0xc0100000"
  by (simp_all add: objects_ok_def sample_kernel_def boot_kernel_def example_init objects_def sample_symbols_ok
      pd_ok_def pt_ok_def pool_ok_def one_table_def pd_used_def pt_used_def pool_used_def get_pd_vma_def get_cr3_def)
    (simp add: sample_symbols_def)

lemma sample_pool_pages: "a \<in> pd_pages sample_symbols \<union> pt_pages sample_symbols \<Longrightarrow> 0xc0110000 \<le> unat a"
proof -
  have at: "pool_at 0xc0110000 0 16" "pool_at 0xc0130000 0 64" by (simp_all add: pool_at_def)
  show "a \<in> pd_pages sample_symbols \<union> pt_pages sample_symbols \<Longrightarrow> 0xc0110000 \<le> unat a"
    by (auto simp: pd_pages_def pt_pages_def sample_symbols_def pool_pages_def unat_pool_page [OF at(1)] unat_pool_page [OF at(2)])
qed

lemma sample_directory_static: "0xc0100000 \<notin> pd_pages sample_symbols \<union> pt_pages sample_symbols"
  using sample_pool_pages [of "0xc0100000"] by auto

end
