(* ===== verification/Process.thy ===== *)
theory Process
  imports Kernel
begin

text \<open>
  Tasks and address spaces, \<^verbatim>\<open>kernel/process.c\<close>. The loops over the list of memory areas are
  \<^theory_text>\<open>partial_function (option)\<close>: \<open>None\<close> is a list that does not end.
\<close>

section \<open>Model\<close>

definition alloc_pid :: "u32 op" where
  "alloc_pid k = (let k = k\<lparr>pid_count := pid_count k + 1\<rparr> in Ret (pid_count k) k)"

definition copy_kernel_mappings :: "u32 \<Rightarrow> u32 \<Rightarrow> (u32 \<Rightarrow> u32) \<Rightarrow> (u32 \<Rightarrow> u32)" where
  "copy_kernel_mappings dst_pgd src_pgd mem =
     fold (\<lambda>i mem. let pde = mem (slot src_pgd (of_nat i)) in
       if pde AND PAGE_FLAG_PRESENT \<noteq> 0 \<and> pde AND PAGE_FLAG_USER = 0
       then mem(slot dst_pgd (of_nat i) := pde) else mem) [0..<PAGE_DIRECTORY_ENTRIES] mem"

definition create_task_mm :: "symbols \<Rightarrow> u32 \<Rightarrow> u8 op" where
  "create_task_mm L mm k =
     (let (pd, pg) = alloc_pd L (k_paging k) in
      if pd = 0 then Ret 0 (k\<lparr>k_paging := pg\<rparr>)
      else let current_pgd = get_pd_vma (get_cr3 (k_machine k));
               k = k\<lparr>k_paging := pg\<lparr>kmem := copy_kernel_mappings pd current_pgd (kmem pg)\<rparr>\<rparr>
           in Ret 1 (put_mm mm \<lparr>mm_pgd = pd, mm_mmap = 0\<rparr> k))"

partial_function (option) vma_file_seen :: "(u32 \<rightharpoonup> vm_area_t) \<Rightarrow> u32 \<Rightarrow> u32 \<Rightarrow> u32 \<Rightarrow> bool option" where
  "vma_file_seen vmas iter stop_at file =
     (if iter = stop_at then Some False
      else case vmas iter of
        None \<Rightarrow> None
      | Some v \<Rightarrow> if vm_file v = file then Some True else vma_file_seen vmas (vm_next v) stop_at file)"

partial_function (option) close_files :: "u32 \<Rightarrow> u32 \<Rightarrow> kernel \<Rightarrow> (unit, kernel) outcome option" where
  "close_files head vma k =
     (if vma = 0 then Some (Ret () k)
      else case k_vmas k vma of
        None \<Rightarrow> Some (Stop Bad_access k)
      | Some v \<Rightarrow>
          if vm_file v = 0 then close_files head (vm_next v) k
          else case vma_file_seen (k_vmas k) head vma (vm_file v) of
            None \<Rightarrow> Some (Stop Bad_access k)
          | Some seen \<Rightarrow>
              if seen then close_files head (vm_next v) k
              else case and_then (close_file (vm_file v) k) (\<lambda>_. dispose (vm_file v)) of
                Stop e k \<Rightarrow> Some (Stop e k)
              | Ret _ k \<Rightarrow> case k_vmas k vma of
                  None \<Rightarrow> Some (Stop Bad_access k)
                | Some v \<Rightarrow> close_files head (vm_next v) k)"

partial_function (option) free_vmas :: "u32 \<Rightarrow> kernel \<Rightarrow> (unit, kernel) outcome option" where
  "free_vmas vma k =
     (if vma = 0 then Some (Ret () k)
      else case k_vmas k vma of
        None \<Rightarrow> Some (Stop Bad_access k)
      | Some v \<Rightarrow> case dispose vma k of
          Stop e k \<Rightarrow> Some (Stop e k)
        | Ret _ k \<Rightarrow> free_vmas (vm_next v) k)"

definition ended :: "(unit, kernel) outcome option \<Rightarrow> kernel \<Rightarrow> (unit, kernel) outcome" where
  "ended r k = (case r of None \<Rightarrow> Stop Diverges k | Some r \<Rightarrow> r)"

fun each :: "('i \<Rightarrow> unit op) \<Rightarrow> 'i list \<Rightarrow> unit op" where
  "each f [] k = Ret () k"
| "each f (i # is) k = and_then (f i k) (\<lambda>_. each f is)"

definition free_pte :: "u32 \<Rightarrow> nat \<Rightarrow> unit op" where
  "free_pte page_table pte_i k =
     (let pte = kmem (k_paging k) (slot page_table (of_nat pte_i)) in
      if pte AND PAGE_FLAG_PRESENT \<noteq> 0
      then case free_phys_frame (pte AND PAGE_ADDRESS_MASK) (k_frames k) of
             None \<Rightarrow> Stop Bad_access k
           | Some (_, f) \<Rightarrow> Ret () (k\<lparr>k_frames := f\<rparr>)
      else Ret () k)"

definition free_pde :: "symbols \<Rightarrow> u32 \<Rightarrow> nat \<Rightarrow> unit op" where
  "free_pde L pgd pde_i k =
     (let pde = kmem (k_paging k) (slot pgd (of_nat pde_i)) in
      if pde AND PAGE_FLAG_PRESENT = 0 \<or> pde AND PAGE_FLAG_USER = 0 then Ret () k
      else let page_table = get_pd_vma pde
           in and_then (each (free_pte page_table) [0..<PAGE_TABLE_ENTRIES] k) (\<lambda>_ k.
                let pg = snd (free_pt L page_table (k_paging k))
                in Ret () (k\<lparr>k_paging := pg\<lparr>kmem := (kmem pg)(slot pgd (of_nat pde_i) := 0)\<rparr>\<rparr>)))"

definition free_tables :: "symbols \<Rightarrow> u32 \<Rightarrow> unit op" where
  "free_tables L pgd k =
     (if pgd = 0 then Ret () k
      else and_then (each (free_pde L pgd) [0..<PAGE_DIRECTORY_ENTRIES] k) (\<lambda>_ k.
        Ret () (k\<lparr>k_paging := snd (free_pd L pgd (k_paging k))\<rparr>)))"

definition release_mm :: "symbols \<Rightarrow> u32 \<Rightarrow> unit op" where
  "release_mm L mm k =
     (if mm = 0 then Ret () k
      else with_mm mm (\<lambda>m k.
        and_then (ended (close_files (mm_mmap m) (mm_mmap m) k) k) (\<lambda>_ k.
        and_then (ended (free_vmas (mm_mmap m) k) k) (\<lambda>_ k.
        and_then (free_tables L (mm_pgd m) k) (\<lambda>_. dispose mm)))) k)"

definition switch_mm :: "u32 \<Rightarrow> u32 \<Rightarrow> unit op" where
  "switch_mm task mm k =
     (let (flags, m) = irq_save (k_machine k)
      in and_then (with_mm mm (\<lambda>x. set_task task (\<lambda>t. t\<lparr>t_mm := mm, t_cr3 := get_pd_lma (mm_pgd x)\<rparr>)) (k\<lparr>k_machine := m\<rparr>))
           (\<lambda>_. with_task task (\<lambda>t k. Ret () (on_machine (irq_restore flags) (on_machine (set_cr3 (t_cr3 t)) k)))))"

definition create_task :: "symbols \<Rightarrow> u32 \<Rightarrow> u32 op" where
  "create_task L parent k =
     and_then (new SIZEOF_TASK_T k) (\<lambda>task k.
       if task = 0 then Ret 0 k
       else and_then (alloc_pid k) (\<lambda>pid k.
         let k = put_task task (zero_task\<lparr>t_pid := pid, t_parent := parent, t_state := TASK_NEW\<rparr>) k
         in and_then (new PROCESS_KERNEL_STACK_SIZE k) (\<lambda>stack k.
           if stack = 0 then and_then (dispose task k) (\<lambda>_. Ret 0)
           else and_then (set_task task (\<lambda>t. t\<lparr>t_kernel_stack_base := stack,
                 t_kernel_stack_top := stack + PROCESS_KERNEL_STACK_SIZE\<rparr>) k) (\<lambda>_ k.
             and_then (new SIZEOF_MM_T k) (\<lambda>mm k.
               if mm = 0 then and_then (dispose stack k) (\<lambda>_ k. and_then (dispose task k) (\<lambda>_. Ret 0))
               else and_then (create_task_mm L mm k) (\<lambda>ok k.
                 if ok = 0
                 then and_then (dispose mm k) (\<lambda>_ k. and_then (dispose stack k) (\<lambda>_ k.
                        and_then (dispose task k) (\<lambda>_. Ret 0)))
                 else with_mm mm (\<lambda>m k. and_then (set_task task (\<lambda>t. t\<lparr>t_mm := mm, t_cr3 := get_pd_lma (mm_pgd m)\<rparr>) k)
                        (\<lambda>_. Ret task)) k))))))"

definition destroy_task :: "symbols \<Rightarrow> u32 \<Rightarrow> unit op" where
  "destroy_task L task =
     with_task task (\<lambda>t k.
       and_then (release_mm L (t_mm t) k) (\<lambda>_ k.
       and_then (set_task task (\<lambda>t. t\<lparr>t_mm := 0\<rparr>) k) (\<lambda>_.
       with_task task (\<lambda>t k.
         and_then (if t_kernel_stack_base t \<noteq> 0 then dispose (t_kernel_stack_base t) k else Ret () k) (\<lambda>_.
           dispose task)))))"

definition push :: "u32 \<Rightarrow> u32 \<times> (u32 \<Rightarrow> u32) \<Rightarrow> u32 \<times> (u32 \<Rightarrow> u32)" where
  "push v s = (fst s - 4, (snd s)(fst s - 4 := v))"

definition prepare_user_task_stack :: "symbols \<Rightarrow> u32 \<Rightarrow> u32 \<Rightarrow> u32 \<Rightarrow> u32 \<Rightarrow> u8 op" where
  "prepare_user_task_stack L task entry_point user_eflags user_esp =
     with_task task (\<lambda>t k.
       let (stack, mem) = fold push [ucast GDT_USER_DATA_SELECTOR, user_esp, user_eflags, ucast GDT_USER_CODE_SELECTOR,
             entry_point, 0, sym_enter_user_task L, 0, 0, 0, 0] (t_kernel_stack_top t, kmem (k_paging k));
           k = k\<lparr>k_paging := (k_paging k)\<lparr>kmem := mem\<rparr>\<rparr>
       in and_then (set_task task (\<lambda>t. t\<lparr>t_kernel_esp := stack\<rparr>) k) (\<lambda>_. Ret 1))"

definition spin_forever :: "'a op" where
  "spin_forever k = Stop Spin_forever k"

section \<open>A new address space\<close>

definition kernel_entry :: "u32 \<Rightarrow> bool" where
  "kernel_entry pde \<longleftrightarrow> pde AND PAGE_FLAG_PRESENT \<noteq> 0 \<and> pde AND PAGE_FLAG_USER = 0"

lemma copy_kernel_mappings_slot:
  assumes "page_aligned dst" and "page_aligned src" and "dst \<noteq> src" and "page_aligned b" and "unat i < 1024"
  shows "copy_kernel_mappings dst src mem (slot b i) =
    (if b = dst \<and> kernel_entry (mem (slot src i)) then mem (slot src i) else mem (slot b i))"
proof -
  define g where "g = (\<lambda>i mem. let pde = mem (slot src (of_nat i)) in
       if pde AND PAGE_FLAG_PRESENT \<noteq> 0 \<and> pde AND PAGE_FLAG_USER = 0
       then mem(slot dst (of_nat i) := pde) else mem)"
  have g: "g n m = (if kernel_entry (m (slot src (of_nat n))) then m(slot dst (of_nat n) := m (slot src (of_nat n))) else m)"
    for n m by (simp add: g_def Let_def kernel_entry_def)
  have "page_aligned b \<Longrightarrow> unat i < 1024 \<Longrightarrow> fold g [0..<n] mem (slot b i) =
      (if b = dst \<and> unat i < n \<and> kernel_entry (mem (slot src i)) then mem (slot src i) else mem (slot b i))"
    if "n \<le> 1024" for n b i
    using that
  proof (induction n arbitrary: b i)
    case (Suc n)
    have w: "unat (of_nat n :: u32) = n" using Suc.prems(3) by simp
    have eq: "slot b i = slot dst (of_nat n) \<longleftrightarrow> b = dst \<and> unat i = n"
      using Suc.prems assms(1) w by (subst slot_eq_iff) (auto simp: word_unat_eq_iff)
    have i: "unat i = n \<Longrightarrow> i = of_nat n" using w by (simp add: word_unat_eq_iff)
    have src: "fold g [0..<n] mem (slot src (of_nat n)) = mem (slot src (of_nat n))"
      using Suc.IH [of src "of_nat n"] Suc.prems assms(2,3) w by simp
    show ?case using Suc.IH [of b i] Suc.prems src eq i
      by (cases "unat i = n") (auto simp: g [of n "fold g [0..<n] mem"] less_Suc_eq)
  qed simp
  from this [of 1024] assms(4,5) show ?thesis by (simp add: copy_kernel_mappings_def g_def [symmetric])
qed

text \<open>The kernel's entries of the directory \<open>src\<close> and nothing else.\<close>

definition kernel_copy :: "u32 \<Rightarrow> u32 \<Rightarrow> (u32 \<Rightarrow> u32) \<Rightarrow> (u32 \<Rightarrow> u32) \<Rightarrow> bool" where
  "kernel_copy dst src mem mem' \<longleftrightarrow> (\<forall>b i. page_aligned b \<and> unat i < 1024 \<longrightarrow> mem' (slot b i) =
     (if b = dst then if kernel_entry (mem (slot src i)) then mem (slot src i) else 0 else mem (slot b i)))"

lemma create_task_mm_cases [consumes 2, case_names exhausted created]:
  assumes "pd_ok L (k_paging k)" and "get_pd_vma (get_cr3 (k_machine k)) \<notin> pd_pages L - pd_used L (k_paging k)"
  obtains (exhausted) "create_task_mm L mm k = Ret 0 k" "pd_used L (k_paging k) = pd_pages L"
  | (created) pd pg where "create_task_mm L mm k = Ret 1 (put_mm mm \<lparr>mm_pgd = pd, mm_mmap = 0\<rparr> (k\<lparr>k_paging := pg\<rparr>))"
      "pd \<noteq> 0" "pd \<in> pd_pages L" "pd \<notin> pd_used L (k_paging k)" "pd_ok L pg"
      "pd_used L pg = insert pd (pd_used L (k_paging k))" "pt_in_use pg = pt_in_use (k_paging k)" "page_aligned pd"
      "kernel_copy pd (get_pd_vma (get_cr3 (k_machine k))) (kmem (k_paging k)) (kmem pg)"
proof -
  obtain pd pg where a: "alloc_pd L (k_paging k) = (pd, pg)" by fastforce
  let ?cur = "get_pd_vma (get_cr3 (k_machine k))"
  show ?thesis
  proof (cases "pd = 0")
    case True
    then have "pg = k_paging k" "pd_used L (k_paging k) = pd_pages L" using pd_pool.alloc_null [OF assms(1)] a by auto
    then show ?thesis using a True by (intro exhausted) (simp_all add: create_task_mm_def)
  next
    case False
    note p = pd_pool.alloc_page [OF assms(1) a False] and z = alloc_pd_zeroed [OF assms(1) a False]
    define pg' where "pg' = pg\<lparr>kmem := copy_kernel_mappings pd ?cur (kmem pg)\<rparr>"
    have "pd \<noteq> ?cur" using p assms(2) by auto
    moreover have "page_aligned pd" using z by (simp add: page_zeroed_def)
    ultimately have "kernel_copy pd ?cur (kmem (k_paging k)) (kmem pg')"
      using z by (auto simp: kernel_copy_def pg'_def copy_kernel_mappings_slot page_zeroed_def)
    then show ?thesis using a p z False
      by (intro created [of pd pg']) (simp_all add: create_task_mm_def pg'_def pd_defs page_zeroed_def)
  qed
qed

section \<open>Creating a task\<close>

definition same_resources :: "symbols \<Rightarrow> kernel \<Rightarrow> kernel \<Rightarrow> bool" where
  "same_resources L k k' \<longleftrightarrow> allocated (k_heap k') = allocated (k_heap k) \<and> pd_used L (k_paging k') = pd_used L (k_paging k)
     \<and> pt_used L (k_paging k') = pt_used L (k_paging k) \<and> k_frames k' = k_frames k \<and> k_tasks k' = k_tasks k
     \<and> k_mms k' = k_mms k \<and> k_vmas k' = k_vmas k \<and> k_files k' = k_files k \<and> k_inodes k' = k_inodes k"

text \<open>What the new task at \<open>a\<close> owns.\<close>

definition fresh_task :: "symbols \<Rightarrow> u32 \<Rightarrow> u32 \<Rightarrow> kernel \<Rightarrow> kernel \<Rightarrow> bool" where
  "fresh_task L a par k k' \<longleftrightarrow> (\<exists>stack mm pd m1 m2 m3.
     k_tasks k' = (k_tasks k)(a \<mapsto> zero_task\<lparr>t_pid := pid_count k + 1, t_parent := par, t_state := TASK_NEW,
       t_kernel_stack_base := stack, t_kernel_stack_top := stack + PROCESS_KERNEL_STACK_SIZE, t_mm := mm, t_cr3 := get_pd_lma pd\<rparr>)
     \<and> k_mms k' = (k_mms k)(mm \<mapsto> \<lparr>mm_pgd = pd, mm_mmap = 0\<rparr>)
     \<and> SIZEOF_TASK_T \<le> m1 \<and> PROCESS_KERNEL_STACK_SIZE \<le> m2 \<and> SIZEOF_MM_T \<le> m3
     \<and> allocated (k_heap k') = {(a, m1), (stack, m2), (mm, m3)} \<union> allocated (k_heap k)
     \<and> distinct [a, stack, mm] \<and> {a, stack, mm} \<inter> (fst ` allocated (k_heap k) \<union> objects k \<union> {0, sym_idle_task L}) = {}
     \<and> pd \<noteq> 0 \<and> page_aligned pd \<and> pd \<notin> pd_used L (k_paging k) \<and> pd_used L (k_paging k') = insert pd (pd_used L (k_paging k))
     \<and> pd_ok L (k_paging k') \<and> pt_in_use (k_paging k') = pt_in_use (k_paging k)
     \<and> kernel_copy pd (get_pd_vma (get_cr3 (k_machine k))) (kmem (k_paging k)) (kmem (k_paging k')))
     \<and> k_vmas k' = k_vmas k \<and> k_files k' = k_files k \<and> k_inodes k' = k_inodes k \<and> k_frames k' = k_frames k
     \<and> pid_count k' = pid_count k + 1"

lemma set_task_put: "k_tasks k a = Some t \<Longrightarrow> set_task a f k = Ret () (put_task a (f t) k)"
  by (simp add: set_task_def with_task_def)

lemma put_task_at [simp]: "k_tasks (put_task a t k) = (k_tasks k)(a \<mapsto> t)" "k_tasks (put_mm b m k) = k_tasks k"
    "k_mms (put_mm b m k) = (k_mms k)(b \<mapsto> m)" "k_mms (put_task a t k) = k_mms k"
    "put_task a t (put_task a t' k) = put_task a t k" "k_heap (put_task a t k) = k_heap k" "k_heap (put_mm b m k) = k_heap k"
    "k_paging (put_task a t k) = k_paging k" "k_machine (put_task a t k) = k_machine k"
    "pid_count (put_task a t k) = pid_count k" "pid_count (put_mm b m k) = pid_count k"
  by (simp_all add: put_defs)

lemma create_task_cases:
  assumes "objects_ok L base k" and "pd_ok L (k_paging k)"
    and "get_pd_vma (get_cr3 (k_machine k)) \<notin> pd_pages L - pd_used L (k_paging k)"
  shows "\<exists>a k'. create_task L par k = Ret a k' \<and> heap_ok base (k_heap k') \<and>
    (if a = 0 then same_resources L k k' else fresh_task L a par k k')"
proof -
  have undone: ?thesis if "create_task L par k = Ret 0 k'" "grown L base {} k k'" for k'
    using that grown_nothing [OF that(2)] by (simp add: same_resources_def)
  from assms(1) grown_refl [OF assms(1)] show ?thesis
  proof (cases rule: grown_new [where sz = SIZEOF_TASK_T])
    case null
    then show ?thesis using grown_refl [OF assms(1)] by (intro undone) (auto simp: create_task_def)
  next
    case (fresh a h1 m1)
    note one = fresh
    define k1 where "k1 = put_task a (zero_task\<lparr>t_pid := pid_count k + 1, t_parent := par, t_state := TASK_NEW\<rparr>)
        (k\<lparr>k_heap := h1, pid_count := pid_count k + 1\<rparr>)"
    have g1: "grown L base {(a, m1)} k k1" using one(5) grown_put(5) [OF one(5)] by (simp add: k1_def)
    from assms(1) g1 show ?thesis
    proof (cases rule: grown_new [where sz = PROCESS_KERNEL_STACK_SIZE])
      case null
      from grown_dispose [OF g1, of a m1] obtain k' where "dispose a k1 = Ret () k'" "grown L base {} k k'" by auto
      then show ?thesis using one null
        by (intro undone [of k']) (simp_all add: create_task_def alloc_pid_def k1_def Let_def)
    next
      case (fresh stack h2 m2)
      note two = fresh
      define k2 where "k2 = put_task a (zero_task\<lparr>t_pid := pid_count k + 1, t_parent := par, t_state := TASK_NEW,
          t_kernel_stack_base := stack, t_kernel_stack_top := stack + PROCESS_KERNEL_STACK_SIZE\<rparr>) (k1\<lparr>k_heap := h2\<rparr>)"
      have g2: "grown L base {(stack, m2), (a, m1)} k k2" using two(5) by (simp add: k2_def)
      from assms(1) g2 show ?thesis
      proof (cases rule: grown_new [where sz = SIZEOF_MM_T])
        case null
        from grown_dispose [OF g2, of stack m2] two(4) obtain k3 where
          d3: "dispose stack k2 = Ret () k3" "grown L base {(a, m1)} k k3" by auto
        from grown_dispose [OF d3(2), of a m1] obtain k4 where "dispose a k3 = Ret () k4" "grown L base {} k k4" by auto
        then show ?thesis using one two null d3(1)
          by (intro undone [of k4]) (simp_all add: create_task_def alloc_pid_def k1_def k2_def Let_def set_task_put)
      next
        case (fresh mm h3 m3)
        note three = fresh
        define k3 where "k3 = k2\<lparr>k_heap := h3\<rparr>"
        have paging: "k_paging k3 = k_paging k" "k_machine k3 = k_machine k" using three(5) by (auto simp: grown_def k3_def)
        have pd: "pd_ok L (k_paging k3)"
          "get_pd_vma (get_cr3 (k_machine k3)) \<notin> pd_pages L - pd_used L (k_paging k3)" using assms(2,3) paging by simp_all
        from pd show ?thesis
        proof (cases rule: create_task_mm_cases [where mm = mm])
          case exhausted
          have ne: "a \<noteq> stack" "mm \<noteq> a" "mm \<noteq> stack" using two(4) three(4) by auto
          from grown_dispose [OF three(5), of mm m3] ne obtain k4 where
            d4: "dispose mm k3 = Ret () k4" "grown L base {(stack, m2), (a, m1)} k k4" by (auto simp: k3_def insert_Diff_if)
          from grown_dispose [OF d4(2), of stack m2] ne obtain k5 where
            d5: "dispose stack k4 = Ret () k5" "grown L base {(a, m1)} k k5" by (auto simp: insert_Diff_if)
          from grown_dispose [OF d5(2), of a m1] obtain k6 where "dispose a k5 = Ret () k6" "grown L base {} k k6" by auto
          then show ?thesis using one two three d4(1) d5(1) exhausted
            by (intro undone [of k6]) (simp_all add: create_task_def alloc_pid_def k1_def k2_def k3_def Let_def set_task_put)
        next
          case (created d pg)
          define k' where "k' = put_task a (zero_task\<lparr>t_pid := pid_count k + 1, t_parent := par, t_state := TASK_NEW,
            t_kernel_stack_base := stack, t_kernel_stack_top := stack + PROCESS_KERNEL_STACK_SIZE, t_mm := mm, t_cr3 := get_pd_lma d\<rparr>)
            (put_mm mm \<lparr>mm_pgd = d, mm_mmap = 0\<rparr> (k3\<lparr>k_paging := pg\<rparr>))"
          have r: "create_task L par k = Ret a k'" using one two three created(1)
            by (simp add: create_task_def alloc_pid_def k1_def k2_def k3_def k'_def Let_def set_task_put with_mm_def)
          have sizes: "SIZEOF_TASK_T \<le> m1" "PROCESS_KERNEL_STACK_SIZE \<le> m2" "SIZEOF_MM_T \<le> m3"
            using one(3) two(3) three(3) by (auto simp: heap_align_up_def intro: order_trans [rotated])
          have g: "grown L base {(mm, m3), (stack, m2), (a, m1)} k k3" using three(5) by (simp add: k3_def)
          then have "fst ` {(mm, m3), (stack, m2), (a, m1)} \<inter> (fst ` allocated (k_heap k) \<union> objects k \<union> {0, sym_idle_task L}) = {}"
            "allocated (k_heap k3) = {(mm, m3), (stack, m2), (a, m1)} \<union> allocated (k_heap k)" "heap_ok base (k_heap k3)"
            "k_frames k3 = k_frames k" by (simp_all add: grown_def)
          note st = this
          have stores: "k_vmas k' = k_vmas k" "k_files k' = k_files k" "k_inodes k' = k_inodes k" "pid_count k' = pid_count k + 1"
              "k_frames k' = k_frames k" "k_heap k' = k_heap k3" "k_paging k' = pg"
            by (simp_all add: k'_def k3_def k2_def k1_def put_defs)
          have tables: "k_tasks k' = (k_tasks k)(a \<mapsto> zero_task\<lparr>t_pid := pid_count k + 1, t_parent := par, t_state := TASK_NEW,
              t_kernel_stack_base := stack, t_kernel_stack_top := stack + PROCESS_KERNEL_STACK_SIZE, t_mm := mm, t_cr3 := get_pd_lma d\<rparr>)"
              "k_mms k' = (k_mms k)(mm \<mapsto> \<lparr>mm_pgd = d, mm_mmap = 0\<rparr>)"
            by (simp_all add: k'_def k3_def k2_def k1_def put_defs)
          have "fresh_task L a par k k'"
            unfolding fresh_task_def stores tables
            by (rule conjI, rule exI [of _ stack], rule exI [of _ mm], rule exI [of _ d], rule exI [of _ m1],
                rule exI [of _ m2], rule exI [of _ m3])
              (use sizes st created paging two(4) three(4) in \<open>auto simp: insert_commute\<close>)
          then show ?thesis using r st(3) stores one(2) by auto
        qed
      qed
    qed
  qed
qed

section \<open>Destroying a task\<close>

lemma each_skip: "(\<And>i. i \<in> set is \<Longrightarrow> f i k = Ret () k) \<Longrightarrow> each f is k = Ret () k"
  by (induction "is") auto

lemma each_append: "each f (xs @ ys) k = and_then (each f xs k) (\<lambda>_. each f ys)"
proof (induction xs arbitrary: k)
  case (Cons x xs)
  then show ?case by (cases "f x k") simp_all
qed simp

text \<open>A directory without user entries owns nothing but itself.\<close>

lemma free_tables_kernel_only:
  assumes "pd \<noteq> 0" and "\<And>i. unat i < 1024 \<Longrightarrow> kmem (k_paging k) (slot pd i) = 0 \<or> kernel_entry (kmem (k_paging k) (slot pd i))"
  shows "free_tables L pd k = Ret () (k\<lparr>k_paging := snd (free_pd L pd (k_paging k))\<rparr>)"
proof -
  have "free_pde L pd i k = Ret () k" if "i \<in> set [0..<PAGE_DIRECTORY_ENTRIES]" for i
  proof -
    have "unat (of_nat i :: u32) < 1024" using that by simp
    from assms(2) [OF this] show ?thesis by (auto simp: free_pde_def Let_def kernel_entry_def)
  qed
  then have "each (free_pde L pd) [0..<PAGE_DIRECTORY_ENTRIES] k = Ret () k" by (rule each_skip)
  then show ?thesis using assms(1) by (simp add: free_tables_def)
qed

lemma dispose_back:
  assumes "heap_ok base (k_heap k)" and "allocated (k_heap k) = insert (p, m) S" and "p \<notin> fst ` S"
  obtains h where "dispose p k = Ret () (forget p (k\<lparr>k_heap := h\<rparr>))" "heap_ok base h" "allocated h = S"
proof -
  have "(p, m) \<in> allocated (k_heap k)" "allocated (k_heap k) - {(p, m)} = S" using assms(2,3) by (auto, force)
  from dispose_region [OF assms(1) this(1), unfolded this(2)] that show ?thesis by blast
qed

lemma destroy_fresh:
  assumes "fresh_task L a par k k'" and "heap_ok base (k_heap k')" and "objects_ok L base k"
  shows "\<exists>k''. destroy_task L a k' = Ret () k'' \<and> heap_ok base (k_heap k'') \<and> same_resources L k k''"
proof -
  obtain stack mm pd m1 m2 m3 where f:
    "k_tasks k' = (k_tasks k)(a \<mapsto> zero_task\<lparr>t_pid := pid_count k + 1, t_parent := par, t_state := TASK_NEW,
       t_kernel_stack_base := stack, t_kernel_stack_top := stack + PROCESS_KERNEL_STACK_SIZE, t_mm := mm, t_cr3 := get_pd_lma pd\<rparr>)"
    "k_mms k' = (k_mms k)(mm \<mapsto> \<lparr>mm_pgd = pd, mm_mmap = 0\<rparr>)"
    "allocated (k_heap k') = {(a, m1), (stack, m2), (mm, m3)} \<union> allocated (k_heap k)"
    "distinct [a, stack, mm]" "{a, stack, mm} \<inter> (fst ` allocated (k_heap k) \<union> objects k \<union> {0, sym_idle_task L}) = {}"
    "pd \<noteq> 0" "page_aligned pd" "pd \<notin> pd_used L (k_paging k)" "pd_used L (k_paging k') = insert pd (pd_used L (k_paging k))"
    "pd_ok L (k_paging k')" "pt_in_use (k_paging k') = pt_in_use (k_paging k)"
    "kernel_copy pd (get_pd_vma (get_cr3 (k_machine k))) (kmem (k_paging k)) (kmem (k_paging k'))"
    and g: "k_vmas k' = k_vmas k" "k_files k' = k_files k" "k_inodes k' = k_inodes k" "k_frames k' = k_frames k"
    using assms(1) unfolding fresh_task_def by (elim conjE exE) (rule that; assumption)
  obtain pg where pg: "free_pd L pd (k_paging k') = (1, pg)" "pd_used L pg = pd_used L (k_paging k)"
    using pd_pool.free_page [OF f(10), of pd] f(8,9) by auto
  have pt: "pt_used L pg = pt_used L (k_paging k)"
    using pg(1) f(11) by (auto simp: free_pd_def pt_used_def split: option.splits)
  define k1 where "k1 = k'\<lparr>k_paging := pg\<rparr>"
  have entries: "kmem (k_paging k') (slot pd i) = 0 \<or> kernel_entry (kmem (k_paging k') (slot pd i))" if "unat i < 1024" for i
    using f(7,12) that by (auto simp: kernel_copy_def)
  have "free_tables L pd k' = Ret () k1"
    using free_tables_kernel_only [OF f(6) entries, where L = L] pg(1) by (simp add: k1_def)
  have "heap_ok base (k_heap k1)" "allocated (k_heap k1) = insert (mm, m3) ({(a, m1), (stack, m2)} \<union> allocated (k_heap k))"
    "mm \<notin> fst ` ({(a, m1), (stack, m2)} \<union> allocated (k_heap k))" using assms(2) f(3,4,5) by (auto simp: k1_def)
  from dispose_back [OF this] obtain h1 where h1: "dispose mm k1 = Ret () (forget mm (k1\<lparr>k_heap := h1\<rparr>))" "heap_ok base h1"
    "allocated h1 = {(a, m1), (stack, m2)} \<union> allocated (k_heap k)" .
  obtain t0 where t0: "k_tasks k' a = Some t0" "t_mm t0 = mm" "t_kernel_stack_base t0 = stack" using f(1) by simp
  define t where "t = t0\<lparr>t_mm := 0\<rparr>"
  define k2 where "k2 = put_task a t (forget mm (k1\<lparr>k_heap := h1\<rparr>))"
  have ne: "a \<noteq> stack" "a \<noteq> mm" "stack \<noteq> mm" "stack \<noteq> 0" "mm \<noteq> 0" using f(4,5) by auto
  have "heap_ok base (k_heap k2)" "allocated (k_heap k2) = insert (stack, m2) (insert (a, m1) (allocated (k_heap k)))"
    "stack \<notin> fst ` insert (a, m1) (allocated (k_heap k))" using h1 f(5) ne by (auto simp: k2_def)
  from dispose_back [OF this] obtain h2 where h2: "dispose stack k2 = Ret () (forget stack (k2\<lparr>k_heap := h2\<rparr>))" "heap_ok base h2"
    "allocated h2 = insert (a, m1) (allocated (k_heap k))" .
  define k3 where "k3 = forget stack (k2\<lparr>k_heap := h2\<rparr>)"
  have "heap_ok base (k_heap k3)" "allocated (k_heap k3) = insert (a, m1) (allocated (k_heap k))"
    "a \<notin> fst ` allocated (k_heap k)" using h2 f(5) by (auto simp: k3_def)
  from dispose_back [OF this] obtain h3 where h3: "dispose a k3 = Ret () (forget a (k3\<lparr>k_heap := h3\<rparr>))" "heap_ok base h3"
    "allocated h3 = allocated (k_heap k)" .
  have rel: "release_mm L mm k' = Ret () (forget mm (k1\<lparr>k_heap := h1\<rparr>))"
    using ne f(2) h1(1) \<open>free_tables L pd k' = Ret () k1\<close>
    by (simp add: release_mm_def with_mm_def ended_def close_files.simps free_vmas.simps)
  have "destroy_task L a k' = Ret () (forget a (k3\<lparr>k_heap := h3\<rparr>))"
    using t0 ne h2(1) h3(1) rel
    by (simp add: destroy_task_def with_task_def set_task_def k1_def k2_def k3_def t_def)
  moreover have "k_tasks k a = None" "k_mms k a = None" "k_vmas k a = None" "k_files k a = None" "k_inodes k a = None"
      "k_tasks k stack = None" "k_mms k stack = None" "k_vmas k stack = None" "k_files k stack = None" "k_inodes k stack = None"
      "k_tasks k mm = None" "k_mms k mm = None" "k_vmas k mm = None" "k_files k mm = None" "k_inodes k mm = None"
    using f(5) by (auto simp: objects_def)
  then have "same_resources L k (forget a (k3\<lparr>k_heap := h3\<rparr>))"
    using pg(2) pt f g h3(3) by (auto simp: same_resources_def k3_def k2_def k1_def put_task_def fun_eq_iff)
  ultimately show ?thesis using h3(2) by simp
qed

section \<open>An example\<close>

lemma sample_allocations:
  "\<exists>h1 h2 h3. kmalloc SIZEOF_TASK_T (init_heap_blocks 0xc0200000) = Some (0xc020000c, h1)
     \<and> kmalloc PROCESS_KERNEL_STACK_SIZE h1 = Some (0xc02000c8, h2) \<and> kmalloc SIZEOF_MM_T h2 = Some (0xc02020d4, h3)"
  using kmalloc_rep [of "0xc0200000" "[(65524, True)]" SIZEOF_TASK_T]
    kmalloc_rep [of "0xc0200000" "[(176, False), (65336, True)]" PROCESS_KERNEL_STACK_SIZE]
    kmalloc_rep [of "0xc0200000" "[(176, False), (8192, False), (57132, True)]" SIZEOF_MM_T]
  by (simp add: init_heap_blocks_rep fits_def heap_align_up_def)

lemma sample_create:
  obtains k where "create_task sample_symbols 0 sample_kernel = Ret 0xc020000c k"
proof -
  obtain h1 h2 h3 where h: "kmalloc SIZEOF_TASK_T (init_heap_blocks 0xc0200000) = Some (0xc020000c, h1)"
     "kmalloc PROCESS_KERNEL_STACK_SIZE h1 = Some (0xc02000c8, h2)" "kmalloc SIZEOF_MM_T h2 = Some (0xc02020d4, h3)"
    using sample_allocations by blast
  have "fst (alloc_pd sample_symbols (k_paging sample_kernel)) \<noteq> 0"
    using pd_pool.alloc_succeeds_iff [OF sample_kernel_ok(2)] sample_kernel_ok(4) by (auto simp: pd_pages_def pool_pages_def)
  then have "fst (alloc_pd sample_symbols one_table) \<noteq> 0" by (simp add: sample_kernel_def)
  then show ?thesis using h
    by (intro that) (simp add: create_task_def new_def alloc_pid_def set_task_def with_task_def with_mm_def create_task_mm_def
        sample_kernel_def boot_kernel_def put_defs Let_def split_def)
qed

section \<open>Properties\<close>

text \<open>
  C21. Creating a task: \<open>create_task\<close> always returns. Null means that every resource, heap regions,
  page directories and objects, is as before: each error path gives back what the steps before
  it took. Otherwise the task at the returned address is new and in state \<open>TASK_NEW\<close> with the next
  process id, it owns three new heap regions for itself, a kernel stack of 8192 bytes and its
  address space, and a page directory of its own that holds exactly the kernel's entries of the
  active directory.
\<close>

theorem create_task_correct:
  assumes "objects_ok L base k" and "pd_ok L (k_paging k)"
    and "get_pd_vma (get_cr3 (k_machine k)) \<notin> pd_pages L - pd_used L (k_paging k)"
  shows "\<exists>a k'. create_task L par k = Ret a k' \<and> heap_ok base (k_heap k') \<and>
    (if a = 0 then same_resources L k k' else fresh_task L a par k k')"
  using assms by (rule create_task_cases)

theorem create_task_correct_witness:
  "\<exists>a k'. create_task sample_symbols 0 sample_kernel = Ret a k' \<and> heap_ok 0xc0200000 (k_heap k')"
  using create_task_correct [of sample_symbols "0xc0200000" sample_kernel 0] sample_directory_static
  by (auto simp: sample_kernel_ok)

text \<open>
  C22. Round trip: destroying a task that was created and not used gives back all its resources,
  so heap, page directories, page tables, frames and objects are those before the creation.
\<close>

theorem create_destroy_roundtrip:
  assumes "objects_ok L base k" and "pd_ok L (k_paging k)"
    and "get_pd_vma (get_cr3 (k_machine k)) \<notin> pd_pages L - pd_used L (k_paging k)"
    and "create_task L par k = Ret a k'" and "a \<noteq> 0"
  shows "\<exists>k''. destroy_task L a k' = Ret () k'' \<and> heap_ok base (k_heap k'') \<and> same_resources L k k''"
  using create_task_cases [OF assms(1-3), of par] assms destroy_fresh [of L a par k k' base] by auto

theorem create_destroy_roundtrip_witness:
  "\<exists>a k k'. create_task sample_symbols 0 sample_kernel = Ret a k \<and> destroy_task sample_symbols a k = Ret () k'
     \<and> same_resources sample_symbols sample_kernel k'"
proof -
  obtain k where k: "create_task sample_symbols 0 sample_kernel = Ret 0xc020000c k" by (rule sample_create)
  then show ?thesis
    using create_destroy_roundtrip [OF sample_kernel_ok(1,2) _ k] sample_directory_static by (auto simp: sample_kernel_ok)
qed

end
