(* ===== verification/Mmap.thy ===== *)
theory Mmap
  imports Process
begin

text \<open>
  Memory areas of an address space, \<^verbatim>\<open>kernel/mmap.c\<close> (its \<open>padzero\<close>, which may fault, is in
  \<open>Fault\<close>). The areas of an address space form a doubly linked list; the specification is the
  list of areas in the order of their addresses, no two overlapping.
\<close>

section \<open>Model\<close>

definition align_down :: "u32 \<Rightarrow> u32" where
  "align_down addr = addr AND NOT (PAGE_SIZE - 1)"

definition align_up :: "u32 \<Rightarrow> u32" where
  "align_up addr = (addr + PAGE_SIZE - 1) AND NOT (PAGE_SIZE - 1)"

partial_function (option) vma_position :: "(u32 \<rightharpoonup> vm_area_t) \<Rightarrow> u32 \<Rightarrow> u32 \<Rightarrow> u32 \<Rightarrow> (u32 \<times> u32) option" where
  "vma_position vmas start prev iter =
     (if iter = 0 then Some (prev, iter)
      else case vmas iter of
        None \<Rightarrow> None
      | Some v \<Rightarrow> if vm_start v < start then vma_position vmas start iter (vm_next v) else Some (prev, iter))"

definition link_vma :: "u32 \<Rightarrow> u32 \<Rightarrow> u32 \<Rightarrow> u32 \<Rightarrow> unit op" where
  "link_vma mm vma prev iter k =
     and_then (with_vma vma (\<lambda>v k. Ret () (put_vma vma (v\<lparr>vm_prev := prev, vm_next := iter\<rparr>) k)) k) (\<lambda>_ k.
     and_then (if prev \<noteq> 0 then with_vma prev (\<lambda>v k. Ret () (put_vma prev (v\<lparr>vm_next := vma\<rparr>) k)) k
               else with_mm mm (\<lambda>m k. Ret () (put_mm mm (m\<lparr>mm_mmap := vma\<rparr>) k)) k) (\<lambda>_ k.
     if iter \<noteq> 0 then with_vma iter (\<lambda>v k. Ret () (put_vma iter (v\<lparr>vm_prev := vma\<rparr>) k)) k else Ret () k))"

definition overlaps :: "u32 \<Rightarrow> u32 \<Rightarrow> u32 \<Rightarrow> u32 \<Rightarrow> bool op" where
  "overlaps prev iter start end' k =
     and_then (if prev \<noteq> 0 then with_vma prev (\<lambda>v. Ret (vm_end v > start)) k else Ret False k) (\<lambda>before k.
       if before then Ret True k
       else if iter \<noteq> 0 then with_vma iter (\<lambda>v. Ret (end' > vm_start v)) k else Ret False k)"

definition do_mmap :: "u32 \<Rightarrow> u32 \<Rightarrow> u32 \<Rightarrow> u32 \<Rightarrow> u32 op" where
  "do_mmap addr len file offset k =
     with_task (get_current_task k) (\<lambda>task. with_mm (t_mm task) (\<lambda>m k.
       let mm = t_mm task; start = align_down addr in
       if file \<noteq> 0 \<and> offset < addr - start then Ret 0 k
       else let end' = align_up (addr + len) in
         and_then (new SIZEOF_VM_AREA_T k) (\<lambda>vma k.
           if vma = 0 then Ret 0 k
           else let k = put_vma vma \<lparr>vm_start = start, vm_end = end',
                      vm_offset = (if file \<noteq> 0 then offset - (addr - start) else 0),
                      vm_mm = mm, vm_file = file, vm_prev = 0, vm_next = 0\<rparr> k
           in if mm_mmap m = 0 then Ret vma (put_mm mm (m\<lparr>mm_mmap := vma\<rparr>) k)
              else case vma_position (k_vmas k) start 0 (mm_mmap m) of
                None \<Rightarrow> Stop Bad_access k
              | Some (prev, iter) \<Rightarrow>
                  and_then (overlaps prev iter start end' k) (\<lambda>clash k.
                    if clash then and_then (dispose vma k) (\<lambda>_. Ret 0)
                    else and_then (link_vma mm vma prev iter k) (\<lambda>_. Ret vma))))) k"

definition vm_brk_flags :: "u32 \<Rightarrow> u32 \<Rightarrow> u32 op" where
  "vm_brk_flags addr len = do_mmap addr len 0 0"

section \<open>Alignment\<close>

lemma page_mask: "NOT (PAGE_SIZE - 1) = PAGE_ADDRESS_MASK"
  by code_simp

lemma align_down_page: "align_down a = page_of a"
  by (simp only: align_down_def page_of_def page_mask)

lemma unat_align_down: "unat (align_down a) = unat a div 4096 * 4096"
  by (simp add: align_down_page unat_page_of)

lemma align_up_page: "align_up a = page_of (a + 4095)"
  unfolding align_up_def page_of_def page_mask by (simp add: add_diff_eq [symmetric])

lemma unat_align_up: "unat a + 4095 < 4294967296 \<Longrightarrow> unat (align_up a) = (unat a + 4095) div 4096 * 4096"
  by (simp add: align_up_page unat_page_of unat_add_u32_nowrap)

lemma page_aligned_align [simp]: "page_aligned (align_down a)" "page_aligned (align_up a)"
  by (simp_all add: align_down_page align_up_page)

section \<open>Lists of areas\<close>

text \<open>
  A segment of the list: the nodes \<open>xs\<close> from \<open>a\<close> on, where the node before them is \<open>p\<close>, the last of
  \<open>p\<close> and \<open>xs\<close> is \<open>q\<close>, and the link out of them leads to \<open>b\<close>.
\<close>

fun vma_seg :: "(u32 \<rightharpoonup> vm_area_t) \<Rightarrow> u32 \<Rightarrow> u32 \<Rightarrow> u32 list \<Rightarrow> u32 \<Rightarrow> u32 \<Rightarrow> bool" where
  "vma_seg vmas p a [] q b \<longleftrightarrow> p = q \<and> a = b"
| "vma_seg vmas p a (x # xs) q b \<longleftrightarrow> a = x \<and> x \<noteq> 0 \<and>
     (\<exists>v. vmas x = Some v \<and> vm_prev v = p \<and> vma_seg vmas x (vm_next v) xs q b)"

definition vma_chain :: "(u32 \<rightharpoonup> vm_area_t) \<Rightarrow> u32 \<Rightarrow> u32 list \<Rightarrow> bool" where
  "vma_chain vmas a xs \<longleftrightarrow> (\<exists>q. vma_seg vmas 0 a xs q 0)"

lemma vma_seg_append: "vma_seg vmas p a (xs @ ys) q b \<longleftrightarrow> (\<exists>r c. vma_seg vmas p a xs r c \<and> vma_seg vmas r c ys q b)"
  by (induction xs arbitrary: p a) auto

lemma vma_seg_frame: "vma_seg vmas p a xs q b \<Longrightarrow> x \<notin> set xs \<Longrightarrow> vma_seg (vmas(x := v)) p a xs q b"
  by (induction xs arbitrary: p a) auto

lemma vma_seg_last: "vma_seg vmas p a xs q b \<Longrightarrow> q = (if xs = [] then p else last xs)"
  by (induction xs arbitrary: p a) (auto split: if_splits)

lemma vma_seg_hd: "vma_seg vmas p a xs q b \<Longrightarrow> a = (if xs = [] then b else hd xs)"
  by (cases xs) auto

lemma vma_seg_nonzero: "vma_seg vmas p a xs q b \<Longrightarrow> 0 \<notin> set xs"
  by (induction xs arbitrary: p a) auto

lemma vma_seg_dom: "vma_seg vmas p a xs q b \<Longrightarrow> x \<in> set xs \<Longrightarrow> \<exists>v. vmas x = Some v"
  by (induction xs arbitrary: p a) auto

lemma vma_seg_next:
  assumes "vma_seg vmas p a (xs @ [z]) q b" and "distinct (xs @ [z])" and "vmas z = Some v"
  shows "vma_seg (vmas(z \<mapsto> v\<lparr>vm_next := n\<rparr>)) p a (xs @ [z]) z n"
  using assms by (auto simp: vma_seg_append intro!: vma_seg_frame)

lemma vma_seg_prev:
  assumes "vma_seg vmas p a (x # xs) q b" and "x \<notin> set xs" and "vmas x = Some v"
  shows "vma_seg (vmas(x \<mapsto> v\<lparr>vm_prev := p'\<rparr>)) p' a (x # xs) q b"
  using assms by (auto intro: vma_seg_frame)

definition vma_at :: "(u32 \<rightharpoonup> vm_area_t) \<Rightarrow> u32 \<Rightarrow> vm_area_t" where
  "vma_at vmas a = the (vmas a)"

text \<open>The list of areas is ordered, and no area is empty or reaches into the next.\<close>

definition areas_ok :: "(u32 \<rightharpoonup> vm_area_t) \<Rightarrow> u32 list \<Rightarrow> bool" where
  "areas_ok vmas xs \<longleftrightarrow> distinct xs
     \<and> list_all (\<lambda>x. vm_start (vma_at vmas x) < vm_end (vma_at vmas x) \<and> page_aligned (vm_start (vma_at vmas x))
          \<and> page_aligned (vm_end (vma_at vmas x))) xs
     \<and> sorted_wrt (\<lambda>x y. vm_end (vma_at vmas x) \<le> vm_start (vma_at vmas y)) xs"

lemma vma_position_split:
  "vma_seg vmas p a xs q 0 \<Longrightarrow> \<exists>as bs r c. xs = as @ bs \<and> vma_position vmas start p a = Some (r, c)
     \<and> vma_seg vmas p a as r c \<and> vma_seg vmas r c bs q 0 \<and> (\<forall>x \<in> set as. vm_start (vma_at vmas x) < start)
     \<and> (bs \<noteq> [] \<longrightarrow> start \<le> vm_start (vma_at vmas (hd bs)))"
proof (induction xs arbitrary: p a)
  case Nil
  then show ?case by (intro exI [of _ "[]"] exI [of _ p] exI [of _ 0]) (simp add: vma_position.simps)
next
  case (Cons x xs)
  then obtain v where v: "a = x" "x \<noteq> 0" "vmas x = Some v" "vm_prev v = p" "vma_seg vmas x (vm_next v) xs q 0" by auto
  show ?case
  proof (cases "vm_start v < start")
    case True
    from Cons.IH [OF v(5)] obtain as bs r c where h: "xs = as @ bs" "vma_position vmas start x (vm_next v) = Some (r, c)"
      "vma_seg vmas x (vm_next v) as r c" "vma_seg vmas r c bs q 0" "\<forall>x \<in> set as. vm_start (vma_at vmas x) < start"
      "bs \<noteq> [] \<longrightarrow> start \<le> vm_start (vma_at vmas (hd bs))" by blast
    show ?thesis
      by (rule exI [of _ "x # as"], rule exI [of _ bs], rule exI [of _ r], rule exI [of _ c])
        (use h v True in \<open>simp add: vma_position.simps [of _ _ _ x] vma_at_def\<close>)
  next
    case False
    then show ?thesis
      by (intro exI [of _ "[]"] exI [of _ "x # xs"] exI [of _ p] exI [of _ a])
        (use v Cons.prems in \<open>simp add: vma_position.simps [of _ _ _ x] vma_at_def\<close>)
  qed
qed

section \<open>Inserting an area\<close>

definition same_area :: "vm_area_t \<Rightarrow> vm_area_t \<Rightarrow> bool" where
  "same_area v w \<longleftrightarrow> vm_start v = vm_start w \<and> vm_end v = vm_end w \<and> vm_offset v = vm_offset w
     \<and> vm_mm v = vm_mm w \<and> vm_file v = vm_file w"

lemma same_area_refl [simp]: "same_area v v"
  and same_area_links [simp]: "same_area v (w\<lparr>vm_next := n\<rparr>) = same_area v w" "same_area v (w\<lparr>vm_prev := n\<rparr>) = same_area v w"
  by (simp_all add: same_area_def)

text \<open>The list after the three link updates of \<open>do_mmap\<close>.\<close>

definition linked :: "(u32 \<rightharpoonup> vm_area_t) \<Rightarrow> u32 \<Rightarrow> u32 \<Rightarrow> u32 \<Rightarrow> (u32 \<rightharpoonup> vm_area_t)" where
  "linked vmas n r c =
     (let vmas = vmas(n \<mapsto> (vma_at vmas n)\<lparr>vm_prev := r, vm_next := c\<rparr>);
          vmas = (if r \<noteq> 0 then vmas(r \<mapsto> (vma_at vmas r)\<lparr>vm_next := n\<rparr>) else vmas)
      in if c \<noteq> 0 then vmas(c \<mapsto> (vma_at vmas c)\<lparr>vm_prev := n\<rparr>) else vmas)"

lemma linked_dom: "vmas n \<noteq> None \<Longrightarrow> (r \<noteq> 0 \<Longrightarrow> vmas r \<noteq> None) \<Longrightarrow> (c \<noteq> 0 \<Longrightarrow> vmas c \<noteq> None) \<Longrightarrow>
    vmas x \<noteq> None \<longleftrightarrow> linked vmas n r c x \<noteq> None"
  by (auto simp: linked_def Let_def)

lemma linked_other: "x \<notin> {n, r, c} \<Longrightarrow> linked vmas n r c x = vmas x"
  by (simp add: linked_def Let_def)

lemma linked_same_area: "same_area (vma_at vmas x) (vma_at (linked vmas n r c) x)"
  by (auto simp: linked_def Let_def vma_at_def same_area_def)

lemma linked_chain:
  assumes "vma_seg vmas 0 a as r c" and "vma_seg vmas r c bs q 0" and "distinct (as @ bs)"
    and "n \<notin> set (as @ bs)" and "n \<noteq> 0" and "vmas n \<noteq> None"
  shows "vma_chain (linked vmas n r c) (if r \<noteq> 0 then a else n) (as @ n # bs)"
proof -
  have r: "r = (if as = [] then 0 else last as)" and c: "c = (if bs = [] then 0 else hd bs)"
    using vma_seg_last [OF assms(1)] vma_seg_hd [OF assms(2)] by simp_all
  have nz: "0 \<notin> set as" "0 \<notin> set bs" using vma_seg_nonzero assms(1,2) by blast+
  have rs: "r \<noteq> 0 \<longleftrightarrow> as \<noteq> []" and cs: "c \<noteq> 0 \<longleftrightarrow> bs \<noteq> []"
    using r c nz by (metis last_in_set, metis hd_in_set)
  have mem: "r \<noteq> 0 \<Longrightarrow> r \<in> set as" "c \<noteq> 0 \<Longrightarrow> c \<in> set bs" using r c rs cs by simp_all
  then have out: "r \<noteq> 0 \<Longrightarrow> r \<notin> set bs" "c \<noteq> 0 \<Longrightarrow> c \<notin> set as" "r \<noteq> 0 \<Longrightarrow> r \<noteq> n" "c \<noteq> 0 \<Longrightarrow> c \<noteq> n"
    using assms(3,4) by auto
  define vn where "vn = (vma_at vmas n)\<lparr>vm_prev := r, vm_next := c\<rparr>"
  define v1 where "v1 = vmas(n \<mapsto> vn)"
  define v2 where "v2 = (if r \<noteq> 0 then v1(r \<mapsto> (vma_at v1 r)\<lparr>vm_next := n\<rparr>) else v1)"
  define v3 where "v3 = (if c \<noteq> 0 then v2(c \<mapsto> (vma_at v2 c)\<lparr>vm_prev := n\<rparr>) else v2)"
  have v3: "linked vmas n r c = v3" by (simp add: linked_def Let_def v1_def v2_def v3_def vn_def)
  have A1: "vma_seg v1 0 a as r c" "vma_seg v1 r c bs q 0"
    using assms(1,2,4) by (auto simp: v1_def intro!: vma_seg_frame)
  have A2: "vma_seg v2 0 (if r \<noteq> 0 then a else n) as r n"
  proof (cases "as = []")
    case True
    then show ?thesis using rs r by (simp add: v2_def)
  next
    case False
    then obtain ys where as: "as = ys @ [r]" using r by (metis append_butlast_last_id)
    then obtain w where "v1 r = Some w" using vma_seg_dom [OF A1(1), of r] by auto
    then show ?thesis using vma_seg_next [OF A1(1) [unfolded as], of w n] assms(3) as rs
      by (auto simp: v2_def vma_at_def)
  qed
  have B2: "vma_seg v2 r c bs q 0"
    using A1(2) out(1) by (cases "r = 0") (simp_all add: v2_def vma_seg_frame)
  have A3: "vma_seg v3 0 (if r \<noteq> 0 then a else n) as r n"
    using A2 out(2) by (cases "c = 0") (simp_all add: v3_def vma_seg_frame del: fun_upd_apply)
  have B3: "vma_seg v3 n c bs (if bs = [] then n else q) 0"
  proof (cases bs)
    case Nil
    then show ?thesis using cs by simp
  next
    case (Cons y ys)
    then have y: "c = y" using c by simp
    then obtain w where "v2 c = Some w" using vma_seg_dom [OF B2] Cons by auto
    then show ?thesis using vma_seg_prev [OF B2 [unfolded Cons], of w n] assms(3) Cons y cs
      by (simp add: v3_def vma_at_def)
  qed
  have "v3 n = Some vn"
    using out(3,4) by (auto simp: v3_def v2_def v1_def)
  moreover have "vm_prev vn = r" "vm_next vn = c" by (simp_all add: vn_def)
  ultimately have "vma_seg v3 r n (n # bs) (if bs = [] then n else q) 0" using B3 assms(5) by auto
  then show ?thesis unfolding vma_chain_def v3 vma_seg_append using A3 by blast
qed

lemma areas_ok_cong:
  assumes "\<And>x. x \<in> set xs \<Longrightarrow> same_area (vma_at vmas x) (vma_at vmas' x)"
  shows "areas_ok vmas' xs \<longleftrightarrow> areas_ok vmas xs"
proof -
  have "vm_start (vma_at vmas' x) = vm_start (vma_at vmas x) \<and> vm_end (vma_at vmas' x) = vm_end (vma_at vmas x)" if "x \<in> set xs" for x
    using assms [OF that] by (simp add: same_area_def)
  then show ?thesis by (simp add: areas_ok_def list_all_iff sorted_wrt_iff_nth_less)
qed

text \<open>It is enough to compare with the two neighbours.\<close>

lemma neighbours_decide:
  assumes "areas_ok vmas (as @ bs)" and "\<forall>x \<in> set as. vm_start (vma_at vmas x) < start"
    and "bs \<noteq> [] \<longrightarrow> start \<le> vm_start (vma_at vmas (hd bs))" and "start < end'"
  shows "(as \<noteq> [] \<and> start < vm_end (vma_at vmas (last as)) \<or> bs \<noteq> [] \<and> vm_start (vma_at vmas (hd bs)) < end') \<longleftrightarrow>
    (\<exists>x \<in> set (as @ bs). start < vm_end (vma_at vmas x) \<and> vm_start (vma_at vmas x) < end')"
proof
  assume "as \<noteq> [] \<and> start < vm_end (vma_at vmas (last as)) \<or> bs \<noteq> [] \<and> vm_start (vma_at vmas (hd bs)) < end'"
  then show "\<exists>x \<in> set (as @ bs). start < vm_end (vma_at vmas x) \<and> vm_start (vma_at vmas x) < end'"
  proof
    assume "as \<noteq> [] \<and> start < vm_end (vma_at vmas (last as))"
    then show ?thesis using assms(2,4) by (intro bexI [of _ "last as"]) (auto intro: order.strict_trans)
  next
    assume *: "bs \<noteq> [] \<and> vm_start (vma_at vmas (hd bs)) < end'"
    then have "vm_start (vma_at vmas (hd bs)) < vm_end (vma_at vmas (hd bs))"
      using assms(1) by (simp add: areas_ok_def list_all_iff)
    then show ?thesis using assms(3) * by (intro bexI [of _ "hd bs"]) auto
  qed
next
  assume "\<exists>x \<in> set (as @ bs). start < vm_end (vma_at vmas x) \<and> vm_start (vma_at vmas x) < end'"
  then obtain x where x: "x \<in> set as \<or> x \<in> set bs" "start < vm_end (vma_at vmas x)" "vm_start (vma_at vmas x) < end'" by auto
  have ne: "vm_start (vma_at vmas y) < vm_end (vma_at vmas y)" if "y \<in> set (as @ bs)" for y
    using assms(1) that by (auto simp: areas_ok_def list_all_iff)
  from x(1) show "as \<noteq> [] \<and> start < vm_end (vma_at vmas (last as)) \<or> bs \<noteq> [] \<and> vm_start (vma_at vmas (hd bs)) < end'"
  proof
    assume xa: "x \<in> set as"
    then obtain ys z where as: "as = ys @ [z]" by (cases as rule: rev_exhaust) auto
    have "x = z \<or> vm_end (vma_at vmas x) \<le> vm_start (vma_at vmas z)"
      using assms(1) xa as by (auto simp: areas_ok_def sorted_wrt_append)
    then show ?thesis using x(2) ne [of z] as by auto
  next
    assume xb: "x \<in> set bs"
    then obtain y ys where bs: "bs = y # ys" by (cases bs) auto
    have "x = y \<or> vm_end (vma_at vmas y) \<le> vm_start (vma_at vmas x)"
      using assms(1) xb bs by (auto simp: areas_ok_def sorted_wrt_append)
    then show ?thesis using x(3) ne [of y] bs by auto
  qed
qed

lemma areas_ok_insert:
  assumes "areas_ok vmas (as @ bs)" and "\<forall>x \<in> set as. vm_start (vma_at vmas x) < start"
    and "bs \<noteq> [] \<longrightarrow> start \<le> vm_start (vma_at vmas (hd bs))" and "start < end'"
    and "\<not> (\<exists>x \<in> set (as @ bs). start < vm_end (vma_at vmas x) \<and> vm_start (vma_at vmas x) < end')"
    and "n \<notin> set (as @ bs)" and "vm_start (vma_at vmas n) = start" and "vm_end (vma_at vmas n) = end'"
    and "page_aligned start" and "page_aligned end'"
  shows "areas_ok vmas (as @ n # bs)"
proof -
  have a: "vm_end (vma_at vmas x) \<le> start" if "x \<in> set as" for x
  proof (rule ccontr)
    assume "\<not> vm_end (vma_at vmas x) \<le> start"
    moreover have "vm_start (vma_at vmas x) < end'" using assms(2,4) that by (blast intro: order.strict_trans)
    ultimately show False using assms(5) that by auto
  qed
  have b: "end' \<le> vm_start (vma_at vmas x)" if xb: "x \<in> set bs" for x
  proof -
    obtain y ys where bs: "bs = y # ys" using xb by (cases bs) auto
    have ne: "vm_start (vma_at vmas z) < vm_end (vma_at vmas z)" if "z \<in> set bs" for z
      using assms(1) that by (auto simp: areas_ok_def list_all_iff)
    have "x = y \<or> vm_end (vma_at vmas y) \<le> vm_start (vma_at vmas x)"
      using assms(1) xb bs by (auto simp: areas_ok_def sorted_wrt_append)
    then have "start < vm_end (vma_at vmas x)" using assms(3) bs ne [OF xb] ne [of y] by auto
    then show ?thesis using assms(5) xb by (force simp: not_less)
  qed
  show ?thesis
    using assms(1,4,6-10) a b by (auto simp: areas_ok_def sorted_wrt_append)
qed

section \<open>\<open>do_mmap\<close>\<close>

definition mm_areas :: "kernel \<Rightarrow> u32 \<Rightarrow> u32 list \<Rightarrow> bool" where
  "mm_areas k mm xs \<longleftrightarrow> (\<exists>m. k_mms k mm = Some m \<and> vma_chain (k_vmas k) (mm_mmap m) xs) \<and> areas_ok (k_vmas k) xs"

definition clash :: "kernel \<Rightarrow> u32 list \<Rightarrow> u32 \<Rightarrow> u32 \<Rightarrow> bool" where
  "clash k xs start end' \<longleftrightarrow>
     list_ex (\<lambda>x. start < vm_end (vma_at (k_vmas k) x) \<and> vm_start (vma_at (k_vmas k) x) < end') xs"

lemma link_vma_linked:
  assumes "k_vmas k vma \<noteq> None" and "prev \<noteq> 0 \<Longrightarrow> k_vmas k prev \<noteq> None" and "iter \<noteq> 0 \<Longrightarrow> k_vmas k iter \<noteq> None"
    and "k_mms k mm = Some m"
  shows "link_vma mm vma prev iter k = Ret () (k\<lparr>k_vmas := linked (k_vmas k) vma prev iter,
      k_mms := if prev = 0 then (k_mms k)(mm \<mapsto> m\<lparr>mm_mmap := vma\<rparr>) else k_mms k\<rparr>)"
  using assms by (auto simp: link_vma_def with_vma_def with_mm_def put_defs linked_def Let_def vma_at_def)

lemma overlaps_neighbours:
  assumes "prev \<noteq> 0 \<Longrightarrow> k_vmas k prev \<noteq> None" and "iter \<noteq> 0 \<Longrightarrow> k_vmas k iter \<noteq> None"
  shows "overlaps prev iter start end' k = Ret (prev \<noteq> 0 \<and> start < vm_end (vma_at (k_vmas k) prev)
      \<or> iter \<noteq> 0 \<and> vm_start (vma_at (k_vmas k) iter) < end') k"
  using assms by (auto simp: overlaps_def with_vma_def vma_at_def)

text \<open>The state after a new area at \<open>r\<close> has been linked in between \<open>as\<close> and \<open>bs\<close>.\<close>

definition area_added :: "kernel \<Rightarrow> kernel \<Rightarrow> u32 \<Rightarrow> u32 list \<Rightarrow> u32 list \<Rightarrow> u32 \<Rightarrow> vm_area_t \<Rightarrow> bool" where
  "area_added k k' mm as bs r v \<longleftrightarrow> mm_areas k' mm (as @ r # bs) \<and> same_area v (vma_at (k_vmas k') r)
     \<and> (\<forall>x. x \<noteq> r \<longrightarrow> same_area (vma_at (k_vmas k) x) (vma_at (k_vmas k') x))
     \<and> dom (k_vmas k') = insert r (dom (k_vmas k)) \<and> (\<forall>x. map_option mm_pgd (k_mms k' x) = map_option mm_pgd (k_mms k x))
     \<and> (\<forall>x. x \<noteq> mm \<longrightarrow> k_mms k' x = k_mms k x) \<and> (\<forall>x. x \<notin> insert r (set (as @ bs)) \<longrightarrow> k_vmas k' x = k_vmas k x)
     \<and> k' = k\<lparr>k_heap := k_heap k', k_vmas := k_vmas k', k_mms := k_mms k'\<rparr>"

lemma insert_area:
  fixes h :: heap
  assumes "k_mms k a = Some mm" and "vma_chain (k_vmas k) (mm_mmap mm) xs" and ok: "areas_ok (k_vmas k) xs"
    and nd: "k_vmas k n = None" and "n \<noteq> 0" and se: "vm_start v < vm_end v"
    and al: "page_aligned (vm_start v)" "page_aligned (vm_end v)" and links: "vm_prev v = 0" "vm_next v = 0"
  defines "k1 \<equiv> put_vma n v (k\<lparr>k_heap := h\<rparr>)"
  shows "\<exists>as bs r c k'. xs = as @ bs \<and> vma_position (k_vmas k1) (vm_start v) 0 (mm_mmap mm) = Some (r, c)
    \<and> overlaps r c (vm_start v) (vm_end v) k1 = Ret (clash k xs (vm_start v) (vm_end v)) k1
    \<and> link_vma a n r c k1 = Ret () k' \<and> k_heap k' = h \<and> (mm_mmap mm = 0 \<longrightarrow> \<not> clash k xs (vm_start v) (vm_end v) \<and> k' = put_mm a (mm\<lparr>mm_mmap := n\<rparr>) k1)
    \<and> (\<not> clash k xs (vm_start v) (vm_end v) \<longrightarrow> area_added k k' a as bs n v)"
proof -
  let ?s = "vm_start v" and ?e = "vm_end v"
  have v1: "k_vmas k1 = (k_vmas k)(n \<mapsto> v)" "k_mms k1 = k_mms k" by (simp_all add: k1_def put_vma_def)
  obtain q where seg: "vma_seg (k_vmas k) 0 (mm_mmap mm) xs q 0" using assms(2) by (auto simp: vma_chain_def)
  have nx: "n \<notin> set xs" using vma_seg_dom [OF seg, of n] nd by auto
  have seg1: "vma_seg (k_vmas k1) 0 (mm_mmap mm) xs q 0" unfolding v1 using vma_seg_frame [OF seg nx] .
  have at1: "vma_at (k_vmas k1) x = vma_at (k_vmas k) x" if "x \<noteq> n" for x using that by (simp add: v1 vma_at_def)
  have same1: "same_area (vma_at (k_vmas k) x) (vma_at (k_vmas k1) x)" if "x \<in> set xs" for x
    using that at1 [of x] nx by (metis same_area_refl)
  have ok1: "areas_ok (k_vmas k1) xs" using ok areas_ok_cong [of xs "k_vmas k" "k_vmas k1"] same1 by blast
  from vma_position_split [OF seg1, of ?s] obtain as bs r c where sp: "xs = as @ bs"
    "vma_position (k_vmas k1) ?s 0 (mm_mmap mm) = Some (r, c)" "vma_seg (k_vmas k1) 0 (mm_mmap mm) as r c"
    "vma_seg (k_vmas k1) r c bs q 0" "\<forall>x \<in> set as. vm_start (vma_at (k_vmas k1) x) < ?s"
    "bs \<noteq> [] \<longrightarrow> ?s \<le> vm_start (vma_at (k_vmas k1) (hd bs))" by blast
  have r: "r = (if as = [] then 0 else last as)" and c: "c = (if bs = [] then 0 else hd bs)"
    using vma_seg_last [OF sp(3)] vma_seg_hd [OF sp(4)] by simp_all
  have nz: "0 \<notin> set as" "0 \<notin> set bs" using vma_seg_nonzero sp(3,4) by blast+
  have rs: "r \<noteq> 0 \<longleftrightarrow> as \<noteq> []" and cs: "c \<noteq> 0 \<longleftrightarrow> bs \<noteq> []" using r c nz by (metis last_in_set, metis hd_in_set)
  have dom: "r \<noteq> 0 \<Longrightarrow> k_vmas k1 r \<noteq> None" "c \<noteq> 0 \<Longrightarrow> k_vmas k1 c \<noteq> None"
    using vma_seg_dom [OF sp(3), of r] vma_seg_dom [OF sp(4), of c] r c rs cs by auto
  define k' where "k' = k1\<lparr>k_vmas := linked (k_vmas k1) n r c,
      k_mms := if r = 0 then (k_mms k1)(a \<mapsto> mm\<lparr>mm_mmap := n\<rparr>) else k_mms k1\<rparr>"
  have cl: "clash k xs ?s ?e \<longleftrightarrow> (\<exists>x \<in> set (as @ bs). ?s < vm_end (vma_at (k_vmas k1) x) \<and> vm_start (vma_at (k_vmas k1) x) < ?e)"
    using at1 nx sp(1) by (auto simp: clash_def list_ex_iff) (metis Un_iff)+
  have "overlaps r c ?s ?e k1 = Ret (r \<noteq> 0 \<and> ?s < vm_end (vma_at (k_vmas k1) r)
      \<or> c \<noteq> 0 \<and> vm_start (vma_at (k_vmas k1) c) < ?e) k1"
    by (rule overlaps_neighbours) (use dom in blast)+
  moreover have "(r \<noteq> 0 \<and> ?s < vm_end (vma_at (k_vmas k1) r) \<or> c \<noteq> 0 \<and> vm_start (vma_at (k_vmas k1) c) < ?e)
      = clash k xs ?s ?e"
    unfolding cl neighbours_decide [OF ok1 [unfolded sp(1)] sp(5,6) se, symmetric] rs cs using r c by auto
  ultimately have "overlaps r c ?s ?e k1 = Ret (clash k xs ?s ?e) k1" by simp
  moreover have "link_vma a n r c k1 = Ret () k'"
    using link_vma_linked [of k1 n r c a mm] dom v1 assms(1) by (simp add: k'_def)
  moreover have "area_added k k' a as bs n v" if nc: "\<not> clash k xs ?s ?e"
  proof -
    have dist: "distinct (as @ bs)" "n \<notin> set (as @ bs)" using ok nx sp(1) by (simp_all add: areas_ok_def)
    have "vma_chain (linked (k_vmas k1) n r c) (if r \<noteq> 0 then mm_mmap mm else n) (as @ n # bs)"
      using sp(3,4) dist \<open>n \<noteq> 0\<close> v1 by (intro linked_chain) auto
    moreover have "areas_ok (k_vmas k1) (as @ n # bs)"
      using areas_ok_insert [OF ok1 [unfolded sp(1)] sp(5,6) se] nc cl dist(2) al by (simp add: v1 vma_at_def)
    then have "areas_ok (k_vmas k') (as @ n # bs)"
      using areas_ok_cong [of "as @ n # bs" "k_vmas k1" "k_vmas k'"] linked_same_area by (auto simp: k'_def)
    moreover have "same_area v (vma_at (k_vmas k') n)" using linked_same_area [of "k_vmas k1" n n r c] by (simp add: k'_def v1 vma_at_def)
    moreover have "same_area (vma_at (k_vmas k) x) (vma_at (k_vmas k') x)" if "x \<noteq> n" for x
      using linked_same_area [of "k_vmas k1" x n r c] at1 [OF that] by (simp add: k'_def)
    moreover have "dom (k_vmas k') = insert n (dom (k_vmas k))"
    proof -
      have "k_vmas k1 x \<noteq> None \<longleftrightarrow> k_vmas k' x \<noteq> None" for x
        using linked_dom [of "k_vmas k1" n r c x] dom by (simp add: k'_def v1)
      then have "dom (k_vmas k') = dom (k_vmas k1)" by blast
      then show ?thesis by (simp add: v1)
    qed
    moreover have lk: "k_vmas k' = linked (k_vmas k1) n r c" by (simp add: k'_def)
    moreover have "k_vmas k' x = k_vmas k x" if "x \<notin> insert n (set (as @ bs))" for x
    proof -
      have "x \<noteq> n" "r \<noteq> 0 \<Longrightarrow> x \<noteq> r" "c \<noteq> 0 \<Longrightarrow> x \<noteq> c" using that r c rs cs by auto
      then show ?thesis unfolding lk by (auto simp: linked_def Let_def v1)
    qed
    moreover have mms: "k_mms k' a = Some (if r = 0 then mm\<lparr>mm_mmap := n\<rparr> else mm)" "x \<noteq> a \<Longrightarrow> k_mms k' x = k_mms k x" for x
      using assms(1) by (simp_all add: k'_def v1)
    moreover have "map_option mm_pgd (k_mms k' x) = map_option mm_pgd (k_mms k x)" for x
      using mms assms(1) by (cases "x = a") simp_all
    moreover have "k' = k\<lparr>k_heap := k_heap k', k_vmas := k_vmas k', k_mms := k_mms k'\<rparr>"
      by (simp add: k'_def k1_def put_vma_def)
    ultimately show ?thesis unfolding area_added_def mm_areas_def by (cases "r = 0") simp_all
  qed
  moreover have "\<not> clash k xs ?s ?e \<and> k' = put_mm a (mm\<lparr>mm_mmap := n\<rparr>) k1" if "mm_mmap mm = 0"
  proof -
    have "xs = []" using seg that by (cases xs) auto
    then have e: "as = []" "bs = []" "r = 0" "c = 0" using sp(1) rs cs by auto
    have "v\<lparr>vm_prev := 0, vm_next := 0\<rparr> = v" using links by (cases v) simp
    then have "linked (k_vmas k1) n r c = k_vmas k1" by (simp add: e linked_def vma_at_def v1)
    then show ?thesis using \<open>xs = []\<close> by (simp add: clash_def k'_def e put_mm_def)
  qed
  moreover have "k_heap k' = h" by (simp add: k'_def k1_def put_vma_def)
  ultimately show ?thesis using sp(1,2) by blast
qed

lemma do_mmap_cases:
  assumes "objects_ok L base k" and "k_tasks k (current_task k) = Some t" and "mm_areas k (t_mm t) xs"
    and "unat addr + unat len + 4095 < 4294967296" and "0 < len"
  defines "start \<equiv> align_down addr" and "end' \<equiv> align_up (addr + len)"
  shows "\<exists>r k'. do_mmap addr len file offset k = Ret r k' \<and>
    (if r = 0 then grown L base {} k k' \<and> (file \<noteq> 0 \<and> offset < addr - start \<or> clash k xs start end' \<or> new SIZEOF_VM_AREA_T k = Ret 0 k)
     else \<exists>as bs m. xs = as @ bs \<and> \<not> clash k xs start end' \<and> area_added k k' (t_mm t) as bs r
         \<lparr>vm_start = start, vm_end = end', vm_offset = (if file \<noteq> 0 then offset - (addr - start) else 0), vm_mm = t_mm t,
           vm_file = file, vm_prev = 0, vm_next = 0\<rparr>
       \<and> r \<notin> objects k \<and> heap_ok base (k_heap k') \<and> SIZEOF_VM_AREA_T \<le> m
       \<and> allocated (k_heap k') = insert (r, m) (allocated (k_heap k)) \<and> r \<notin> fst ` allocated (k_heap k))"
proof -
  obtain mm where mm: "k_mms k (t_mm t) = Some mm" "vma_chain (k_vmas k) (mm_mmap mm) xs" and ok: "areas_ok (k_vmas k) xs"
    using assms(3) by (auto simp: mm_areas_def)
  note unf = do_mmap_def with_task_def get_current_task_def with_mm_def
  note g0 = grown_refl [OF assms(1)]
  have se: "start < end'"
  proof -
    have l: "0 < unat len" using assms(5) by (simp add: word_less_nat_alt)
    have "unat (addr + len) = unat addr + unat len" using assms(4) by (intro unat_add_u32_nowrap) simp
    then have "unat end' = (unat addr + unat len + 4095) div 4096 * 4096"
      using assms(4) by (simp add: end'_def unat_align_up)
    moreover have "unat addr div 4096 * 4096 < (unat addr + unat len + 4095) div 4096 * 4096" using l by simp
    ultimately show ?thesis by (simp add: word_less_nat_alt start_def unat_align_down)
  qed
  show ?thesis
  proof (cases "file \<noteq> 0 \<and> offset < addr - start")
    case True
    then show ?thesis using assms(2) mm g0 by (simp add: unf Let_def start_def)
  next
    case off: False
    from assms(1) show ?thesis
    proof (cases rule: new_cases [where sz = SIZEOF_VM_AREA_T])
      case null
      then show ?thesis using assms(2) mm g0 off by (simp add: unf Let_def start_def)
    next
      case (fresh n h m)
      define v where "v = \<lparr>vm_start = start, vm_end = end', vm_offset = (if file \<noteq> 0 then offset - (addr - start) else 0),
        vm_mm = t_mm t, vm_file = file, vm_prev = 0, vm_next = 0\<rparr>"
      define k1 where "k1 = put_vma n v (k\<lparr>k_heap := h\<rparr>)"
      have g1: "grown L base {(n, m)} k k1" using fresh objects_okD [OF assms(1)] by (auto simp: k1_def put_vma_def grown_def)
      have nd: "k_vmas k n = None" using fresh(7) by (auto simp: objects_def)
      have al: "page_aligned start" "page_aligned end'" by (simp_all add: start_def end'_def)
      have vs: "vm_start v = start" "vm_end v = end'" "vm_prev v = 0" "vm_next v = 0" by (simp_all add: v_def)
      from insert_area [OF mm ok nd fresh(2), of v h, folded k1_def, unfolded vs(1,2), OF se al vs(3,4)]
      obtain as bs r c k' where ins: "xs = as @ bs" "vma_position (k_vmas k1) start 0 (mm_mmap mm) = Some (r, c)"
        "overlaps r c start end' k1 = Ret (clash k xs start end') k1" "link_vma (t_mm t) n r c k1 = Ret () k'" "k_heap k' = h"
        "mm_mmap mm = 0 \<longrightarrow> \<not> clash k xs start end' \<and> k' = put_mm (t_mm t) (mm\<lparr>mm_mmap := n\<rparr>) k1"
        "\<not> clash k xs start end' \<longrightarrow> area_added k k' (t_mm t) as bs n v" by blast
      have r: "do_mmap addr len file offset k =
          (if mm_mmap mm = 0 then Ret n (put_mm (t_mm t) (mm\<lparr>mm_mmap := n\<rparr>) k1)
           else if clash k xs start end' then and_then (dispose n k1) (\<lambda>_. Ret 0) else Ret n k')"
        using assms(2) mm off fresh(1,2) ins(2-4)
        by (simp add: unf Let_def start_def [symmetric] end'_def [symmetric] k1_def [symmetric] v_def [symmetric], blast)
      show ?thesis
      proof (cases "clash k xs start end'")
        case True
        from grown_dispose [OF g1, of n m] obtain k2 where "dispose n k1 = Ret () k2" "grown L base {} k k2" by auto
        then show ?thesis using r True ins(6) by simp
      next
        case False
        then have res: "do_mmap addr len file offset k = Ret n k'" using r ins(6) by simp
        have sz: "SIZEOF_VM_AREA_T \<le> m" using fresh(3) by (auto simp: heap_align_up_def intro: order_trans [rotated])
        show ?thesis unfolding v_def [symmetric]
          by (rule exI [of _ n], rule exI [of _ k'], rule conjI, rule res, subst if_not_P [OF fresh(2)],
              rule exI [of _ as], rule exI [of _ bs], rule exI [of _ m])
            (use False ins(1,5,7) fresh(4-7) sz in simp)
      qed
    qed
  qed
qed

section \<open>Properties\<close>

text \<open>
  C15. Adding a memory area: on an address space whose areas are ordered and disjoint, a request
  that does not wrap around the address space either returns null and leaves everything as it
  was, for one of three reasons: the file offset is smaller than the distance to the page start, an
  existing area overlaps, or the heap is full. Or it returns a new area for the whole pages around
  the request, linked in at its place, with all other areas and the order kept; so the areas
  of an address space stay ordered, page-aligned and disjoint.
\<close>

theorem do_mmap_correct:
  assumes "objects_ok L base k" and "k_tasks k (current_task k) = Some t" and "mm_areas k (t_mm t) xs"
    and "unat addr + unat len + 4095 < 4294967296" and "0 < len"
  defines "start \<equiv> align_down addr" and "end' \<equiv> align_up (addr + len)"
  shows "\<exists>r k'. do_mmap addr len file offset k = Ret r k' \<and>
    (if r = 0 then grown L base {} k k' \<and> (file \<noteq> 0 \<and> offset < addr - start \<or> clash k xs start end' \<or> new SIZEOF_VM_AREA_T k = Ret 0 k)
     else \<exists>as bs m. xs = as @ bs \<and> \<not> clash k xs start end' \<and> area_added k k' (t_mm t) as bs r
         \<lparr>vm_start = start, vm_end = end', vm_offset = (if file \<noteq> 0 then offset - (addr - start) else 0), vm_mm = t_mm t,
           vm_file = file, vm_prev = 0, vm_next = 0\<rparr>
       \<and> r \<notin> objects k \<and> heap_ok base (k_heap k') \<and> SIZEOF_VM_AREA_T \<le> m
       \<and> allocated (k_heap k') = insert (r, m) (allocated (k_heap k)) \<and> r \<notin> fst ` allocated (k_heap k))"
  unfolding start_def end'_def using assms(1-5) by (rule do_mmap_cases)

text \<open>An address space with no area yet, for the example.\<close>

definition mmap_sample :: kernel where
  "mmap_sample = sample_kernel\<lparr>k_tasks := [0xc0180000 \<mapsto> zero_task\<lparr>t_mm := 0xc020000c\<rparr>],
     k_mms := [0xc020000c \<mapsto> \<lparr>mm_pgd = 0xc0100000, mm_mmap = 0\<rparr>], current_task := 0xc0180000, k_heap := example_heap\<rparr>"

lemma mmap_sample_ok:
  "objects_ok sample_symbols 0xc0200000 mmap_sample" "k_tasks mmap_sample (current_task mmap_sample) = Some (zero_task\<lparr>t_mm := 0xc020000c\<rparr>)"
  "mm_areas mmap_sample 0xc020000c []"
proof -
  have ok: "heap_ok 0xc0200000 example_heap" using kmalloc_returns [OF example_init(1), of 10] example_kmalloc by auto
  have al: "0xc020000c \<in> fst ` allocated example_heap"
    using kmalloc_region [OF example_init(1) example_kmalloc] by force
  show "objects_ok sample_symbols 0xc0200000 mmap_sample"
    using ok al by (simp add: objects_ok_def objects_def mmap_sample_def sample_kernel_def boot_kernel_def sample_symbols_def)
  show "k_tasks mmap_sample (current_task mmap_sample) = Some (zero_task\<lparr>t_mm := 0xc020000c\<rparr>)" "mm_areas mmap_sample 0xc020000c []"
    by (simp_all add: mmap_sample_def mm_areas_def vma_chain_def areas_ok_def)
qed

theorem do_mmap_correct_witness:
  "\<exists>r k'. do_mmap 0x8048123 0x2000 0 0 mmap_sample = Ret r k'"
  using do_mmap_correct [OF mmap_sample_ok(1,2), of "[]" "0x8048123" "0x2000" 0 0] mmap_sample_ok(3) by auto

text \<open>
  The ends are not checked for wrap-around: a request that ends above the last page is
  accepted, on an address space without areas, as an area that ends at address 0 and
  contains no address.
\<close>

theorem do_mmap_wraps:
  assumes "objects_ok L base k" and "k_tasks k (current_task k) = Some t" and "k_mms k (t_mm t) = Some m" and "mm_mmap m = 0"
    and "0xfffff000 < unat addr + unat len" and "unat addr + unat len < 2 ^ 32"
  shows "new SIZEOF_VM_AREA_T k = Ret 0 k \<or> (\<exists>r k' v. do_mmap addr len 0 0 k = Ret r k' \<and> r \<noteq> 0
      \<and> k_vmas k' r = Some v \<and> vm_start v = align_down addr \<and> vm_end v = 0)"
  using assms(1)
proof (cases rule: new_cases [where sz = SIZEOF_VM_AREA_T])
  case (fresh p h n)
  have "unat (addr + len) = unat addr + unat len" using assms(6) by (intro unat_add_u32_nowrap) simp
  then have "unat (addr + len + 4095) < 4096"
    using assms(5,6) by (simp add: unat_word_ariths(1) [of "addr + len"] le_mod_geq)
  then have "align_up (addr + len) = 0" by (simp add: align_up_page low_bits_page_of)
  then show ?thesis using fresh(1,2) assms(2-4)
    by (auto simp: do_mmap_def with_task_def get_current_task_def with_mm_def Let_def put_defs)
qed simp

theorem do_mmap_wraps_witness:
  "new SIZEOF_VM_AREA_T mmap_sample = Ret 0 mmap_sample \<or>
   (\<exists>r k' v. do_mmap 0xffffe000 0x1fff 0 0 mmap_sample = Ret r k' \<and> k_vmas k' r = Some v \<and> vm_end v = 0)"
  using do_mmap_wraps [OF mmap_sample_ok(1,2), of "\<lparr>mm_pgd = 0xc0100000, mm_mmap = 0\<rparr>" "0xffffe000" "0x1fff"]
  by (auto simp: mmap_sample_def)

end
