(* ===== verification/Sched.thy ===== *)
theory Sched
  imports Mmap
begin

text \<open>
  The scheduler, \<^verbatim>\<open>kernel/sched.c\<close>. Tasks form a doubly linked ring whose last member is
  \<open>task_ptr\<close>. A call that switches to another task does not return to its caller until the caller is
  switched to again; it results in \<open>Switched\<close>, and what the caller does when it is resumed is
  the definition \<open>resume_task\<close>.
\<close>

section \<open>Model\<close>

text \<open>\<open>None\<close> is a link to no task, or a ring that does not lead back to its start.\<close>

partial_function (option) next_loop :: "(u32 \<rightharpoonup> task_t) \<Rightarrow> u32 \<Rightarrow> u32 \<Rightarrow> u32 \<Rightarrow> u32 option" where
  "next_loop tasks idle start iter =
     (case tasks iter of
        None \<Rightarrow> None
      | Some t \<Rightarrow>
          if (t_state t = TASK_READY \<or> t_state t = TASK_RUNNING) \<and> iter \<noteq> idle then Some iter
          else if t_next t \<noteq> start then next_loop tasks idle start (t_next t)
          else Some idle)"

definition init_scheduler :: "u8 op" where
  "init_scheduler k =
     (let k = on_machine (print ''Initializing scheduler ... '') k;
          k = k\<lparr>task_ptr := 0, current_task := 0\<rparr>;
          k = on_machine (println ''Done'') k
      in Ret 1 k)"

definition next_task :: "symbols \<Rightarrow> u32 op" where
  "next_task L k =
     (if task_ptr k = 0 then Ret 0 k
      else let current = get_current_task k in
        with_task (if current \<noteq> 0 then current else task_ptr k) (\<lambda>t k.
          case next_loop (k_tasks k) (sym_idle_task L) (t_next t) (t_next t) of
            None \<Rightarrow> Stop Diverges k
          | Some next \<Rightarrow> Ret next k) k)"

definition admit :: "u32 \<Rightarrow> u8 op" where
  "admit task k =
     (if get_current_task k = 0
      then and_then (set_task task (\<lambda>t. t\<lparr>t_state := TASK_RUNNING\<rparr>) (set_current_task task k)) (\<lambda>_. Ret 1)
      else and_then (set_task task (\<lambda>t. t\<lparr>t_state := TASK_READY\<rparr>) k) (\<lambda>_. Ret 1))"

definition enqueue_task :: "u32 \<Rightarrow> u8 op" where
  "enqueue_task task k =
     (if task = 0 then Ret 0 k
      else with_task task (\<lambda>t k.
        if t_prev t \<noteq> 0 \<or> t_next t \<noteq> 0 \<or> t_state t \<noteq> TASK_NEW then Ret 0 k
        else if task_ptr k = 0
        then and_then (set_task task (\<lambda>t. t\<lparr>t_prev := task, t_next := task\<rparr>) (k\<lparr>task_ptr := task\<rparr>)) (\<lambda>_. admit task)
        else with_task (task_ptr k) (\<lambda>p k.
          let head = t_next p in
          and_then (set_task task (\<lambda>t. t\<lparr>t_prev := task_ptr k, t_next := head\<rparr>) k) (\<lambda>_ k.
          and_then (set_task head (\<lambda>t. t\<lparr>t_prev := task\<rparr>) k) (\<lambda>_ k.
          and_then (set_task (task_ptr k) (\<lambda>t. t\<lparr>t_next := task\<rparr>) k) (\<lambda>_ k.
            admit task (k\<lparr>task_ptr := task\<rparr>))))) k) k)"

definition dequeue_task :: "u32 \<Rightarrow> u8 op" where
  "dequeue_task task k =
     (if task = 0 then Ret 0 k
      else with_task task (\<lambda>t k.
        if t_prev t = 0 \<or> t_next t = 0 then Ret 0 k
        else and_then
          (if t_next t = task
           then Ret () (let k = k\<lparr>task_ptr := 0\<rparr> in if get_current_task k = task then set_current_task 0 k else k)
           else and_then (set_task (t_prev t) (\<lambda>p. p\<lparr>t_next := t_next t\<rparr>) k) (\<lambda>_.
             with_task task (\<lambda>t k. and_then (set_task (t_next t) (\<lambda>n. n\<lparr>t_prev := t_prev t\<rparr>) k) (\<lambda>_ k.
               let k = (if task_ptr k = task then k\<lparr>task_ptr := t_prev t\<rparr> else k);
                   k = (if get_current_task k = task then set_current_task (t_next t) k else k)
               in Ret () k))))
          (\<lambda>_ k. and_then (set_task task (\<lambda>t. t\<lparr>t_prev := 0, t_next := 0\<rparr>) k) (\<lambda>_. Ret 1))) k)"

definition push_word :: "u32 \<Rightarrow> kernel \<Rightarrow> kernel" where
  "push_word v k =
     (let sp = r_esp (k_cpu k) - 4
      in k\<lparr>k_cpu := (k_cpu k)\<lparr>r_esp := sp\<rparr>, k_paging := (k_paging k)\<lparr>kmem := (kmem (k_paging k))(sp := v)\<rparr>\<rparr>)"

definition pop_word :: "kernel \<Rightarrow> u32 \<times> kernel" where
  "pop_word k = (kmem (k_paging k) (r_esp (k_cpu k)), k\<lparr>k_cpu := (k_cpu k)\<lparr>r_esp := r_esp (k_cpu k) + 4\<rparr>\<rparr>)"

text \<open>The return address and the two arguments are on the stack when \<open>switch_to\<close> is entered.\<close>

definition switch_to :: "u32 \<Rightarrow> u32 \<Rightarrow> unit op" where
  "switch_to prev next k =
     (let c = k_cpu k;
          k = push_word (r_edi c) (push_word (r_esi c) (push_word (r_ebx c) (push_word (r_ebp c) k)))
      in and_then (set_task prev (\<lambda>t. t\<lparr>t_kernel_esp := r_esp (k_cpu k)\<rparr>) k) (\<lambda>_.
         with_task next (\<lambda>t k.
           let k = k\<lparr>k_cpu := (k_cpu k)\<lparr>r_esp := t_kernel_esp t\<rparr>\<rparr>;
               (di, k) = pop_word k; (si, k) = pop_word k; (bx, k) = pop_word k; (bp, k) = pop_word k;
               (ip, k) = pop_word k
           in Ret () (k\<lparr>k_cpu := (k_cpu k)\<lparr>r_edi := di, r_esi := si, r_ebx := bx, r_ebp := bp, r_eip := ip\<rparr>\<rparr>))))"

definition reap_dead_task :: "u32 \<Rightarrow> unit op" where
  "reap_dead_task prev k =
     (if dead_task k = 0 \<or> dead_task k = prev then Ret () k
      else let dead = dead_task k in
        and_then (dequeue_task dead k) (\<lambda>_.
        with_task dead (\<lambda>t k.
          and_then (dispose (t_kernel_stack_base t) k) (\<lambda>_ k.
          and_then (dispose dead k) (\<lambda>_ k. Ret () (k\<lparr>dead_task := 0\<rparr>))))))"

datatype switched = Returned | Switched

definition context_switch :: "symbols \<Rightarrow> u32 \<Rightarrow> u32 \<Rightarrow> switched op" where
  "context_switch L prev next k =
     and_then (reap_dead_task prev k) (\<lambda>_ k.
       if prev = 0 \<or> next = 0 \<or> prev = next then Ret Returned k
       else and_then (set_task next (\<lambda>t. t\<lparr>t_state := TASK_RUNNING\<rparr>) (set_current_task next k)) (\<lambda>_.
         with_task next (\<lambda>t k.
           let k = k\<lparr>k_tss := tss_set_kernel_stack (t_kernel_stack_top t) (k_tss k)\<rparr>;
               k = (if get_cr3 (k_machine k) \<noteq> t_cr3 t then on_machine (set_cr3 (t_cr3 t)) k else k);
               k = push_word (sym_switch_return L) (push_word prev (push_word next k))
           in and_then (switch_to prev next k) (\<lambda>_. Ret Switched))))"

text \<open>What \<open>block_task\<close> and \<open>schedule\<close> do with their task when it has been switched back to.\<close>

definition resume_task :: "u32 \<Rightarrow> switched op" where
  "resume_task task k = and_then (set_task task (\<lambda>t. t\<lparr>t_state := TASK_RUNNING\<rparr>) k) (\<lambda>_. Ret Returned)"

definition after_switch :: "u32 \<Rightarrow> switched \<Rightarrow> switched op" where
  "after_switch task r k = (case r of Switched \<Rightarrow> Ret Switched k | Returned \<Rightarrow> resume_task task k)"

definition block_task :: "symbols \<Rightarrow> u32 \<Rightarrow> switched op" where
  "block_task L task k =
     (if task = 0 \<or> task = sym_idle_task L then Ret Returned k
      else with_task task (\<lambda>t k.
        if t_state t \<noteq> TASK_READY \<and> t_state t \<noteq> TASK_RUNNING then Ret Returned k
        else and_then (set_task task (\<lambda>t. t\<lparr>t_state := TASK_BLOCKED\<rparr>) k) (\<lambda>_ k.
          let current = get_current_task k in
          if task \<noteq> current then Ret Returned k
          else and_then (next_task L k) (\<lambda>next k.
            if next = 0 \<or> next = task then spin_forever k
            else and_then (context_switch L task next k) (after_switch task)))) k)"

definition wake_task :: "u32 \<Rightarrow> unit op" where
  "wake_task task k =
     (if task = 0 then Ret () k
      else with_task task (\<lambda>t k.
        if t_state t \<noteq> TASK_BLOCKED then Ret () k
        else set_task task (\<lambda>t. t\<lparr>t_state := TASK_READY\<rparr>) k) k)"

definition schedule :: "symbols \<Rightarrow> switched op" where
  "schedule L k =
     (let current = get_current_task k in
      if current = 0 then Ret Returned k
      else and_then (reap_dead_task current k) (\<lambda>_ k.
        and_then (next_task L k) (\<lambda>next k.
          if next = 0 \<or> next = current then Ret Returned k
          else and_then (set_task current (\<lambda>t. t\<lparr>t_state := TASK_READY\<rparr>) k) (\<lambda>_ k.
            and_then (context_switch L current next k) (after_switch current)))))"

definition close_fd :: "u32 \<Rightarrow> nat \<Rightarrow> unit op" where
  "close_fd task fd =
     with_task task (\<lambda>t k.
       if t_file t ! fd = 0 then Ret () k
       else and_then (close_file (t_file t ! fd) k) (\<lambda>_ k.
         and_then (dispose (t_file t ! fd) k) (\<lambda>_. set_task task (\<lambda>t. t\<lparr>t_file := (t_file t)[fd := 0]\<rparr>))))"

definition exit_task :: "symbols \<Rightarrow> u32 \<Rightarrow> switched op" where
  "exit_task L exit_code k =
     (let k = on_machine (\<lambda>m. snd (irq_save m)) k;
          task = get_current_task k
      in and_then (set_task task (\<lambda>t. t\<lparr>t_exit_code := exit_code, t_state := TASK_ZOMBIE\<rparr>) k) (\<lambda>_.
         with_task task (\<lambda>t k.
         let k = on_machine (print ''[Done] '') k;
             k = on_machine (\<lambda>m. snd (console_put_dec32 (t_pid t) m)) k;
             k = on_machine (\<lambda>m. snd (console_putc 0x0a m)) k
         in and_then (each (close_fd task) [0..<PROCESS_FDS] k) (\<lambda>_.
            with_task (sym_idle_task L) (\<lambda>idle k.
            and_then (set_task task (\<lambda>t. t\<lparr>t_cr3 := t_cr3 idle\<rparr>) k) (\<lambda>_ k.
            with_task task (\<lambda>t k.
            let k = on_machine (set_cr3 (t_cr3 t)) k
            in and_then (release_mm L (t_mm t) k) (\<lambda>_ k.
               and_then (set_task task (\<lambda>t. t\<lparr>t_mm := 0\<rparr>) k) (\<lambda>_ k.
               let k = k\<lparr>dead_task := task\<rparr>
               in and_then (next_task L k) (\<lambda>next k.
                  and_then (context_switch L task next k) (\<lambda>r k.
                    case r of Switched \<Rightarrow> Ret Switched k | Returned \<Rightarrow> spin_forever k))))) k))))))"

definition init_idle_task :: "symbols \<Rightarrow> u8 op" where
  "init_idle_task L k =
     (let k = on_machine (print ''Initializing idle task ... '') k;
          idle = sym_idle_task L;
          top = sym_idle_task_stack L + PROCESS_KERNEL_STACK_SIZE;
          (stack, mem) = fold push [sym_idle_task_entry L, 0, 0, 0, 0] (top, kmem (k_paging k));
          t = (case k_tasks k idle of Some t \<Rightarrow> t | None \<Rightarrow> zero_task);
          t = t\<lparr>t_pid := 0, t_parent := 0, t_cr3 := get_cr3 (k_machine k), t_kernel_stack_base := sym_idle_task_stack L,
            t_kernel_stack_top := top, t_kernel_esp := stack, t_prev := idle, t_next := idle, t_state := TASK_READY\<rparr>;
          k = put_task idle t (k\<lparr>k_paging := (k_paging k)\<lparr>kmem := mem\<rparr>, task_ptr := idle\<rparr>);
          k = on_machine (println ''Done'') k
      in Ret 1 k)"

text \<open>What the processor has loaded when \<open>enter_user_task\<close> has executed \<^verbatim>\<open>iret\<close>.\<close>

record user_context =
  u_eip :: u32
  u_cs :: u16
  u_eflags :: u32
  u_esp :: u32
  u_ss :: u16
  u_data_segments :: u16

definition enter_user_task :: "kernel \<Rightarrow> user_context" where
  "enter_user_task k =
     (let sp = r_esp (k_cpu k); mem = kmem (k_paging k); eax = mem (sp + 20); sp = sp + 4
      in \<lparr>u_eip = mem sp, u_cs = ucast (mem (sp + 4)), u_eflags = mem (sp + 8), u_esp = mem (sp + 12),
          u_ss = ucast (mem (sp + 16)), u_data_segments = ucast eax\<rparr>)"

section \<open>Rings\<close>

fun adj :: "'a list \<Rightarrow> ('a \<times> 'a) set" where
  "adj (x # y # ys) = insert (x, y) (adj (y # ys))"
| "adj [x] = {}"
| "adj [] = {}"

definition edges :: "'a list \<Rightarrow> ('a \<times> 'a) set" where
  "edges ts = insert (last ts, hd ts) (adj ts)"

lemma adj_append: "adj (as @ bs) = adj as \<union> adj bs \<union> (if as \<noteq> [] \<and> bs \<noteq> [] then {(last as, hd bs)} else {})"
proof (induction as rule: adj.induct)
  case (2 x)
  show ?case by (cases bs) auto
qed auto

lemma adj_distinct: "distinct ts \<Longrightarrow> (x, y) \<in> adj ts \<Longrightarrow> x \<in> set ts \<and> y \<in> set ts \<and> x \<noteq> last ts \<and> y \<noteq> hd ts"
  by (induction ts rule: adj.induct) (auto simp: last_in_set split: if_splits)

lemma edges_rotate1 [simp]: "edges (rotate1 ts) = edges ts"
proof (cases ts)
  case (Cons x xs)
  then show ?thesis
    using adj_append [of xs "[x]"] adj_append [of "[x]" xs] by (cases "xs = []") (auto simp: edges_def)
qed simp

lemma edges_rotate [simp]: "edges (rotate n ts) = edges ts"
  by (induction n) simp_all

text \<open>The links of the tasks \<open>ts\<close> form a ring in this order.\<close>

definition ring :: "(u32 \<rightharpoonup> task_t) \<Rightarrow> u32 list \<Rightarrow> bool" where
  "ring tasks ts \<longleftrightarrow> ts \<noteq> [] \<and> distinct ts \<and> 0 \<notin> set ts \<and> set ts \<subseteq> dom tasks
     \<and> (\<forall>(x, y) \<in> edges ts. t_next (the (tasks x)) = y \<and> t_prev (the (tasks y)) = x)"

lemma ring_rotate [simp]: "ring tasks (rotate n ts) \<longleftrightarrow> ring tasks ts"
  by (simp add: ring_def)

lemma ring_links:
  assumes "ring tasks (as @ x # bs)"
  shows "t_next (the (tasks x)) = hd (bs @ as @ [x])" "t_prev (the (tasks x)) = last (x # bs @ as)"
proof -
  have "rotate (length as) (as @ x # bs) = x # bs @ as" by (simp add: rotate_append)
  then have r: "ring tasks (x # bs @ as)" using ring_rotate [of tasks "length as" "as @ x # bs"] assms by simp
  have "(last (x # bs @ as), x) \<in> edges (x # bs @ as)" by (simp add: edges_def)
  then show "t_prev (the (tasks x)) = last (x # bs @ as)" using r by (auto simp: ring_def)
  have "(x, hd (bs @ as @ [x])) \<in> edges (x # bs @ as)" by (cases "bs @ as") (auto simp: edges_def append_assoc [symmetric] simp del: append_assoc)
  then show "t_next (the (tasks x)) = hd (bs @ as @ [x])" using r by (auto simp: ring_def)
qed

text \<open>Changes that keep the links of the members keep the ring.\<close>

lemma ring_cong:
  assumes "\<And>x. x \<in> set ts \<Longrightarrow> tasks' x \<noteq> None \<longleftrightarrow> tasks x \<noteq> None"
    and "\<And>x. x \<in> set ts \<Longrightarrow> t_next (the (tasks' x)) = t_next (the (tasks x)) \<and> t_prev (the (tasks' x)) = t_prev (the (tasks x))"
  shows "ring tasks' ts \<longleftrightarrow> ring tasks ts"
proof -
  have "x \<in> set ts \<and> y \<in> set ts" if "(x, y) \<in> edges ts" "ts \<noteq> []" "distinct ts" for x y
    using that adj_distinct [of ts x y] by (auto simp: edges_def)
  then have "(\<forall>(x, y) \<in> edges ts. t_next (the (tasks' x)) = y \<and> t_prev (the (tasks' y)) = x) \<longleftrightarrow>
      (\<forall>(x, y) \<in> edges ts. t_next (the (tasks x)) = y \<and> t_prev (the (tasks y)) = x)" if "ts \<noteq> []" "distinct ts"
    using that assms(2) by (fastforce intro!: ball_cong)
  moreover have "set ts \<subseteq> dom tasks' \<longleftrightarrow> set ts \<subseteq> dom tasks" using assms(1) by (simp add: subset_iff domIff)
  ultimately show ?thesis unfolding ring_def by (cases "ts = []"; cases "distinct ts") simp_all
qed

section \<open>The next task\<close>

definition runnable :: "(u32 \<rightharpoonup> task_t) \<Rightarrow> u32 \<Rightarrow> u32 \<Rightarrow> bool" where
  "runnable tasks idle x \<longleftrightarrow> (t_state (the (tasks x)) = TASK_READY \<or> t_state (the (tasks x)) = TASK_RUNNING) \<and> x \<noteq> idle"

definition pick :: "(u32 \<rightharpoonup> task_t) \<Rightarrow> u32 \<Rightarrow> u32 list \<Rightarrow> u32" where
  "pick tasks idle xs = (case find (runnable tasks idle) xs of Some x \<Rightarrow> x | None \<Rightarrow> idle)"

lemma next_loop_pick:
  "ring tasks (as @ x # bs) \<Longrightarrow> start = hd (as @ [x]) \<Longrightarrow> next_loop tasks idle start x = Some (pick tasks idle (x # bs))"
proof (induction bs arbitrary: as x)
  case Nil
  then obtain t where t: "tasks x = Some t" by (auto simp: ring_def)
  have "t_next t = start" using ring_links(1) [OF Nil.prems(1)] t Nil.prems(2) by (cases as) auto
  then show ?case by (subst next_loop.simps) (simp add: t pick_def runnable_def)
next
  case (Cons y bs)
  then obtain t where t: "tasks x = Some t" by (auto simp: ring_def)
  have n: "t_next t = y" using ring_links(1) [OF Cons.prems(1)] t by simp
  have "start \<in> set (as @ [x])" using Cons.prems(2) by (cases as) auto
  then have "y \<noteq> start" using Cons.prems(1) by (auto simp: ring_def)
  then show ?case using Cons.IH [of "as @ [x]" y] Cons.prems t n
    by (subst next_loop.simps) (auto simp: pick_def runnable_def hd_append)
qed

definition sched_ring :: "kernel \<Rightarrow> u32 list \<Rightarrow> bool" where
  "sched_ring k ts \<longleftrightarrow> ring (k_tasks k) ts \<and> task_ptr k = last ts"

lemma next_task_pick:
  assumes "sched_ring k (as @ current_task k # bs)" and "current_task k \<noteq> 0"
  shows "next_task L k = Ret (pick (k_tasks k) (sym_idle_task L) (bs @ as @ [current_task k])) k"
proof -
  let ?c = "current_task k"
  have ring: "ring (k_tasks k) (as @ ?c # bs)" using assms(1) by (simp add: sched_ring_def)
  have "last (as @ ?c # bs) \<in> set (as @ ?c # bs)" by (rule last_in_set) simp
  then have ptr: "task_ptr k \<noteq> 0" using assms(1) unfolding sched_ring_def ring_def by metis
  obtain t where t: "k_tasks k ?c = Some t" using ring by (auto simp: ring_def)
  have n: "t_next t = hd (bs @ as @ [?c])" using ring_links(1) [OF ring] t by simp
  have rot: "rotate (length as + 1) (as @ ?c # bs) = bs @ as @ [?c]"
    using rotate_append [of "as @ [?c]" bs] by simp
  then have r': "ring (k_tasks k) (bs @ as @ [?c])" using ring ring_rotate [of _ "length as + 1" "as @ ?c # bs"] by simp
  then obtain y ys where ys: "bs @ as @ [?c] = y # ys" by (cases "bs @ as @ [?c]") auto
  have "next_loop (k_tasks k) (sym_idle_task L) y y = Some (pick (k_tasks k) (sym_idle_task L) (y # ys))"
    using next_loop_pick [of "k_tasks k" "[]" y ys y] r' ys by simp
  then show ?thesis using ptr t n ys assms(2) by (simp add: next_task_def Let_def get_current_task_def with_task_def)
qed

section \<open>Joining and leaving the ring\<close>

definition nxt :: "(u32 \<rightharpoonup> task_t) \<Rightarrow> u32 \<Rightarrow> u32" where "nxt tasks x = t_next (the (tasks x))"
definition prv :: "(u32 \<rightharpoonup> task_t) \<Rightarrow> u32 \<Rightarrow> u32" where "prv tasks x = t_prev (the (tasks x))"

lemma ring_iff: "ring tasks ts \<longleftrightarrow> ts \<noteq> [] \<and> distinct ts \<and> 0 \<notin> set ts \<and> set ts \<subseteq> dom tasks
     \<and> (\<forall>(x, y) \<in> edges ts. nxt tasks x = y \<and> prv tasks y = x)"
  by (simp add: ring_def nxt_def prv_def)

lemma ring_member: "ring tasks ts \<Longrightarrow> x \<in> set ts \<Longrightarrow> x \<noteq> 0 \<and> (\<exists>t. tasks x = Some t)"
  unfolding ring_iff by blast

lemma ring_ends: "ring tasks ts \<Longrightarrow> nxt tasks (last ts) = hd ts"
  by (simp add: ring_iff edges_def)

lemma ring_enqueue:
  assumes "ring tasks ts" and "a \<notin> set ts" and "a \<noteq> 0" and "dom tasks' = insert a (dom tasks)"
    and "\<And>x. nxt tasks' x = (if x = a then hd ts else if x = last ts then a else nxt tasks x)"
    and "\<And>x. prv tasks' x = (if x = a then last ts else if x = hd ts then a else prv tasks x)"
  shows "ring tasks' (ts @ [a])"
proof -
  have d: "ts \<noteq> []" "distinct ts" "hd ts \<in> set ts" "last ts \<in> set ts" using assms(1) by (auto simp: ring_iff)
  have e: "edges (ts @ [a]) = insert (a, hd ts) (insert (last ts, a) (adj ts))" using d by (simp add: edges_def adj_append insert_commute)
  have "nxt tasks' x = y \<and> prv tasks' y = x" if "(x, y) \<in> adj ts" for x y
  proof -
    have "x \<noteq> a" "y \<noteq> a" "x \<noteq> last ts" "y \<noteq> hd ts" using adj_distinct [OF d(2) that] assms(2) by auto
    then show ?thesis using assms(1,5,6) that by (auto simp: ring_iff edges_def)
  qed
  moreover have "nxt tasks' a = hd ts \<and> prv tasks' (hd ts) = a" "nxt tasks' (last ts) = a \<and> prv tasks' a = last ts"
    using assms(2,5,6) d(3,4) by auto
  ultimately have "\<forall>(x, y) \<in> edges (ts @ [a]). nxt tasks' x = y \<and> prv tasks' y = x" unfolding e by blast
  moreover have "set (ts @ [a]) \<subseteq> dom tasks'" using assms(1,4) by (auto simp: ring_iff)
  ultimately show ?thesis using d assms(1-3) unfolding ring_iff by simp
qed

lemma ring_dequeue:
  assumes "ring tasks (as @ a # bs)" and "as @ bs \<noteq> []" and "dom tasks \<subseteq> dom tasks'"
    and "\<And>x. x \<noteq> a \<Longrightarrow> nxt tasks' x = (if x = prv tasks a then nxt tasks a else nxt tasks x)"
    and "\<And>x. x \<noteq> a \<Longrightarrow> prv tasks' x = (if x = nxt tasks a then prv tasks a else prv tasks x)"
  shows "ring tasks' (as @ bs)"
proof -
  have "rotate (length as + 1) (as @ a # bs) = bs @ as @ [a]" using rotate_append [of "as @ [a]" bs] by simp
  then have r: "ring tasks ((bs @ as) @ [a])" using assms(1) ring_rotate [of _ "length as + 1" "as @ a # bs"] by simp
  define ts where "ts = bs @ as"
  have d: "ts \<noteq> []" "distinct ts" "a \<notin> set ts" using r assms(2) by (auto simp: ring_iff ts_def)
  have e: "edges (ts @ [a]) = insert (a, hd ts) (insert (last ts, a) (adj ts))" using d by (simp add: edges_def adj_append insert_commute)
  have l: "nxt tasks a = hd ts" "prv tasks a = last ts" using r e by (auto simp: ring_iff ts_def)
  have "nxt tasks' x = y \<and> prv tasks' y = x" if xy: "(x, y) \<in> edges ts" for x y
  proof (cases "(x, y) \<in> adj ts")
    case True
    then have "x \<noteq> a" "y \<noteq> a" "x \<noteq> last ts" "y \<noteq> hd ts" using adj_distinct [OF d(2)] d(3) by blast+
    moreover have "nxt tasks x = y \<and> prv tasks y = x" using r e True by (auto simp: ring_iff ts_def)
    ultimately show ?thesis using assms(4,5) l by simp
  next
    case False
    then have "x = last ts" "y = hd ts" using xy by (auto simp: edges_def)
    moreover have "last ts \<noteq> a" "hd ts \<noteq> a" using d last_in_set [of ts] hd_in_set [of ts] by metis+
    ultimately show ?thesis using assms(4,5) l by simp
  qed
  then have "\<forall>(x, y) \<in> edges ts. nxt tasks' x = y \<and> prv tasks' y = x" by blast
  moreover have "set ts \<subseteq> dom tasks'" "0 \<notin> set ts"
    using r subset_trans [OF _ assms(3), of "set ts"] unfolding ring_iff ts_def by simp_all
  ultimately have "ring tasks' ts" using d(1,2) unfolding ring_iff by simp
  then show ?thesis using rotate_append [of bs as] ring_rotate [of tasks' "length bs" "bs @ as"] by (simp add: ts_def)
qed

lemma enqueue_ring:
  assumes "sched_ring k ts" and "k_tasks k a = Some t" and "t_prev t = 0" "t_next t = 0" "t_state t = TASK_NEW"
    and "a \<noteq> 0" and "a \<notin> set ts"
  shows "\<exists>k'. enqueue_task a k = Ret 1 k' \<and> sched_ring k' (ts @ [a])
    \<and> current_task k' = (if current_task k = 0 then a else current_task k)
    \<and> t_state (the (k_tasks k' a)) = (if current_task k = 0 then TASK_RUNNING else TASK_READY)
    \<and> (\<forall>x. x \<noteq> a \<longrightarrow> map_option t_state (k_tasks k' x) = map_option t_state (k_tasks k x))
    \<and> k' = k\<lparr>k_tasks := k_tasks k', task_ptr := a, current_task := current_task k'\<rparr>"
proof -
  let ?T = "k_tasks k" and ?h = "hd ts" and ?p = "last ts"
  have r: "ring ?T ts" "task_ptr k = ?p" using assms(1) by (auto simp: sched_ring_def)
  have "ts \<noteq> []" "0 \<notin> set ts" using r(1) by (simp_all add: ring_iff)
  moreover from this have "?h \<in> set ts" "?p \<in> set ts" by simp_all
  ultimately have d: "ts \<noteq> []" "?h \<in> set ts" "?p \<in> set ts" "?h \<noteq> a" "?p \<noteq> a" "?p \<noteq> 0" using assms(7) by metis+
  obtain p where p: "?T ?p = Some p" using ring_member [OF r(1) d(3)] by blast
  obtain h where h: "?T ?h = Some h" using ring_member [OF r(1) d(2)] by blast
  have ph: "t_next p = ?h" using ring_ends [OF r(1)] p by (simp add: nxt_def)
  define s where "s = (if current_task k = 0 then TASK_RUNNING else TASK_READY)"
  define T1 where "T1 = ?T(a \<mapsto> t\<lparr>t_prev := ?p, t_next := ?h\<rparr>)"
  define T2 where "T2 = T1(?h \<mapsto> h\<lparr>t_prev := a\<rparr>)"
  define T3 where "T3 = T2(?p \<mapsto> (the (T2 ?p))\<lparr>t_next := a\<rparr>)"
  define T4 where "T4 = T3(a \<mapsto> t\<lparr>t_prev := ?p, t_next := ?h, t_state := s\<rparr>)"
  define k' where "k' = k\<lparr>k_tasks := T4, task_ptr := a, current_task := if current_task k = 0 then a else current_task k\<rparr>"
  have e: "enqueue_task a k = Ret 1 k'"
    using assms(2-6) d(4,5,6) p h ph r(2)
    by (auto simp: enqueue_task_def with_task_def set_task_def put_task_def admit_def get_current_task_def set_current_task_def
        Let_def k'_def T4_def T3_def T2_def T1_def s_def)
  have nx: "nxt T4 x = (if x = a then ?h else if x = ?p then a else nxt ?T x)" for x
    using d(4,5) h by (auto simp: T4_def T3_def T2_def T1_def nxt_def)
  have pv: "prv T4 x = (if x = a then ?p else if x = ?h then a else prv ?T x)" for x
    using d(4,5) h p by (auto simp: T4_def T3_def T2_def T1_def prv_def)
  have "dom T4 = insert a (dom ?T)" using h p by (auto simp: T4_def T3_def T2_def T1_def)
  from ring_enqueue [OF r(1) assms(7,6) this nx pv] have "sched_ring k' (ts @ [a])" by (simp add: sched_ring_def k'_def)
  moreover have "map_option t_state (T4 x) = map_option t_state (?T x)" if "x \<noteq> a" for x
    using that d(4,5) h p by (auto simp: T4_def T3_def T2_def T1_def)
  ultimately show ?thesis using e by (intro exI [of _ k']) (simp add: k'_def T4_def s_def)
qed

lemma enqueue_empty:
  assumes "task_ptr k = 0" and "k_tasks k a = Some t" and "t_prev t = 0" "t_next t = 0" "t_state t = TASK_NEW" and "a \<noteq> 0"
  shows "\<exists>k'. enqueue_task a k = Ret 1 k' \<and> sched_ring k' [a]"
  using assms by (auto simp: enqueue_task_def with_task_def set_task_def put_task_def admit_def get_current_task_def
      set_current_task_def sched_ring_def ring_def edges_def)

lemma dequeue_ring:
  assumes "sched_ring k (as @ a # bs)" and "as @ bs \<noteq> []"
  shows "\<exists>k'. dequeue_task a k = Ret 1 k' \<and> sched_ring k' (as @ bs)
    \<and> current_task k' = (if current_task k = a then hd (bs @ as) else current_task k)
    \<and> (\<forall>x. map_option t_state (k_tasks k' x) = map_option t_state (k_tasks k x))
    \<and> map_option t_kernel_stack_base (k_tasks k' a) = map_option t_kernel_stack_base (k_tasks k a)
    \<and> k' = k\<lparr>k_tasks := k_tasks k', task_ptr := task_ptr k', current_task := current_task k'\<rparr>"
proof -
  let ?T = "k_tasks k" and ?n = "hd (bs @ as)" and ?p = "last (bs @ as)"
  have r: "ring ?T (as @ a # bs)" "task_ptr k = last (a # bs)" using assms(1) by (auto simp: sched_ring_def)
  obtain t where t: "?T a = Some t" using ring_member [OF r(1), of a] by auto
  have mem: "?n \<in> set (bs @ as)" "?p \<in> set (bs @ as)" using assms(2) by (metis append_is_Nil_conv hd_in_set last_in_set)+
  have ls: "t_next t = ?n" "t_prev t = ?p" using ring_links [OF r(1)] t assms(2)
    by (auto simp: append_assoc [symmetric] hd_append simp del: append_assoc)
  have sub: "set (bs @ as) \<subseteq> set (as @ a # bs)" "a \<notin> set (bs @ as)" "a \<in> set (as @ a # bs)" using r(1) by (auto simp: ring_iff)
  then have ne: "?n \<noteq> a" "?p \<noteq> a" "?n \<noteq> 0" "?p \<noteq> 0" "a \<noteq> 0" using mem ring_member [OF r(1)] by (metis subsetD)+
  obtain n p where np: "?T ?n = Some n" "?T ?p = Some p" using mem sub ring_member [OF r(1)] by (meson subsetD)
  define T1 where "T1 = ?T(?p \<mapsto> p\<lparr>t_next := ?n\<rparr>)"
  define T2 where "T2 = T1(?n \<mapsto> (the (T1 ?n))\<lparr>t_prev := ?p\<rparr>)"
  define T3 where "T3 = T2(a \<mapsto> t\<lparr>t_prev := 0, t_next := 0\<rparr>)"
  define k' where "k' = k\<lparr>k_tasks := T3, task_ptr := if task_ptr k = a then ?p else task_ptr k,
      current_task := if current_task k = a then ?n else current_task k\<rparr>"
  have e: "dequeue_task a k = Ret 1 k'"
    using t ls ne np
    by (auto simp: dequeue_task_def with_task_def set_task_def put_task_def get_current_task_def set_current_task_def
        Let_def k'_def T3_def T2_def T1_def)
  have nx: "nxt T3 x = (if x = prv ?T a then nxt ?T a else nxt ?T x)" if "x \<noteq> a" for x
    using that t ls np by (auto simp: T3_def T2_def T1_def nxt_def prv_def)
  have pv: "prv T3 x = (if x = nxt ?T a then prv ?T a else prv ?T x)" if "x \<noteq> a" for x
    using that t ls np by (auto simp: T3_def T2_def T1_def nxt_def prv_def)
  have "dom ?T \<subseteq> dom T3" by (auto simp: T3_def T2_def T1_def)
  from ring_dequeue [OF r(1) assms(2) this nx pv] have "ring T3 (as @ bs)" .
  moreover have "(if task_ptr k = a then ?p else task_ptr k) = last (as @ bs)"
    using r assms(2) by (auto simp: ring_iff last_append split: if_splits)
  ultimately have "sched_ring k' (as @ bs)" by (simp add: sched_ring_def k'_def)
  moreover have "map_option t_state (T3 x) = map_option t_state (?T x)"
      "map_option t_kernel_stack_base (T3 x) = map_option t_kernel_stack_base (?T x)" for x
    using t np by (auto simp: T3_def T2_def T1_def)
  ultimately show ?thesis using e by (intro exI [of _ k']) (simp add: k'_def)
qed

section \<open>Switching\<close>

text \<open>
  \<open>moved k k' st\<close>: from \<open>k\<close> to \<open>k'\<close> no task was added or removed and no link changed, and the states of
  the tasks are \<open>st\<close>.
\<close>

definition moved :: "kernel \<Rightarrow> kernel \<Rightarrow> (u32 \<Rightarrow> u8) \<Rightarrow> bool" where
  "moved k k' st \<longleftrightarrow> dom (k_tasks k') = dom (k_tasks k) \<and> task_ptr k' = task_ptr k \<and> dead_task k' = dead_task k
     \<and> (\<forall>x. nxt (k_tasks k') x = nxt (k_tasks k) x \<and> prv (k_tasks k') x = prv (k_tasks k) x)
     \<and> (\<forall>x \<in> dom (k_tasks k). t_state (the (k_tasks k' x)) = st x)"

lemma moved_ring: "moved k k' st \<Longrightarrow> sched_ring k' ts \<longleftrightarrow> sched_ring k ts"
  by (simp add: moved_def sched_ring_def ring_iff)

abbreviation state_of :: "kernel \<Rightarrow> u32 \<Rightarrow> u8" where
  "state_of k x \<equiv> t_state (the (k_tasks k x))"

lemma push_word_sel [simp]: "k_tasks (push_word v k) = k_tasks k" "k_tss (push_word v k) = k_tss k"
    "k_machine (push_word v k) = k_machine k" "task_ptr (push_word v k) = task_ptr k" "dead_task (push_word v k) = dead_task k"
    "current_task (push_word v k) = current_task k"
  by (simp_all add: push_word_def Let_def)

lemma switch_to_effect:
  assumes "k_tasks k prev = Some p" and "k_tasks k next = Some n"
  shows "\<exists>k'. switch_to prev next k = Ret () k' \<and> moved k k' (state_of k) \<and> current_task k' = current_task k
    \<and> k_tss k' = k_tss k \<and> k_machine k' = k_machine k"
  using assms
  by (auto simp: switch_to_def Let_def set_task_def with_task_def put_task_def pop_word_def split_def moved_def nxt_def prv_def)

lemma context_switch_effect:
  assumes "dead_task k = 0 \<or> dead_task k = prev" and "prev \<noteq> 0" and "next \<noteq> 0" and "prev \<noteq> next"
    and "k_tasks k prev = Some p" and "k_tasks k next = Some n"
  shows "\<exists>k'. context_switch L prev next k = Ret Switched k' \<and> moved k k' ((state_of k)(next := TASK_RUNNING)) \<and> current_task k' = next
    \<and> tss_esp0 (k_tss k') = t_kernel_stack_top n \<and> (page_aligned (t_cr3 n) \<longrightarrow> get_cr3 (k_machine k') = t_cr3 n)"
proof -
  define k1 where "k1 = put_task next (n\<lparr>t_state := TASK_RUNNING\<rparr>) (k\<lparr>current_task := next\<rparr>)"
  define k2 where "k2 = k1\<lparr>k_tss := tss_set_kernel_stack (t_kernel_stack_top n) (k_tss k1)\<rparr>"
  define k3 where "k3 = (if get_cr3 (k_machine k2) \<noteq> t_cr3 n then on_machine (set_cr3 (t_cr3 n)) k2 else k2)"
  define k4 where "k4 = push_word (sym_switch_return L) (push_word prev (push_word next k3))"
  have t4: "k_tasks k4 = (k_tasks k)(next \<mapsto> n\<lparr>t_state := TASK_RUNNING\<rparr>)"
    by (simp add: k4_def k3_def k2_def k1_def put_task_def on_machine_def)
  have c: "context_switch L prev next k = and_then (switch_to prev next k4) (\<lambda>_. Ret Switched)"
    using assms by (simp add: context_switch_def reap_dead_task_def set_task_def with_task_def set_current_task_def
        Let_def k4_def k3_def k2_def k1_def put_task_def)
  obtain k' where k': "switch_to prev next k4 = Ret () k'" "moved k4 k' (state_of k4)" "current_task k' = current_task k4"
    "k_tss k' = k_tss k4" "k_machine k' = k_machine k4"
    using switch_to_effect [of k4 prev p "next" "n\<lparr>t_state := TASK_RUNNING\<rparr>"] t4 assms(4,5) by auto
  have m: "task_ptr k4 = task_ptr k" "dead_task k4 = dead_task k" "current_task k4 = next"
    "tss_esp0 (k_tss k4) = t_kernel_stack_top n"
    by (simp_all add: k4_def k3_def k2_def k1_def put_task_def on_machine_def tss_set_kernel_stack_def)
  have cr: "get_cr3 (k_machine k4) = t_cr3 n" if "page_aligned (t_cr3 n)"
    using page_of_aligned [OF that]
    by (simp add: k4_def k3_def on_machine_def get_cr3_def set_cr3_def page_of_def)
  have "moved k k' ((state_of k)(next := TASK_RUNNING))"
    using k'(2) t4 m assms(6) by (auto simp: moved_def nxt_def prv_def)
  then show ?thesis using c k' m cr by auto
qed

end
