(* ===== verification/Sched_Spec.thy ===== *)
theory Sched_Spec
  imports Sched
begin

text \<open>
  What the scheduler of \<^verbatim>\<open>kernel/sched.c\<close> promises: an abstract round robin scheduler, the
  simulation between it and the operations of \<open>Sched\<close>, the invariant of every run and fairness.
\<close>

section \<open>The abstract scheduler\<close>

text \<open>
  What the scheduler promises: a list of members, the current one, and the set of those that may run.
  The next task is the first one after the current one, in a circle, that may run, and the idle task when
  there is none.
\<close>

record rr =
  rr_members :: "u32 list"
  rr_current :: u32
  rr_ready :: "u32 \<Rightarrow> bool"

definition circle :: "'a \<Rightarrow> 'a list \<Rightarrow> 'a list" where
  "circle c ts = tl (dropWhile (\<lambda>x. x \<noteq> c) ts) @ takeWhile (\<lambda>x. x \<noteq> c) ts @ [c]"

definition rr_next :: "u32 \<Rightarrow> rr \<Rightarrow> u32" where
  "rr_next idle s =
     (case find (\<lambda>x. rr_ready s x \<and> x \<noteq> idle) (circle (rr_current s) (rr_members s)) of Some x \<Rightarrow> x | None \<Rightarrow> idle)"

definition rr_tick :: "u32 \<Rightarrow> rr \<Rightarrow> rr" where
  "rr_tick idle s = s\<lparr>rr_current := rr_next idle s\<rparr>"

definition rr_block :: "u32 \<Rightarrow> u32 \<Rightarrow> rr \<Rightarrow> rr" where
  "rr_block idle a s =
     (if a = idle \<or> \<not> rr_ready s a then s
      else let s = s\<lparr>rr_ready := (rr_ready s)(a := False)\<rparr>
        in if a = rr_current s then rr_tick idle s else s)"

definition rr_wake :: "u32 \<Rightarrow> rr \<Rightarrow> rr" where
  "rr_wake a s = s\<lparr>rr_ready := (rr_ready s)(a := True)\<rparr>"

definition rr_spawn :: "u32 \<Rightarrow> rr \<Rightarrow> rr" where
  "rr_spawn a s = s\<lparr>rr_members := rr_members s @ [a], rr_ready := (rr_ready s)(a := True)\<rparr>"

definition rr_ok :: "u32 \<Rightarrow> rr \<Rightarrow> bool" where
  "rr_ok idle s \<longleftrightarrow> distinct (rr_members s) \<and> idle \<in> set (rr_members s) \<and> rr_current s \<in> set (rr_members s)
     \<and> rr_ready s idle \<and> rr_ready s (rr_current s)"

text \<open>The state of a member in the kernel.\<close>

definition rr_state :: "rr \<Rightarrow> u32 \<Rightarrow> u8" where
  "rr_state s x = (if x = rr_current s then TASK_RUNNING else if rr_ready s x then TASK_READY else TASK_BLOCKED)"

definition implements :: "symbols \<Rightarrow> kernel \<Rightarrow> rr \<Rightarrow> bool" where
  "implements L k s \<longleftrightarrow> rr_ok (sym_idle_task L) s \<and> sched_ring k (rr_members s) \<and> current_task k = rr_current s
     \<and> dead_task k = 0 \<and> (\<forall>x \<in> set (rr_members s). state_of k x = rr_state s x)"

lemma circle_split: "c \<notin> set as \<Longrightarrow> circle c (as @ c # bs) = bs @ as @ [c]"
proof -
  assume "c \<notin> set as"
  then have "dropWhile (\<lambda>x. x \<noteq> c) as = []" "takeWhile (\<lambda>x. x \<noteq> c) as = as"
    unfolding dropWhile_eq_Nil_conv takeWhile_eq_all_conv by metis+
  then show ?thesis by (simp add: circle_def dropWhile_append takeWhile_append)
qed

lemma circle_member:
  assumes "c \<in> set ts" shows "set (circle c ts) = set ts"
proof -
  obtain as bs where "ts = as @ c # bs" "c \<notin> set as" using split_list_first [OF assms] by blast
  then show ?thesis using circle_split [of c as bs] by auto
qed

lemma rr_next_props:
  assumes "idle \<in> set (rr_members s)" and "rr_current s \<in> set (rr_members s)" and "rr_ready s idle"
  shows "rr_next idle s \<in> set (rr_members s)" "rr_ready s (rr_next idle s)"
  using assms circle_member [OF assms(2)]
  by (auto simp: rr_next_def find_Some_iff split: option.split)

lemma rr_tick_ok: "rr_ok idle s \<Longrightarrow> rr_ok idle (rr_tick idle s)"
  using rr_next_props [of idle s] by (simp add: rr_ok_def rr_tick_def)

lemma next_task_rr:
  assumes "sched_ring k (rr_members s)" and "current_task k = rr_current s" and "rr_current s \<in> set (rr_members s)"
    and "\<And>x. x \<in> set (rr_members s) \<Longrightarrow> runnable (k_tasks k) (sym_idle_task L) x \<longleftrightarrow> rr_ready s x \<and> x \<noteq> sym_idle_task L"
  shows "next_task L k = Ret (rr_next (sym_idle_task L) s) k"
proof -
  obtain as bs where ts: "rr_members s = as @ rr_current s # bs" "rr_current s \<notin> set as"
    using split_list_first [OF assms(3)] by blast
  have c: "circle (rr_current s) (rr_members s) = bs @ as @ [rr_current s]" using circle_split ts by metis
  then have "set (bs @ as @ [rr_current s]) = set (rr_members s)" using circle_member [OF assms(3)] by simp
  then have "pick (k_tasks k) (sym_idle_task L) (bs @ as @ [rr_current s]) = rr_next (sym_idle_task L) s"
    unfolding pick_def rr_next_def c using assms(4) by (intro arg_cong [where f = "case_option _ _"] find_cong) auto
  moreover have "rr_current s \<noteq> 0" using assms(1,3) ring_member by (auto simp: sched_ring_def)
  ultimately show ?thesis using next_task_pick [of k as bs L] assms(1,2) ts(1) by simp
qed

section \<open>The simulation\<close>

lemma moved_refl: "moved k k (state_of k)"
  by (simp add: moved_def)

lemma moved_trans: "moved k k' st \<Longrightarrow> moved k' k'' st' \<Longrightarrow> moved k k'' st'"
  by (simp add: moved_def)

lemma moved_cong: "moved k k' st \<Longrightarrow> (\<And>x. x \<in> dom (k_tasks k) \<Longrightarrow> st x = st' x) \<Longrightarrow> moved k k' st'"
  by (auto simp: moved_def)

lemma set_state:
  assumes "k_tasks k a = Some t"
  shows "\<exists>k'. set_task a (\<lambda>t. t\<lparr>t_state := v\<rparr>) k = Ret () k' \<and> moved k k' ((state_of k)(a := v)) \<and> current_task k' = current_task k
    \<and> k_tasks k' = (k_tasks k)(a \<mapsto> t\<lparr>t_state := v\<rparr>)"
  using assms by (auto simp: set_task_def with_task_def put_task_def moved_def nxt_def prv_def)

text \<open>A kernel whose tasks moved implements the abstract state that has their states.\<close>

lemma implements_moved:
  assumes "implements L k s" and "moved k k' st" and "rr_ok (sym_idle_task L) s'" and "rr_members s' = rr_members s"
    and "current_task k' = rr_current s'" and "\<And>x. x \<in> set (rr_members s) \<Longrightarrow> st x = rr_state s' x"
  shows "implements L k' s'"
proof -
  have "sched_ring k' (rr_members s')" using assms(1,2,4) moved_ring by (auto simp: implements_def)
  moreover have "set (rr_members s) \<subseteq> dom (k_tasks k)" using assms(1) by (auto simp: implements_def sched_ring_def ring_def)
  then have "\<forall>x \<in> set (rr_members s'). state_of k' x = rr_state s' x" using assms(2,4,6) by (auto simp: moved_def subset_iff)
  ultimately show ?thesis using assms by (simp add: implements_def moved_def)
qed

lemma implements_member:
  assumes "implements L k s" and "x \<in> set (rr_members s)"
  shows "x \<noteq> 0" "\<exists>t. k_tasks k x = Some t"
  using assms ring_member by (auto simp: implements_def sched_ring_def)

lemma implements_state: "implements L k s \<Longrightarrow> x \<in> set (rr_members s) \<Longrightarrow> k_tasks k x = Some t \<Longrightarrow> t_state t = rr_state s x"
  by (force simp: implements_def)

lemma implements_current:
  assumes "implements L k s"
  shows "rr_current s \<in> set (rr_members s)" "sym_idle_task L \<in> set (rr_members s)" "current_task k = rr_current s" "dead_task k = 0"
    "rr_ready s (rr_current s)" "rr_ready s (sym_idle_task L)"
  using assms by (auto simp: implements_def rr_ok_def)

lemma runnable_rr:
  assumes "implements L k s" and "x \<in> set (rr_members s)"
  shows "runnable (k_tasks k) (sym_idle_task L) x \<longleftrightarrow> rr_ready s x \<and> x \<noteq> sym_idle_task L"
  using assms by (auto simp: implements_def runnable_def rr_state_def rr_ok_def)

lemma schedule_sim:
  assumes "implements L k s"
  shows "\<exists>r k'. schedule L k = Ret r k' \<and> implements L k' (rr_tick (sym_idle_task L) s) \<and> dom (k_tasks k') = dom (k_tasks k)"
proof -
  let ?c = "rr_current s" and ?n = "rr_next (sym_idle_task L) s"
  note c = implements_current [OF assms]
  have n: "?n \<in> set (rr_members s)" "rr_ready s ?n" using rr_next_props c by auto
  have nt: "next_task L k = Ret ?n k"
    using assms runnable_rr [OF assms] c by (intro next_task_rr) (auto simp: implements_def)
  have nz: "?c \<noteq> 0" "?n \<noteq> 0" using implements_member [OF assms] c(1) n(1) by auto
  have ok: "rr_ok (sym_idle_task L) (rr_tick (sym_idle_task L) s)" using assms rr_tick_ok by (simp add: implements_def)
  show ?thesis
  proof (cases "?n = ?c")
    case True
    then have "schedule L k = Ret Returned k" "rr_tick (sym_idle_task L) s = s"
      using nt nz c by (simp_all add: schedule_def reap_dead_task_def get_current_task_def rr_tick_def)
    then show ?thesis using assms by auto
  next
    case False
    obtain tc tn where t: "k_tasks k ?c = Some tc" "k_tasks k ?n = Some tn" using implements_member(2) [OF assms] c(1) n(1) by meson
    obtain k1 where k1: "set_task ?c (\<lambda>t. t\<lparr>t_state := TASK_READY\<rparr>) k = Ret () k1" "moved k k1 ((state_of k)(?c := TASK_READY))"
      "k_tasks k1 = (k_tasks k)(?c \<mapsto> tc\<lparr>t_state := TASK_READY\<rparr>)"
      using set_state [OF t(1), of TASK_READY] by blast
    have d1: "dead_task k1 = 0" using k1(2) c(4) by (simp add: moved_def)
    have t1: "k_tasks k1 ?c = Some (tc\<lparr>t_state := TASK_READY\<rparr>)" "k_tasks k1 ?n = Some tn" using k1(3) t False by auto
    obtain k' where k': "context_switch L ?c ?n k1 = Ret Switched k'" "moved k1 k' ((state_of k1)(?n := TASK_RUNNING))"
      "current_task k' = ?n"
      using context_switch_effect [OF disjI1 [OF d1] nz False [symmetric] t1] by blast
    have e: "schedule L k = Ret Switched k'"
      using nt nz c k1(1) k'(1) False by (simp add: schedule_def reap_dead_task_def get_current_task_def after_switch_def)
    have "((state_of k1)(?n := TASK_RUNNING)) x = rr_state (rr_tick (sym_idle_task L) s) x" if "x \<in> set (rr_members s)" for x
      using that assms k1(3) False c(5) n(2) by (auto simp: implements_def rr_state_def rr_tick_def)
    then have "implements L k' (rr_tick (sym_idle_task L) s)"
      using implements_moved [OF assms moved_trans [OF k1(2) k'(2)] ok] k'(3) by (simp add: rr_tick_def)
    moreover have "dom (k_tasks k') = dom (k_tasks k)" using k1(2) k'(2) by (simp add: moved_def)
    ultimately show ?thesis using e by blast
  qed
qed

lemma block_sim:
  assumes "implements L k s" and "a \<in> set (rr_members s)"
  shows "\<exists>r k'. block_task L a k = Ret r k' \<and> implements L k' (rr_block (sym_idle_task L) a s) \<and> dom (k_tasks k') = dom (k_tasks k)"
proof (cases "a = sym_idle_task L \<or> \<not> rr_ready s a")
  case True
  obtain t where t: "k_tasks k a = Some t" using implements_member [OF assms] by blast
  have "a = sym_idle_task L \<or> t_state t = TASK_BLOCKED"
    using implements_state [OF assms t] True implements_current(5) [OF assms(1)] by (auto simp: rr_state_def)
  then have "block_task L a k = Ret Returned k" using t by (auto simp: block_task_def with_task_def)
  then show ?thesis using assms True by (auto simp: rr_block_def)
next
  case False
  let ?c = "rr_current s" and ?i = "sym_idle_task L"
  note c = implements_current [OF assms(1)]
  define s1 where "s1 = s\<lparr>rr_ready := (rr_ready s)(a := False)\<rparr>"
  have rb: "rr_block ?i a s = (if a = ?c then rr_tick ?i s1 else s1)" using False by (simp add: rr_block_def s1_def Let_def)
  obtain t where t: "k_tasks k a = Some t" and a: "a \<noteq> 0" using implements_member [OF assms] by blast
  have st: "t_state t = TASK_READY \<or> t_state t = TASK_RUNNING" using implements_state [OF assms t] False by (simp add: rr_state_def)
  obtain k1 where k1: "set_task a (\<lambda>t. t\<lparr>t_state := TASK_BLOCKED\<rparr>) k = Ret () k1"
    "moved k k1 ((state_of k)(a := TASK_BLOCKED))" "current_task k1 = current_task k"
    "k_tasks k1 = (k_tasks k)(a \<mapsto> t\<lparr>t_state := TASK_BLOCKED\<rparr>)"
    using set_state [OF t, of TASK_BLOCKED] by blast
  have b: "block_task L a k = (if a \<noteq> ?c then Ret Returned k1
      else and_then (next_task L k1) (\<lambda>next k. if next = 0 \<or> next = a then spin_forever k
        else and_then (context_switch L a next k) (after_switch a)))"
  proof -
    have "block_task L a k = and_then (set_task a (\<lambda>t. t\<lparr>t_state := TASK_BLOCKED\<rparr>) k) (\<lambda>_ k. if a \<noteq> current_task k then Ret Returned k
        else and_then (next_task L k) (\<lambda>next k. if next = 0 \<or> next = a then spin_forever k
          else and_then (context_switch L a next k) (after_switch a)))"
      using a t st False by (auto simp: block_task_def with_task_def [of a _ k] get_current_task_def Let_def)
    then show ?thesis using k1(1,3) c(3) by simp
  qed
  show ?thesis
  proof (cases "a = ?c")
    case False': False
    have "implements L k1 s1"
      using assms(1) c False False' k1(3)
      by (intro implements_moved [OF assms(1) k1(2)]) (auto simp: rr_ok_def implements_def s1_def rr_state_def)
    then show ?thesis using b rb False' k1(2) by (simp add: moved_def)
  next
    case True
    let ?n = "rr_next ?i s1"
    have ri: "?i \<in> set (rr_members s1)" "rr_current s1 \<in> set (rr_members s1)" "rr_ready s1 ?i"
      using c False by (auto simp: s1_def)
    note n = rr_next_props [OF ri]
    have na: "?n \<noteq> a" using n(2) by (auto simp: s1_def)
    have run: "runnable (k_tasks k1) ?i x \<longleftrightarrow> rr_ready s1 x \<and> x \<noteq> ?i" if "x \<in> set (rr_members s1)" for x
      using runnable_rr [OF assms(1), of x] that k1(4) False by (auto simp: runnable_def s1_def)
    have sr: "sched_ring k1 (rr_members s1)" using assms(1) moved_ring [OF k1(2)] by (simp add: implements_def s1_def)
    have cur: "current_task k1 = rr_current s1" using k1(3) c(3) by (simp add: s1_def)
    have nt: "next_task L k1 = Ret ?n k1" by (rule next_task_rr [OF sr cur ri(2) run])
    have nz: "?n \<noteq> 0" using implements_member(1) [OF assms(1)] n(1) by (simp add: s1_def)
    obtain tn where tn: "k_tasks k ?n = Some tn" using implements_member(2) [OF assms(1)] n(1) by (auto simp: s1_def)
    have d1: "dead_task k1 = 0" using k1(2) c(4) by (simp add: moved_def)
    have t1: "k_tasks k1 a = Some (t\<lparr>t_state := TASK_BLOCKED\<rparr>)" "k_tasks k1 ?n = Some tn" using k1(4) tn na by auto
    obtain k' where k': "context_switch L a ?n k1 = Ret Switched k'" "moved k1 k' ((state_of k1)(?n := TASK_RUNNING))"
      "current_task k' = ?n"
      using context_switch_effect [OF disjI1 [OF d1] a nz na [symmetric] t1] by blast
    have e: "block_task L a k = Ret Switched k'" using b nt nz na k'(1) True by (simp add: after_switch_def)
    have ok: "rr_ok ?i (rr_tick ?i s1)" using n ri assms(1) by (simp add: rr_ok_def rr_tick_def implements_def s1_def)
    have "((state_of k1)(?n := TASK_RUNNING)) x = rr_state (rr_tick ?i s1) x" if "x \<in> set (rr_members s)" for x
      using that assms(1) k1(4) True na by (auto simp: implements_def rr_state_def rr_tick_def s1_def)
    then have "implements L k' (rr_tick ?i s1)"
      using k'(3) by (intro implements_moved [OF assms(1) moved_trans [OF k1(2) k'(2)] ok]) (simp_all add: rr_tick_def s1_def)
    moreover have "dom (k_tasks k') = dom (k_tasks k)" using k1(2) k'(2) by (simp add: moved_def)
    ultimately show ?thesis using e rb True by auto
  qed
qed

lemma wake_sim:
  assumes "implements L k s" and "a \<in> set (rr_members s)"
  shows "\<exists>k'. wake_task a k = Ret () k' \<and> implements L k' (rr_wake a s) \<and> dom (k_tasks k') = dom (k_tasks k)"
proof -
  obtain t where t: "k_tasks k a = Some t" "a \<noteq> 0" using implements_member [OF assms] by blast
  show ?thesis
  proof (cases "rr_ready s a")
    case True
    then have "t_state t \<noteq> TASK_BLOCKED" "rr_wake a s = s"
      using implements_state [OF assms t(1)] by (simp_all add: rr_state_def rr_wake_def fun_upd_idem)
    then show ?thesis using assms t by (auto simp: wake_task_def with_task_def)
  next
    case False
    note c = implements_current [OF assms(1)]
    have st: "t_state t = TASK_BLOCKED" using implements_state [OF assms t(1)] False c(5) by (auto simp: rr_state_def)
    obtain k1 where k1: "set_task a (\<lambda>t. t\<lparr>t_state := TASK_READY\<rparr>) k = Ret () k1"
      "moved k k1 ((state_of k)(a := TASK_READY))" "current_task k1 = current_task k"
      using set_state [OF t(1), of TASK_READY] by blast
    have "implements L k1 (rr_wake a s)"
      using assms(1) c False k1(3)
      by (intro implements_moved [OF assms(1) k1(2)]) (auto simp: rr_ok_def implements_def rr_wake_def rr_state_def)
    moreover have "dom (k_tasks k1) = dom (k_tasks k)" using k1(2) by (simp add: moved_def)
    ultimately show ?thesis using t st k1(1) by (auto simp: wake_task_def with_task_def [of a "\<lambda>t k. if t_state t \<noteq> _ then _ k else _ k"])
  qed
qed

lemma dom_of_states:
  assumes "\<forall>x. x \<noteq> a \<longrightarrow> map_option f (T' x) = map_option f (T x)" and "a \<in> dom T'" and "a \<in> dom T"
  shows "dom T' = dom T"
proof (rule set_eqI)
  fix x show "x \<in> dom T' \<longleftrightarrow> x \<in> dom T"
  proof (cases "x = a")
    case False
    then have "map_option f (T' x) = map_option f (T x)" using assms(1) by blast
    then show ?thesis by (cases "T' x"; cases "T x") auto
  qed (use assms in blast)
qed

lemma spawn_sim:
  assumes "implements L k s" and "k_tasks k a = Some t" and "t_prev t = 0" "t_next t = 0" "t_state t = TASK_NEW"
    and "a \<noteq> 0" and "a \<notin> set (rr_members s)"
  shows "\<exists>k'. enqueue_task a k = Ret 1 k' \<and> implements L k' (rr_spawn a s) \<and> dom (k_tasks k') = dom (k_tasks k)"
proof -
  have sr: "sched_ring k (rr_members s)" using assms(1) by (simp add: implements_def)
  have cz: "current_task k \<noteq> 0" using implements_current [OF assms(1)] implements_member [OF assms(1)] by metis
  from enqueue_ring [OF sr assms(2-7)] cz obtain k' where k': "enqueue_task a k = Ret 1 k'" "sched_ring k' (rr_members s @ [a])"
    "current_task k' = current_task k" "state_of k' a = TASK_READY"
    "\<forall>x. x \<noteq> a \<longrightarrow> map_option t_state (k_tasks k' x) = map_option t_state (k_tasks k x)"
    "k' = k\<lparr>k_tasks := k_tasks k', task_ptr := a, current_task := current_task k'\<rparr>" by auto
  have d: "dead_task k' = dead_task k" by (subst k'(6)) simp
  have st: "state_of k' x = state_of k x" if "x \<in> set (rr_members s)" for x
  proof -
    have "map_option t_state (k_tasks k' x) = map_option t_state (k_tasks k x)" using that k'(5) assms(7) by metis
    then show ?thesis using implements_member(2) [OF assms(1) that] by auto
  qed
  have "implements L k' (rr_spawn a s)"
    using assms(1,7) k'(2,3,4) d st by (auto simp: implements_def rr_ok_def rr_spawn_def rr_state_def)
  moreover have "dom (k_tasks k') = dom (k_tasks k)"
    using k'(2) assms(2) by (intro dom_of_states [OF k'(5)]) (auto simp: sched_ring_def ring_def)
  ultimately show ?thesis using k'(1) by blast
qed

section \<open>Runs\<close>

text \<open>
  The invariant of every run: the tasks form one ring with the idle task, exactly the current task is
  running, and the idle task is never blocked.
\<close>

definition sched_inv :: "symbols \<Rightarrow> kernel \<Rightarrow> bool" where
  "sched_inv L k \<longleftrightarrow> (\<exists>s. implements L k s \<and> dom (k_tasks k) = set (rr_members s))"

text \<open>
  The calls the rest of the kernel makes: a clock tick, blocking and waking a task, admitting a new task,
  and the end of a call of \<open>block_task\<close> or \<open>schedule\<close> by a task that has been switched to again.
\<close>

inductive sched_step :: "symbols \<Rightarrow> kernel \<Rightarrow> kernel \<Rightarrow> bool" for L where
  tick: "schedule L k = Ret r k' \<Longrightarrow> sched_step L k k'"
| block: "k_tasks k a \<noteq> None \<Longrightarrow> block_task L a k = Ret r k' \<Longrightarrow> sched_step L k k'"
| wake: "k_tasks k a \<noteq> None \<Longrightarrow> wake_task a k = Ret () k' \<Longrightarrow> sched_step L k k'"
| spawn: "k_tasks k a = None \<Longrightarrow> a \<noteq> 0 \<Longrightarrow> t_prev t = 0 \<Longrightarrow> t_next t = 0 \<Longrightarrow> t_state t = TASK_NEW \<Longrightarrow>
    enqueue_task a (put_task a t k) = Ret r k' \<Longrightarrow> sched_step L k k'"
| resume: "resume_task (current_task k) k = Ret r k' \<Longrightarrow> sched_step L k k'"

lemma implements_put:
  assumes "implements L k s" and "k_tasks k a = None"
  shows "implements L (put_task a t k) s" "a \<notin> set (rr_members s)"
proof -
  have r: "ring (k_tasks k) (rr_members s)" using assms(1) by (simp add: implements_def sched_ring_def)
  then show a: "a \<notin> set (rr_members s)" using assms(2) ring_member by fastforce
  have "ring ((k_tasks k)(a \<mapsto> t)) (rr_members s)" using r a by (subst ring_cong [where tasks = "k_tasks k"]) auto
  then show "implements L (put_task a t k) s" using assms(1) a by (auto simp: implements_def sched_ring_def put_task_def)
qed

lemma resume_sim:
  assumes "implements L k s"
  shows "\<exists>k'. resume_task (current_task k) k = Ret Returned k' \<and> implements L k' s \<and> dom (k_tasks k') = dom (k_tasks k)"
proof -
  note c = implements_current [OF assms]
  obtain t where t: "k_tasks k (rr_current s) = Some t" using implements_member(2) [OF assms c(1)] by blast
  obtain k1 where k1: "set_task (rr_current s) (\<lambda>t. t\<lparr>t_state := TASK_RUNNING\<rparr>) k = Ret () k1"
    "moved k k1 ((state_of k)(rr_current s := TASK_RUNNING))" "current_task k1 = current_task k"
    using set_state [OF t, of TASK_RUNNING] by blast
  have "implements L k1 s" using assms c k1(3)
    by (intro implements_moved [OF assms k1(2)]) (auto simp: implements_def rr_state_def)
  then show ?thesis using k1 c(3) by (auto simp: resume_task_def moved_def)
qed

lemma sched_step_inv: "sched_step L k k' \<Longrightarrow> sched_inv L k \<Longrightarrow> sched_inv L k'"
proof (induction rule: sched_step.induct)
  case (tick k r k')
  then show ?case using schedule_sim [of L k] by (fastforce simp: sched_inv_def rr_tick_def)
next
  case (block k a r k')
  then obtain s where s: "implements L k s" "dom (k_tasks k) = set (rr_members s)" by (auto simp: sched_inv_def)
  then have "a \<in> set (rr_members s)" using block(1) by blast
  moreover have "rr_members (rr_block i a s) = rr_members s" for i by (simp add: rr_block_def rr_tick_def Let_def)
  ultimately show ?case using block_sim [OF s(1)] block(2) s(2) by (fastforce simp: sched_inv_def)
next
  case (wake k a k')
  then obtain s where s: "implements L k s" "dom (k_tasks k) = set (rr_members s)" by (auto simp: sched_inv_def)
  then have "a \<in> set (rr_members s)" using wake(1) by blast
  then show ?case using wake_sim [OF s(1)] wake(2) s(2) by (fastforce simp: sched_inv_def rr_wake_def)
next
  case (spawn k a t r k')
  then obtain s where s: "implements L k s" "dom (k_tasks k) = set (rr_members s)" by (auto simp: sched_inv_def)
  note p = implements_put(1) [OF s(1) spawn(1), of t] implements_put(2) [OF s(1) spawn(1)]
  have "k_tasks (put_task a t k) a = Some t" by (simp add: put_task_def)
  from spawn_sim [OF p(1) this spawn(3,4,5,2) p(2)] spawn(6) have "implements L k' (rr_spawn a s)"
    "dom (k_tasks k') = dom (k_tasks (put_task a t k))" by auto
  then show ?case using s(2) unfolding sched_inv_def by (intro exI [of _ "rr_spawn a s"]) (simp add: rr_spawn_def put_task_def)
next
  case (resume k r k')
  then show ?case using resume_sim [of L k] by (fastforce simp: sched_inv_def)
qed

lemma sched_inv_states:
  assumes "sched_inv L k"
  shows "\<exists>ts. sched_ring k ts \<and> dom (k_tasks k) = set ts \<and> current_task k \<in> set ts \<and> sym_idle_task L \<in> set ts
    \<and> (\<forall>x \<in> set ts. state_of k x \<in> {TASK_READY, TASK_RUNNING, TASK_BLOCKED} \<and> (state_of k x = TASK_RUNNING \<longleftrightarrow> x = current_task k))
    \<and> state_of k (sym_idle_task L) \<noteq> TASK_BLOCKED"
proof -
  obtain s where s: "implements L k s" "dom (k_tasks k) = set (rr_members s)" using assms by (auto simp: sched_inv_def)
  then show ?thesis unfolding implements_def rr_ok_def
    by (intro exI [of _ "rr_members s"]) (auto simp: rr_state_def)
qed

section \<open>Fairness\<close>

lemma circle_step:
  assumes "distinct ts" and "c \<in> set ts" and "circle c ts = us @ y # vs"
  shows "circle y ts = vs @ us @ [y]"
proof -
  obtain as bs where ts: "ts = as @ c # bs" "c \<notin> set as" using split_list_first [OF assms(2)] by blast
  then have e: "bs @ as @ [c] = us @ y # vs" using assms(3) circle_split [OF ts(2)] by simp
  consider ws where "bs = us @ y # ws" "vs = ws @ as @ [c]" | ps qs where "as = ps @ y # qs" "us = bs @ ps" "vs = qs @ [c]"
    | "y = c" "us = bs @ as" "vs = []"
    using e by (auto simp: append_eq_append_conv2 append_eq_Cons_conv Cons_eq_append_conv)
  then show ?thesis
  proof cases
    case 1
    then show ?thesis using circle_split [of y "as @ c # us" ws] assms(1) ts(1) by force
  next
    case 2
    then show ?thesis using circle_split [of y ps "qs @ c # bs"] assms(1) ts(1) by simp
  next
    case 3
    then show ?thesis using assms(3) by simp
  qed
qed

fun repeat_step :: "nat \<Rightarrow> ('s \<Rightarrow> 's option) \<Rightarrow> 's \<Rightarrow> 's option" where
  "repeat_step 0 f x = Some x"
| "repeat_step (Suc n) f x = (case f x of None \<Rightarrow> None | Some y \<Rightarrow> repeat_step n f y)"

lemma find_append: "find P (xs @ ys) = (case find P xs of None \<Rightarrow> find P ys | Some x \<Rightarrow> Some x)"
  by (induction xs) auto

text \<open>
  The distance to a task that may run decreases with every tick: the current task is passed on at most
  up to it.
\<close>

lemma rr_tick_closer:
  assumes "rr_ok idle s" and "rr_ready s a" and "a \<noteq> idle" and "circle (rr_current s) (rr_members s) = us @ a # vs"
  shows "rr_current (rr_tick idle s) = a \<or>
    (\<exists>us' vs'. circle (rr_current (rr_tick idle s)) (rr_members s) = us' @ a # vs' \<and> length us' < length us)"
proof -
  let ?P = "\<lambda>x. rr_ready s x \<and> x \<noteq> idle" and ?C = "circle (rr_current s) (rr_members s)"
  show ?thesis
  proof (cases "find ?P us")
    case None
    then have "find ?P ?C = Some a" using assms(2,3) by (simp add: assms(4) find_append)
    then show ?thesis by (simp add: rr_tick_def rr_next_def)
  next
    case (Some x)
    then have n: "rr_current (rr_tick idle s) = x" by (simp add: rr_tick_def rr_next_def assms(4) find_append)
    have "x \<in> set us" using Some by (auto simp: find_Some_iff)
    then obtain ps qs where us: "us = ps @ x # qs" by (auto simp: in_set_conv_decomp)
    then have "circle x (rr_members s) = (qs @ a # vs) @ ps @ [x]"
      using circle_step [of "rr_members s" "rr_current s" ps x "qs @ a # vs"] assms(1,4) by (simp add: rr_ok_def)
    then show ?thesis using n us by auto
  qed
qed

locale round_robin =
  fixes idle :: u32 and tick :: "'s \<Rightarrow> 's option" and rel :: "'s \<Rightarrow> rr \<Rightarrow> bool"
  assumes tick_sim: "rel x s \<Longrightarrow> \<exists>x'. tick x = Some x' \<and> rel x' (rr_tick idle s)"
    and rel_ok: "rel x s \<Longrightarrow> rr_ok idle s"
begin

lemma reaches:
  assumes "rel x s" and "rr_ready s a" and "a \<noteq> idle" and "circle (rr_current s) (rr_members s) = us @ a # vs"
  shows "\<exists>n x' s'. n \<le> Suc (length us) \<and> repeat_step n tick x = Some x' \<and> rel x' s' \<and> rr_current s' = a"
  using assms
proof (induction "length us" arbitrary: x s us vs rule: less_induct)
  case less
  obtain y where y: "tick x = Some y" "rel y (rr_tick idle s)" using tick_sim [OF less.prems(1)] by blast
  from rr_tick_closer [OF rel_ok [OF less.prems(1)] less.prems(2-4)] show ?case
  proof (elim disjE exE conjE)
    assume "rr_current (rr_tick idle s) = a"
    then show ?thesis using y by (intro exI [of _ 1] exI [of _ y] exI [of _ "rr_tick idle s"]) simp
  next
    fix us' vs' assume c: "circle (rr_current (rr_tick idle s)) (rr_members s) = us' @ a # vs'" "length us' < length us"
    from less.hyps [OF c(2) y(2), of vs'] less.prems c(1) obtain n x' s' where
      "n \<le> Suc (length us')" "repeat_step n tick y = Some x'" "rel x' s'" "rr_current s' = a" by (auto simp: rr_tick_def)
    then show ?thesis using y(1) c(2) by (intro exI [of _ "Suc n"] exI [of _ x'] exI [of _ s']) simp
  qed
qed

lemma fair:
  assumes "rel x s" and "a \<in> set (rr_members s)" and "rr_ready s a" and "a \<noteq> idle"
  shows "\<exists>n x' s'. n \<le> length (rr_members s) \<and> repeat_step n tick x = Some x' \<and> rel x' s' \<and> rr_current s' = a"
proof -
  have c: "rr_current s \<in> set (rr_members s)" "distinct (rr_members s)" using rel_ok [OF assms(1)] by (auto simp: rr_ok_def)
  obtain as bs where ts: "rr_members s = as @ rr_current s # bs" "rr_current s \<notin> set as" using split_list_first [OF c(1)] by blast
  have e: "circle (rr_current s) (rr_members s) = bs @ as @ [rr_current s]" using circle_split [OF ts(2)] ts(1) by simp
  have "a \<in> set (circle (rr_current s) (rr_members s))" using circle_member [OF c(1)] assms(2) by simp
  then obtain us vs where u: "circle (rr_current s) (rr_members s) = us @ a # vs" by (auto simp: in_set_conv_decomp)
  have "Suc (length us) \<le> length (rr_members s)" using arg_cong [OF u, of length] e ts(1) by simp
  then show ?thesis using reaches [OF assms(1,3,4) u] order_trans by blast
qed

end

definition clock_tick :: "symbols \<Rightarrow> kernel \<Rightarrow> kernel option" where
  "clock_tick L k = (case schedule L k of Ret _ k' \<Rightarrow> Some k' | Stop _ _ \<Rightarrow> None)"

interpretation kernel_rr: round_robin "sym_idle_task L" "clock_tick L" "implements L" for L
  using schedule_sim by unfold_locales (fastforce simp: clock_tick_def implements_def)+

section \<open>Start\<close>

text \<open>The first task that is admitted after the initialisation is the current one.\<close>

lemma init_sched_effect:
  assumes "sym_idle_task L \<noteq> 0" and "k_tasks k (sym_idle_task L) = None"
  shows "\<exists>k1 k2. init_scheduler k = Ret 1 k1 \<and> init_idle_task L k1 = Ret 1 k2 \<and> sched_ring k2 [sym_idle_task L] \<and> current_task k2 = 0
    \<and> dead_task k2 = dead_task k \<and> state_of k2 (sym_idle_task L) = TASK_READY \<and> dom (k_tasks k2) = insert (sym_idle_task L) (dom (k_tasks k))
    \<and> (\<forall>x. x \<noteq> sym_idle_task L \<longrightarrow> k_tasks k2 x = k_tasks k x)"
  using assms
  by (auto simp: init_scheduler_def init_idle_task_def Let_def split_def put_task_def on_machine_def sched_ring_def ring_def edges_def)

lemma first_task_implements:
  assumes "sched_ring k [i]" and "i = sym_idle_task L" and "current_task k = 0" and "dead_task k = 0" and "state_of k i = TASK_READY"
    and "k_tasks k a = Some t" and "t_prev t = 0" "t_next t = 0" "t_state t = TASK_NEW" and "a \<noteq> 0" and "a \<noteq> i"
  shows "\<exists>k'. enqueue_task a k = Ret 1 k' \<and> implements L k' \<lparr>rr_members = [i, a], rr_current = a, rr_ready = \<lambda>_. True\<rparr>"
proof -
  have "a \<notin> set [i]" using assms(11) by simp
  from enqueue_ring [OF assms(1,6-10) this] assms(3) obtain k' where k': "enqueue_task a k = Ret 1 k'" "sched_ring k' [i, a]"
    "current_task k' = a" "state_of k' a = TASK_RUNNING"
    "\<forall>x. x \<noteq> a \<longrightarrow> map_option t_state (k_tasks k' x) = map_option t_state (k_tasks k x)"
    "k' = k\<lparr>k_tasks := k_tasks k', task_ptr := a, current_task := current_task k'\<rparr>" by auto
  have "dead_task k' = 0" by (subst k'(6)) (simp add: assms(4))
  moreover have "map_option t_state (k_tasks k' i) = map_option t_state (k_tasks k i)" using k'(5) assms(11) by metis
  then have "state_of k' i = TASK_READY" using assms(1,5) by (cases "k_tasks k' i") (auto simp: sched_ring_def ring_def)
  ultimately show ?thesis using k' assms(2,11) by (auto simp: implements_def rr_ok_def rr_state_def)
qed

section \<open>Properties\<close>

definition sched_sample :: kernel where
  "sched_sample =
     (let i = sym_idle_task sample_symbols
      in boot_kernel\<lparr>k_tasks := [i \<mapsto> zero_task\<lparr>t_prev := 0xd0001000, t_next := 0xd0000000, t_state := TASK_READY\<rparr>,
            0xd0000000 \<mapsto> zero_task\<lparr>t_prev := i, t_next := 0xd0001000, t_state := TASK_RUNNING\<rparr>,
            0xd0001000 \<mapsto> zero_task\<lparr>t_prev := 0xd0000000, t_next := i, t_state := TASK_BLOCKED\<rparr>],
          task_ptr := 0xd0001000, current_task := 0xd0000000, dead_task := 0\<rparr>)"

abbreviation sample_rr :: rr where
  "sample_rr \<equiv> \<lparr>rr_members = [sym_idle_task sample_symbols, 0xd0000000, 0xd0001000], rr_current = 0xd0000000,
     rr_ready = (\<lambda>_. True)(0xd0001000 := False)\<rparr>"

definition idle_sample :: kernel where
  "idle_sample = boot_kernel\<lparr>
     k_tasks := [0xc0180000 \<mapsto> zero_task\<lparr>t_prev := 0xd0000000, t_next := 0xd0000000, t_state := TASK_RUNNING\<rparr>,
        0xd0000000 \<mapsto> zero_task\<lparr>t_prev := 0xc0180000, t_next := 0xc0180000, t_state := TASK_READY\<rparr>],
      task_ptr := 0xd0000000, current_task := 0xc0180000\<rparr>"

definition switch_sample :: kernel where
  "switch_sample = boot_kernel\<lparr>k_cpu := (k_cpu boot_kernel)\<lparr>r_esp := 0xd0003000\<rparr>,
     k_tasks := [0xd0000000 \<mapsto> zero_task, 0xd0001000 \<mapsto> zero_task\<lparr>t_kernel_stack_top := 0xd0005000\<rparr>]\<rparr>"

lemma sched_sample_implements: "implements sample_symbols sched_sample sample_rr"
  by (simp add: implements_def rr_ok_def sched_ring_def ring_def edges_def sched_sample_def sample_symbols_def rr_state_def)

text \<open>
  C1. \<open>schedule\<close>, \<open>block_task\<close>, \<open>wake_task\<close> and \<open>enqueue_task\<close> implement the round robin scheduler:
  from a kernel that implements an abstract state each of them returns, and the kernel it leaves implements the
  abstract step. In particular \<open>block_task\<close> never reaches its endless loop, and a linked ring, the current task and
  the states of the tasks always agree.
\<close>

theorem sched_refines:
  assumes "implements L k s"
  shows "(\<exists>r k'. schedule L k = Ret r k' \<and> implements L k' (rr_tick (sym_idle_task L) s))
    \<and> (\<forall>a \<in> set (rr_members s). \<exists>r k'. block_task L a k = Ret r k' \<and> implements L k' (rr_block (sym_idle_task L) a s))
    \<and> (\<forall>a \<in> set (rr_members s). \<exists>k'. wake_task a k = Ret () k' \<and> implements L k' (rr_wake a s))
    \<and> (\<forall>a t. k_tasks k a = None \<and> a \<noteq> 0 \<and> t_prev t = 0 \<and> t_next t = 0 \<and> t_state t = TASK_NEW \<longrightarrow>
        (\<exists>k'. enqueue_task a (put_task a t k) = Ret 1 k' \<and> implements L k' (rr_spawn a s)))"
proof (intro conjI ballI allI impI)
  fix a and t :: task_t assume t: "k_tasks k a = None \<and> a \<noteq> 0 \<and> t_prev t = 0 \<and> t_next t = 0 \<and> t_state t = TASK_NEW"
  have "k_tasks (put_task a t k) a = Some t" by (simp add: put_task_def)
  with spawn_sim [OF implements_put(1) [OF assms], of a t] implements_put(2) [OF assms] t
  show "\<exists>k'. enqueue_task a (put_task a t k) = Ret 1 k' \<and> implements L k' (rr_spawn a s)" by blast
qed (use schedule_sim [OF assms] block_sim [OF assms] wake_sim [OF assms] in blast)+

theorem sched_refines_witness:
  "implements sample_symbols sched_sample sample_rr
   \<and> (\<exists>r k'. schedule sample_symbols sched_sample = Ret r k' \<and> implements sample_symbols k' sample_rr)
   \<and> (\<exists>k'. wake_task 0xd0001000 sched_sample = Ret () k'
        \<and> implements sample_symbols k' (sample_rr\<lparr>rr_ready := \<lambda>_. True\<rparr>))"
proof -
  have "rr_tick (sym_idle_task sample_symbols) sample_rr = sample_rr"
    by (simp add: rr_tick_def rr_next_def circle_def sample_symbols_def)
  moreover have "rr_wake 0xd0001000 sample_rr = sample_rr\<lparr>rr_ready := \<lambda>_. True\<rparr>"
    by (simp add: rr_wake_def fun_upd_def)
  ultimately show ?thesis using sched_refines [OF sched_sample_implements] sched_sample_implements by auto
qed

text \<open>
  C2. From the initialisation on, in every state that clock ticks, blocking, waking and new tasks lead to, the tasks
  form one doubly linked ring that ends with \<open>task_ptr\<close> and has the idle task in it, every task is ready, running
  or blocked, exactly the current task is running, and the idle task is not blocked.
\<close>

theorem sched_invariant:
  assumes "sym_idle_task L \<noteq> 0" and "k_tasks k = Map.empty" and "dead_task k = 0"
    and "a \<noteq> 0" and "a \<noteq> sym_idle_task L" and "t_prev t = 0" and "t_next t = 0" and "t_state t = TASK_NEW"
  shows "\<exists>k1 k2 k3. init_scheduler k = Ret 1 k1 \<and> init_idle_task L k1 = Ret 1 k2 \<and> enqueue_task a (put_task a t k2) = Ret 1 k3
    \<and> (\<forall>k'. (sched_step L)\<^sup>*\<^sup>* k3 k' \<longrightarrow>
        (\<exists>ts. sched_ring k' ts \<and> dom (k_tasks k') = set ts \<and> current_task k' \<in> set ts \<and> sym_idle_task L \<in> set ts
          \<and> (\<forall>x \<in> set ts. state_of k' x \<in> {TASK_READY, TASK_RUNNING, TASK_BLOCKED} \<and> (state_of k' x = TASK_RUNNING \<longleftrightarrow> x = current_task k'))
          \<and> state_of k' (sym_idle_task L) \<noteq> TASK_BLOCKED))"
proof -
  let ?i = "sym_idle_task L"
  from init_sched_effect [OF assms(1), of k] assms(2,3) obtain k1 k2 where k2: "init_scheduler k = Ret 1 k1" "init_idle_task L k1 = Ret 1 k2"
    "sched_ring k2 [?i]" "current_task k2 = 0" "dead_task k2 = 0" "state_of k2 ?i = TASK_READY" "dom (k_tasks k2) = {?i}" by auto
  let ?p = "put_task a t k2"
  have p: "sched_ring ?p [?i]" "current_task ?p = 0" "dead_task ?p = 0" "state_of ?p ?i = TASK_READY" "k_tasks ?p a = Some t"
    using k2 assms(5) by (auto simp: put_task_def sched_ring_def ring_def edges_def)
  obtain k3 where k3: "enqueue_task a ?p = Ret 1 k3" "implements L k3 \<lparr>rr_members = [?i, a], rr_current = a, rr_ready = \<lambda>_. True\<rparr>"
    using first_task_implements [OF p(1) refl p(2-5) assms(6-8,4,5)] by blast
  have "dom (k_tasks ?p) = {?i, a}" using k2(7) by (auto simp: put_task_def)
  moreover have "dom (k_tasks k3) = dom (k_tasks ?p)"
  proof -
    have "\<forall>x. x \<noteq> a \<longrightarrow> map_option t_state (k_tasks k3 x) = map_option t_state (k_tasks ?p x)"
      using enqueue_ring [OF p(1,5) assms(6-8,4)] assms(5) k3(1) by auto
    moreover have "a \<in> dom (k_tasks k3)" using implements_member(2) [OF k3(2), of a] by auto
    ultimately show ?thesis using p(5) by (intro dom_of_states) blast+
  qed
  ultimately have inv: "sched_inv L k3" using k3(2) unfolding sched_inv_def by (intro exI conjI) auto
  have "sched_inv L k'" if "(sched_step L)\<^sup>*\<^sup>* k3 k'" for k'
    using that inv by (induction rule: rtranclp_induct) (auto intro: sched_step_inv)
  then show ?thesis
    by (intro exI [of _ k1] exI [of _ k2] exI [of _ k3] conjI [OF k2(1)] conjI [OF k2(2)] conjI [OF k3(1)] allI impI sched_inv_states)
qed

theorem sched_invariant_witness:
  "\<exists>k1 k2 k3. init_scheduler boot_kernel = Ret 1 k1 \<and> init_idle_task sample_symbols k1 = Ret 1 k2
    \<and> enqueue_task 0xd0000000 (put_task 0xd0000000 zero_task k2) = Ret 1 k3"
  using sched_invariant [of sample_symbols boot_kernel "0xd0000000" zero_task]
  by (auto simp: sample_symbols_def boot_kernel_def zero_task_def)

text \<open>
  Every ready task other than the idle task gets the processor after at most as many clock ticks as there
  are tasks.
\<close>

theorem round_robin_fair:
  assumes "implements L k s" and "a \<in> set (rr_members s)" and "state_of k a = TASK_READY" and "a \<noteq> sym_idle_task L"
  shows "\<exists>n k'. n \<le> length (rr_members s) \<and> repeat_step n (clock_tick L) k = Some k' \<and> current_task k' = a
    \<and> state_of k' a = TASK_RUNNING"
proof -
  have "rr_state s a = TASK_READY" using assms(1-3) by (auto simp: implements_def)
  then have "rr_ready s a" by (auto simp: rr_state_def split: if_splits)
  from kernel_rr.fair [OF assms(1,2) this assms(4)] obtain n k' s' where
    r: "n \<le> length (rr_members s)" "repeat_step n (clock_tick L) k = Some k'" "implements L k' s'" "rr_current s' = a" by blast
  then have "a \<in> set (rr_members s')" "current_task k' = a" using implements_current [OF r(3)] by auto
  then have "state_of k' a = TASK_RUNNING" using r(3,4) by (auto simp: implements_def rr_state_def)
  then show ?thesis using r \<open>current_task k' = a\<close> by blast
qed

theorem round_robin_fair_witness:
  "\<exists>n k'. n \<le> 2 \<and> repeat_step n (clock_tick sample_symbols) idle_sample = Some k' \<and> current_task k' = 0xd0000000"
proof -
  have "implements sample_symbols idle_sample \<lparr>rr_members = [0xc0180000, 0xd0000000], rr_current = 0xc0180000, rr_ready = \<lambda>_. True\<rparr>"
    by (simp add: implements_def rr_ok_def sched_ring_def ring_def edges_def idle_sample_def boot_kernel_def sample_symbols_def rr_state_def)
  note i = this
  have "state_of idle_sample 0xd0000000 = TASK_READY" by (simp add: idle_sample_def)
  moreover have "0xd0000000 \<noteq> sym_idle_task sample_symbols" by (simp add: sample_symbols_def)
  ultimately have "\<exists>n k'. n \<le> length [0xc0180000, 0xd0000000 :: u32] \<and> repeat_step n (clock_tick sample_symbols) idle_sample = Some k'
      \<and> current_task k' = 0xd0000000 \<and> state_of k' 0xd0000000 = TASK_RUNNING"
    using round_robin_fair [OF i] by simp
  then show ?thesis by (metis length_Cons list.size(3) numeral_2_eq_2)
qed

section \<open>Switching there and back\<close>

lemma push_word_mem [simp]: "kmem (k_paging (push_word v k)) = (kmem (k_paging k))(r_esp (k_cpu k) - 4 := v)"
    "k_cpu (push_word v k) = (k_cpu k)\<lparr>r_esp := r_esp (k_cpu k) - 4\<rparr>"
  by (simp_all add: push_word_def Let_def)

text \<open>The four words \<open>switch_to\<close> pushes, below the return address.\<close>

definition pushed :: "cpu \<Rightarrow> (u32 \<Rightarrow> u32) \<Rightarrow> u32 \<Rightarrow> u32" where
  "pushed c mem = mem(r_esp c - 4 := r_ebp c, r_esp c - 8 := r_ebx c, r_esp c - 12 := r_esi c, r_esp c - 16 := r_edi c)"

lemma switch_to_result:
  assumes "k_tasks k prev = Some p" and "k_tasks k nx = Some n" and "prev \<noteq> nx"
  shows "\<exists>k'. switch_to prev nx k = Ret () k'
    \<and> kmem (k_paging k') = pushed (k_cpu k) (kmem (k_paging k))
    \<and> k_tasks k' = (k_tasks k)(prev \<mapsto> p\<lparr>t_kernel_esp := r_esp (k_cpu k) - 16\<rparr>)
    \<and> (let sp = t_kernel_esp n; m = kmem (k_paging k')
       in k_cpu k' = (k_cpu k)\<lparr>r_edi := m sp, r_esi := m (sp + 4), r_ebx := m (sp + 8), r_ebp := m (sp + 12),
            r_eip := m (sp + 16), r_esp := sp + 20\<rparr>)"
  using assms
  by (auto simp: switch_to_def Let_def set_task_def with_task_def put_task_def pop_word_def split_def pushed_def algebra_simps)

text \<open>
  C26. A task that \<open>switch_to\<close> leaves for another one finds, when it is switched to again, its callee saved
  registers and its stack pointer as they were and goes on at the return address of its call, whatever ran in
  between, as long as the five words of its frame were left alone, also by the registers pushed for the other task.
\<close>

theorem switch_there_and_back:
  assumes "k_tasks k a = Some ta" and "k_tasks k b = Some tb" and "a \<noteq> b"
  shows "\<exists>k1. switch_to a b k = Ret () k1 \<and>
    (\<forall>k2. k_tasks k2 a = k_tasks k1 a \<and> k_tasks k2 b \<noteq> None
       \<and> (\<forall>i \<in> {0, 4, 8, 12, 16}. pushed (k_cpu k2) (kmem (k_paging k2)) (r_esp (k_cpu k) - 16 + i)
            = kmem (k_paging k1) (r_esp (k_cpu k) - 16 + i)) \<longrightarrow>
       (\<exists>k3. switch_to b a k2 = Ret () k3
         \<and> k_cpu k3 = (k_cpu k)\<lparr>r_eip := kmem (k_paging k) (r_esp (k_cpu k)), r_esp := r_esp (k_cpu k) + 4\<rparr>))"
proof -
  obtain k1 where k1: "switch_to a b k = Ret () k1" "kmem (k_paging k1) = pushed (k_cpu k) (kmem (k_paging k))"
    "k_tasks k1 = (k_tasks k)(a \<mapsto> ta\<lparr>t_kernel_esp := r_esp (k_cpu k) - 16\<rparr>)"
    using switch_to_result [OF assms] by blast
  have "\<exists>k3. switch_to b a k2 = Ret () k3
      \<and> k_cpu k3 = (k_cpu k)\<lparr>r_eip := kmem (k_paging k) (r_esp (k_cpu k)), r_esp := r_esp (k_cpu k) + 4\<rparr>"
    if k2: "k_tasks k2 a = k_tasks k1 a" "k_tasks k2 b = Some tb'"
      "\<forall>i \<in> {0, 4, 8, 12, 16}. pushed (k_cpu k2) (kmem (k_paging k2)) (r_esp (k_cpu k) - 16 + i) = kmem (k_paging k1) (r_esp (k_cpu k) - 16 + i)"
    for k2 tb'
  proof -
    have "k_tasks k2 a = Some (ta\<lparr>t_kernel_esp := r_esp (k_cpu k) - 16\<rparr>)" using k2(1) k1(3) by simp
    from switch_to_result [OF k2(2) this assms(3) [symmetric]] obtain k3 where k3: "switch_to b a k2 = Ret () k3"
      "kmem (k_paging k3) = pushed (k_cpu k2) (kmem (k_paging k2))"
      "k_cpu k3 = (let sp = r_esp (k_cpu k) - 16; m = kmem (k_paging k3) in (k_cpu k2)\<lparr>r_edi := m sp, r_esi := m (sp + 4),
         r_ebx := m (sp + 8), r_ebp := m (sp + 12), r_eip := m (sp + 16), r_esp := sp + 20\<rparr>)" by (auto simp: Let_def)
    have "k_cpu k3 = (k_cpu k)\<lparr>r_eip := kmem (k_paging k) (r_esp (k_cpu k)), r_esp := r_esp (k_cpu k) + 4\<rparr>"
      using k2(3) unfolding k3(3) k3(2) Let_def by (simp add: k1(2)) (simp add: pushed_def)
    then show ?thesis using k3(1) by blast
  qed
  then show ?thesis using k1(1) by blast
qed

theorem switch_there_and_back_witness:
  "\<exists>k1. switch_to 0xd0000000 0xd0001000 sched_sample = Ret () k1
    \<and> (\<exists>k3. switch_to 0xd0001000 0xd0000000 (k1\<lparr>k_cpu := (k_cpu k1)\<lparr>r_esp := 0xd0008000, r_ebx := 7\<rparr>\<rparr>) = Ret () k3
         \<and> k_cpu k3 = (k_cpu sched_sample)\<lparr>r_eip := 0, r_esp := 4\<rparr>)"
proof -
  have t: "\<exists>ta. k_tasks sched_sample 0xd0000000 = Some ta" "\<exists>tb. k_tasks sched_sample 0xd0001000 = Some tb"
    by (simp_all add: sched_sample_def sample_symbols_def)
  have z: "r_esp (k_cpu sched_sample) = 0" "kmem (k_paging sched_sample) 0 = 0"
    by (simp_all add: sched_sample_def boot_kernel_def Let_def)
  obtain k1 where k1: "switch_to 0xd0000000 0xd0001000 sched_sample = Ret () k1"
    "\<And>k2. k_tasks k2 0xd0000000 = k_tasks k1 0xd0000000 \<Longrightarrow> k_tasks k2 0xd0001000 \<noteq> None \<Longrightarrow>
      \<forall>i \<in> {0, 4, 8, 12, 16}. pushed (k_cpu k2) (kmem (k_paging k2)) (0 - 16 + i) = kmem (k_paging k1) (0 - 16 + i) \<Longrightarrow>
      \<exists>k3. switch_to 0xd0001000 0xd0000000 k2 = Ret () k3 \<and> k_cpu k3 = (k_cpu sched_sample)\<lparr>r_eip := 0, r_esp := 4\<rparr>"
    using switch_there_and_back [of sched_sample "0xd0000000" _ "0xd0001000"] t unfolding z by fastforce
  have "k_tasks k1 0xd0001000 \<noteq> None" using switch_to_result [of sched_sample "0xd0000000" _ "0xd0001000"] t k1(1) by fastforce
  then show ?thesis using k1(2) [of "k1\<lparr>k_cpu := (k_cpu k1)\<lparr>r_esp := 0xd0008000, r_ebx := 7\<rparr>\<rparr>"] k1(1) by (simp add: pushed_def)
qed

text \<open>
  C27. The stack \<open>prepare_user_task_stack\<close> builds makes the first switch to the task enter user mode: the switch
  returns to \<open>enter_user_task\<close>, whose \<^verbatim>\<open>iret\<close> loads the given entry point, stack pointer and flags and the user
  segment selectors.
\<close>

theorem first_switch_enters_user:
  assumes "k_tasks k a = Some ta" and "k_tasks k b = Some tb" and "a \<noteq> b"
    and "\<forall>i \<in> set [1..<12]. \<forall>j \<in> set [1..<5]. t_kernel_stack_top tb - 4 * of_nat i \<noteq> r_esp (k_cpu k) - 4 * of_nat j"
  shows "\<exists>k1 k2. prepare_user_task_stack L b entry_point flags user_esp k = Ret 1 k1 \<and> switch_to a b k1 = Ret () k2
    \<and> r_eip (k_cpu k2) = sym_enter_user_task L
    \<and> enter_user_task k2 = \<lparr>u_eip = entry_point, u_cs = GDT_USER_CODE_SELECTOR, u_eflags = flags, u_esp = user_esp,
         u_ss = GDT_USER_DATA_SELECTOR, u_data_segments = GDT_USER_DATA_SELECTOR\<rparr>"
proof -
  let ?top = "t_kernel_stack_top tb" and ?sp = "r_esp (k_cpu k)"
  define m where "m = snd (fold push [ucast GDT_USER_DATA_SELECTOR, user_esp, flags, ucast GDT_USER_CODE_SELECTOR,
             entry_point, 0, sym_enter_user_task L, 0, 0, 0, 0] (?top, kmem (k_paging k)))"
  define k1 where "k1 = put_task b (tb\<lparr>t_kernel_esp := ?top - 44\<rparr>) (k\<lparr>k_paging := (k_paging k)\<lparr>kmem := m\<rparr>\<rparr>)"
  have p: "prepare_user_task_stack L b entry_point flags user_esp k = Ret 1 k1"
    using assms(2) by (simp add: prepare_user_task_stack_def with_task_def set_task_def put_task_def push_def k1_def m_def)
  have t: "k_tasks k1 a = Some ta" "k_tasks k1 b = Some (tb\<lparr>t_kernel_esp := ?top - 44\<rparr>)" using assms by (simp_all add: k1_def put_task_def)
  have keep: "pushed (k_cpu k) mem (?top - 4 * of_nat i) = mem (?top - 4 * of_nat i)" if "i \<in> set [1..<12]" for i mem
    using bspec [OF assms(4) that] by (simp add: pushed_def upt_rec)
  have keeps: "pushed (k_cpu k) mem (?top - n) = mem (?top - n)" if "n \<in> {4, 8, 12, 16, 20, 24, 28, 32, 36, 40, 44}" for n mem
    using that keep [of 1] keep [of 2] keep [of 3] keep [of 4] keep [of 5] keep [of 6] keep [of 7] keep [of 8] keep [of 9] keep [of 10] keep [of 11]
    by auto
  obtain k2 where k2: "switch_to a b k1 = Ret () k2" "kmem (k_paging k2) = pushed (k_cpu k) m"
    "r_eip (k_cpu k2) = pushed (k_cpu k) m (?top - 28)" "r_esp (k_cpu k2) = ?top - 24"
    using switch_to_result [OF t assms(3)] by (auto simp: Let_def k1_def put_task_def)
  show ?thesis
    using p k2(1) by (auto simp: k2(2-4) enter_user_task_def Let_def keeps m_def push_def)
qed

theorem first_switch_enters_user_witness:
  "\<exists>k1 k2. prepare_user_task_stack sample_symbols 0xd0001000 0x8000 0x202 0xbffff000 switch_sample = Ret 1 k1
    \<and> switch_to 0xd0000000 0xd0001000 k1 = Ret () k2
    \<and> u_eip (enter_user_task k2) = 0x8000"
proof -
  have t: "k_tasks switch_sample 0xd0000000 = Some zero_task"
    "k_tasks switch_sample 0xd0001000 = Some (zero_task\<lparr>t_kernel_stack_top := 0xd0005000\<rparr>)"
    by (simp_all add: switch_sample_def)
  have d: "\<forall>i \<in> set [1..<12]. \<forall>j \<in> set [1..<5]. t_kernel_stack_top (zero_task\<lparr>t_kernel_stack_top := 0xd0005000\<rparr>) - 4 * of_nat i
      \<noteq> r_esp (k_cpu switch_sample) - 4 * of_nat j"
    by (simp add: switch_sample_def upt_rec)
  from first_switch_enters_user [OF t _ d] show ?thesis by fastforce
qed

end
