(* ===== verification/Irq.thy ===== *)
theory Irq
  imports Sched_Spec
begin

text \<open>
  The dispatcher of hardware interrupts, \<open>interrupts_dispatch\<close> of \<^verbatim>\<open>kernel/interrupts.c\<close>, with the handlers that the timer,
  the keyboard and the disk register, and preemption: every fifth clock interrupt calls the scheduler. Handlers run with
  interrupts disabled, so the tick counter of \<^verbatim>\<open>kernel/timer.c\<close> is a variable here, handed through the calls.
\<close>

section \<open>Model\<close>

definition run_irq_handler :: "env \<Rightarrow> irq_handler \<Rightarrow> u32 \<Rightarrow> kernel \<Rightarrow> u32 \<times> kernel" where
  "run_irq_handler E h timer_ticks k =
     (case h of
        Timer_irq_handler \<Rightarrow> (timer_irq_handler timer_ticks, k)
      | Keyboard_irq_handler \<Rightarrow>
          let (t, m) = keyboard_irq_handler E (k_tty k) (k_machine k) in (timer_ticks, k\<lparr>k_tty := t, k_machine := m\<rparr>)
      | Ata_irq_handler \<Rightarrow> (timer_ticks, on_machine (ata_irq_handler E) k))"

definition interrupts_dispatch :: "env \<Rightarrow> symbols \<Rightarrow> u8 \<Rightarrow> u32 \<Rightarrow> (u32 \<times> switched) op" where
  "interrupts_dispatch E L irq timer_ticks k =
     (let (timer_ticks, k) =
            (if irq < 16
             then case irq_handlers (k_interrupts k) ! unat irq of
                    Some h \<Rightarrow> run_irq_handler E h timer_ticks k
                  | None \<Rightarrow> (timer_ticks, k)
             else (timer_ticks, k));
          k = on_machine (pic_send_eoi irq) k
      in if irq = 0 \<and> timer_ticks mod SCHEDULER_TICK_INTERVAL = 0
         then and_then (schedule L k) (\<lambda>r. Ret (timer_ticks, r))
         else Ret (timer_ticks, Returned) k)"

section \<open>What an interrupt does to the scheduler\<close>

text \<open>The state that interrupts do not change except through \<open>schedule\<close>.\<close>

definition same_tasks :: "kernel \<Rightarrow> kernel \<Rightarrow> bool" where
  "same_tasks k k' \<longleftrightarrow> k_tasks k' = k_tasks k \<and> task_ptr k' = task_ptr k \<and> current_task k' = current_task k \<and> dead_task k' = dead_task k
     \<and> k_interrupts k' = k_interrupts k"

lemma implements_same: "implements L k s \<Longrightarrow> same_tasks k k' \<Longrightarrow> implements L k' s"
  by (simp add: implements_def same_tasks_def sched_ring_def)

lemma run_irq_handler_same: "same_tasks k (snd (run_irq_handler E h t k))"
  by (simp add: run_irq_handler_def same_tasks_def on_machine_def split_def Let_def split: irq_handler.splits)

lemma dispatch_other:
  assumes "irq \<noteq> 0"
  shows "\<exists>t' k'. interrupts_dispatch E L irq t k = Ret (t', Returned) k' \<and> same_tasks k k'"
proof -
  define p where "p = (if irq < 16 then case irq_handlers (k_interrupts k) ! unat irq of Some h \<Rightarrow> run_irq_handler E h t k | None \<Rightarrow> (t, k)
    else (t, k))"
  have "same_tasks k (snd p)" using run_irq_handler_same by (auto simp: p_def same_tasks_def split: option.splits)
  then have "same_tasks k (on_machine (pic_send_eoi irq) (snd p))" by (simp add: same_tasks_def on_machine_def)
  moreover have "interrupts_dispatch E L irq t k = Ret (fst p, Returned) (on_machine (pic_send_eoi irq) (snd p))"
    using assms by (simp add: interrupts_dispatch_def p_def [symmetric] split_def)
  ultimately show ?thesis by blast
qed

lemma switch_to_interrupts: "switch_to p n k = Ret r k' \<Longrightarrow> k_interrupts k' = k_interrupts k"
  by (auto simp: switch_to_def push_word_def pop_word_def Let_def and_then_Ret_iff access_defs put_defs split: option.splits)

lemma context_switch_interrupts:
  assumes "context_switch L p n k = Ret r k'" and "dead_task k = 0"
  shows "k_interrupts k' = k_interrupts k"
  using assms by (auto simp: context_switch_def reap_dead_task_def and_then_Ret_iff access_defs put_defs Let_def on_machine_def
      push_word_def set_current_task_def split: option.splits if_splits dest!: switch_to_interrupts)

lemma schedule_interrupts:
  assumes "schedule L k = Ret r k'" and "dead_task k = 0"
  shows "k_interrupts k' = k_interrupts k"
  using assms by (auto simp: schedule_def reap_dead_task_def next_task_def and_then_Ret_iff access_defs put_defs Let_def get_current_task_def
      after_switch_def resume_task_def split: option.splits if_splits switched.splits dest!: context_switch_interrupts)
    (metis switched.exhaust)+

text \<open>A clock interrupt is a step of the round robin every fifth tick, and no step otherwise.\<close>

definition timer_ready :: "symbols \<Rightarrow> kernel \<Rightarrow> rr \<Rightarrow> bool" where
  "timer_ready L k s \<longleftrightarrow> implements L k s \<and> irq_handlers (k_interrupts k) ! 0 = Some Timer_irq_handler"

lemma timer_interrupt_sim:
  assumes "timer_ready L k s"
  shows "\<exists>r k'. interrupts_dispatch E L 0 t k = Ret (t + 1, r) k'
    \<and> timer_ready L k' (if (t + 1) mod SCHEDULER_TICK_INTERVAL = 0 then rr_tick (sym_idle_task L) s else s)"
proof -
  let ?k = "on_machine (pic_send_eoi 0) k"
  have h: "irq_handlers (k_interrupts k) ! 0 = Some Timer_irq_handler" and i: "implements L k s" using assms by (simp_all add: timer_ready_def)
  have st: "same_tasks k ?k" by (simp add: same_tasks_def on_machine_def)
  note i' = implements_same [OF i st]
  have e: "interrupts_dispatch E L 0 t k = (if (t + 1) mod SCHEDULER_TICK_INTERVAL = 0 then and_then (schedule L ?k) (\<lambda>r. Ret (t + 1, r))
      else Ret (t + 1, Returned) ?k)"
    using h by (simp add: interrupts_dispatch_def run_irq_handler_def timer_irq_handler_def Let_def)
  have d: "dead_task ?k = 0" using i' by (simp add: implements_def)
  obtain r k' where s: "schedule L ?k = Ret r k'" "implements L k' (rr_tick (sym_idle_task L) s)" using schedule_sim [OF i'] by blast
  have "k_interrupts k' = k_interrupts k" using schedule_interrupts [OF s(1) d] st by (simp add: same_tasks_def)
  then show ?thesis using e s i' h st by (auto simp: timer_ready_def same_tasks_def)
qed

section \<open>Preemption\<close>

text \<open>Clock interrupts up to and including the next one that calls the scheduler; five are always enough.\<close>

definition timer_interrupt :: "env \<Rightarrow> symbols \<Rightarrow> u32 \<times> kernel \<Rightarrow> (u32 \<times> kernel) option" where
  "timer_interrupt E L x = (case interrupts_dispatch E L 0 (fst x) (snd x) of Ret (t, _) k \<Rightarrow> Some (t, k) | Stop _ _ \<Rightarrow> None)"

definition quantum :: "u32 \<Rightarrow> nat" where
  "quantum t = (if t + 1 = 0 then 1 else 5 - unat t mod 5)"

definition time_slice :: "env \<Rightarrow> symbols \<Rightarrow> u32 \<times> kernel \<Rightarrow> (u32 \<times> kernel) option" where
  "time_slice E L x = repeat_step (quantum (fst x)) (timer_interrupt E L) x"

lemma repeat_step_add: "repeat_step (m + n) f x = Option.bind (repeat_step m f x) (repeat_step n f)"
  by (induction m arbitrary: x) (auto split: option.splits)

lemma quantum_bounds: "0 < quantum t" "quantum t \<le> 5"
  by (simp_all add: quantum_def)

lemma unat_in_slice: "t + 1 \<noteq> 0 \<Longrightarrow> j \<le> quantum t \<Longrightarrow> unat (t + of_nat j) = unat t + j"
proof -
  assume t: "t + 1 \<noteq> 0" and j: "j \<le> quantum t"
  have "unat t \<noteq> 4294967295"
  proof
    assume "unat t = 4294967295"
    then have "t = 0xffffffff" by (simp add: word_unat_eq_iff)
    then show False using t by simp
  qed
  then have "unat t < 4294967295" using unat_u32_lt [of t] by linarith
  moreover have "unat t + 5 - unat t mod 5 = (unat t div 5 + 1) * 5" using mod_less_divisor [of 5 "unat t"] by (simp add: algebra_simps minus_mod_eq_mult_div [symmetric])
  moreover have "(unat t div 5 + 1) * 5 \<le> 4294967295" using \<open>unat t < 4294967295\<close> by simp
  ultimately have "unat t + j < 4294967296" using t j by (simp add: quantum_def)
  moreover have "j < 4294967296" using j quantum_bounds(2) [of t] by simp
  ultimately show ?thesis by (simp add: unat_add_u32_nowrap)
qed

lemma quantum_first:
  assumes "0 < j" and "j \<le> quantum t"
  shows "(t + of_nat j) mod SCHEDULER_TICK_INTERVAL = 0 \<longleftrightarrow> j = quantum t"
proof (cases "t + 1 = 0")
  case True
  moreover from this have "j = 1" using assms by (simp add: quantum_def)
  ultimately show ?thesis by (simp add: quantum_def)
next
  case False
  have "(t + of_nat j) mod SCHEDULER_TICK_INTERVAL = 0 \<longleftrightarrow> (unat t + j) mod 5 = 0"
    using unat_in_slice [OF False assms(2)] by (simp add: word_unat_eq_iff unat_mod)
  also have "\<dots> \<longleftrightarrow> (unat t mod 5 + j) mod 5 = 0" by (simp add: mod_add_left_eq)
  also have "\<dots> \<longleftrightarrow> unat t mod 5 + j = 5"
  proof -
    have "0 < unat t mod 5 + j" "unat t mod 5 + j \<le> 5" using assms False mod_less_divisor [of 5 "unat t"] by (simp_all add: quantum_def)
    then show ?thesis by (cases "unat t mod 5 + j = 5") simp_all
  qed
  also have "\<dots> \<longleftrightarrow> j = 5 - unat t mod 5" using mod_less_divisor [of 5 "unat t"] by linarith
  finally show ?thesis using False by (simp add: quantum_def)
qed

lemma slice_steps:
  assumes "timer_ready L k s" and "\<forall>j. 0 < j \<and> j < q \<longrightarrow> (t + of_nat j) mod SCHEDULER_TICK_INTERVAL \<noteq> 0"
    and "(t + of_nat q) mod SCHEDULER_TICK_INTERVAL = 0" and "0 < q"
  shows "\<exists>k'. repeat_step q (timer_interrupt E L) (t, k) = Some (t + of_nat q, k') \<and> timer_ready L k' (rr_tick (sym_idle_task L) s)"
  using assms
proof (induction q arbitrary: t k)
  case (Suc q)
  obtain r k1 where k1: "interrupts_dispatch E L 0 t k = Ret (t + 1, r) k1"
    "timer_ready L k1 (if (t + 1) mod SCHEDULER_TICK_INTERVAL = 0 then rr_tick (sym_idle_task L) s else s)"
    using timer_interrupt_sim [OF Suc.prems(1)] by blast
  have st: "timer_interrupt E L (t, k) = Some (t + 1, k1)" using k1(1) by (simp add: timer_interrupt_def)
  show ?case
  proof (cases "q = 0")
    case True
    then show ?thesis using Suc.prems(3) st k1(2) by auto
  next
    case False
    have sh: "t + 1 + of_nat j = t + of_nat (Suc j)" for j by simp
    have "(t + 1) mod SCHEDULER_TICK_INTERVAL \<noteq> 0" using Suc.prems(2) [rule_format, of 1] False by simp
    then have a: "timer_ready L k1 s" using k1(2) by simp
    have b: "\<forall>j. 0 < j \<and> j < q \<longrightarrow> (t + 1 + of_nat j) mod SCHEDULER_TICK_INTERVAL \<noteq> 0"
      unfolding sh using Suc.prems(2) by (metis Suc_mono zero_less_Suc)
    have c: "(t + 1 + of_nat q) mod SCHEDULER_TICK_INTERVAL = 0" unfolding sh using Suc.prems(3) .
    from Suc.IH [OF a b c] False show ?thesis using st by (simp add: add.assoc)
  qed
qed simp

lemma time_slice_sim:
  assumes "timer_ready L (snd x) s"
  shows "\<exists>y. time_slice E L x = Some y \<and> timer_ready L (snd y) (rr_tick (sym_idle_task L) s)"
proof -
  let ?q = "quantum (fst x)"
  have a: "\<forall>j. 0 < j \<and> j < ?q \<longrightarrow> (fst x + of_nat j) mod SCHEDULER_TICK_INTERVAL \<noteq> 0" using quantum_first [of _ "fst x"] by auto
  have b: "(fst x + of_nat ?q) mod SCHEDULER_TICK_INTERVAL = 0" using quantum_first [of ?q "fst x"] quantum_bounds by simp
  from slice_steps [OF assms a b quantum_bounds(1), of E] obtain k' where
    "repeat_step ?q (timer_interrupt E L) x = Some (fst x + of_nat ?q, k')" "timer_ready L k' (rr_tick (sym_idle_task L) s)" by auto
  then show ?thesis by (simp add: time_slice_def)
qed

interpretation timer_rr: round_robin "sym_idle_task L" "time_slice E L" "\<lambda>x. timer_ready L (snd x)" for E L
  using time_slice_sim by unfold_locales (auto simp: timer_ready_def implements_def)

lemma slices_are_interrupts:
  "repeat_step n (time_slice E L) x = Some y \<Longrightarrow> \<exists>m \<le> 5 * n. repeat_step m (timer_interrupt E L) x = Some y"
proof (induction n arbitrary: x)
  case (Suc n)
  then obtain z where z: "time_slice E L x = Some z" "repeat_step n (time_slice E L) z = Some y" by (auto split: option.splits)
  from Suc.IH [OF z(2)] obtain m where m: "m \<le> 5 * n" "repeat_step m (timer_interrupt E L) z = Some y" by blast
  have "repeat_step (quantum (fst x) + m) (timer_interrupt E L) x = Some y"
    using z(1) m(2) by (simp add: repeat_step_add time_slice_def)
  then show ?case using m(1) quantum_bounds(2) [of "fst x"] by (intro exI [of _ "quantum (fst x) + m"]) auto
qed simp

section \<open>Properties\<close>

text \<open>
  C12. Preemption is fair: with the timer's handler in place, whatever the tick counter is, also across its wrap-around, and whatever the
  running tasks do in between, every ready task other than the idle task runs after at most five clock interrupts per task.
\<close>

theorem preemption_fair:
  assumes "implements L k s" and "irq_handlers (k_interrupts k) ! 0 = Some Timer_irq_handler" and "a \<in> set (rr_members s)"
    and "state_of k a = TASK_READY" and "a \<noteq> sym_idle_task L"
  shows "\<exists>n t' k'. n \<le> 5 * length (rr_members s) \<and> repeat_step n (timer_interrupt E L) (t, k) = Some (t', k') \<and> current_task k' = a
    \<and> state_of k' a = TASK_RUNNING"
proof -
  have "rr_state s a = TASK_READY" using assms(1,3,4) by (auto simp: implements_def)
  then have r: "rr_ready s a" by (auto simp: rr_state_def split: if_splits)
  have "timer_ready L (snd (t, k)) s" using assms(1,2) by (simp add: timer_ready_def)
  from timer_rr.fair [OF this assms(3) r assms(5), of E] obtain n y s' where
    y: "n \<le> length (rr_members s)" "repeat_step n (time_slice E L) (t, k) = Some y" "timer_ready L (snd y) s'" "rr_current s' = a" by blast
  obtain m where m: "m \<le> 5 * n" "repeat_step m (timer_interrupt E L) (t, k) = Some (fst y, snd y)" using slices_are_interrupts [OF y(2)] by auto
  have i: "implements L (snd y) s'" using y(3) by (simp add: timer_ready_def)
  then have "a \<in> set (rr_members s')" "current_task (snd y) = a" using implements_current [OF i] y(4) by auto
  moreover from this have "state_of (snd y) a = TASK_RUNNING" using i y(4) by (auto simp: implements_def rr_state_def)
  moreover have "m \<le> 5 * length (rr_members s)" using m(1) y(1) by linarith
  ultimately show ?thesis using m(2) by blast
qed

theorem preemption_fair_witness:
  "\<exists>n t' k'. n \<le> 10 \<and> repeat_step n (timer_interrupt (image_drive tiny_fs) sample_symbols)
      (0xfffffffe, idle_sample\<lparr>k_interrupts := register_irq_handler 0 Timer_irq_handler boot_interrupts\<rparr>) = Some (t', k')
    \<and> current_task k' = 0xd0000000"
proof -
  let ?k = "idle_sample\<lparr>k_interrupts := register_irq_handler 0 Timer_irq_handler boot_interrupts\<rparr>"
  let ?s = "\<lparr>rr_members = [0xc0180000, 0xd0000000], rr_current = 0xc0180000, rr_ready = \<lambda>_. True\<rparr>"
  have i: "implements sample_symbols ?k ?s"
    by (simp add: implements_def rr_ok_def sched_ring_def ring_def edges_def idle_sample_def boot_kernel_def sample_symbols_def rr_state_def)
  have h: "irq_handlers (k_interrupts ?k) ! 0 = Some Timer_irq_handler" by (simp add: register_irq_handler_def boot_interrupts_def)
  have st: "state_of ?k 0xd0000000 = TASK_READY" by (simp add: idle_sample_def)
  have "0xd0000000 \<in> set (rr_members ?s)" "0xd0000000 \<noteq> sym_idle_task sample_symbols" by (simp_all add: sample_symbols_def)
  from preemption_fair [OF i h this(1) st this(2), of "image_drive tiny_fs" "0xfffffffe"] obtain n t' k' where
    "n \<le> 5 * length (rr_members ?s)" "repeat_step n (timer_interrupt (image_drive tiny_fs) sample_symbols) (0xfffffffe, ?k) = Some (t', k')"
    "current_task k' = 0xd0000000" by blast
  then show ?thesis by (intro exI [of _ n] exI [of _ t'] exI [of _ k']) simp
qed

end
