(* ===== verification/Fault.thy ===== *)
theory Fault
  imports Mmap
begin

text \<open>
  Demand paging: \<^verbatim>\<open>kernel/fault.c\<close>, the dispatcher of \<^verbatim>\<open>kernel/exceptions.c\<close>, and
  \<open>padzero\<close> of \<^verbatim>\<open>kernel/mmap.c\<close>, which reaches user memory through it. User memory is the
  memory of the physical frames, reached through the tables of the directory in \<^verbatim>\<open>cr3\<close>.
\<close>

section \<open>User memory\<close>

definition translate :: "kernel \<Rightarrow> u32 \<Rightarrow> u32 option" where
  "translate k a =
     map_option (\<lambda>(frame, _). frame + (a AND 0xfff)) (page_walk (kmem (k_paging k)) (get_pd_vma (get_cr3 (k_machine k))) a)"

text \<open>
  The first 4 MiB of physical memory hold the kernel, whose objects have their own stores: a byte
  stored there is not described. An access of the page fault handler to a page that is not
  mapped enters the handler again and again.
\<close>

fun store_bytes :: "u32 \<Rightarrow> u8 list \<Rightarrow> unit op" where
  "store_bytes a [] k = Ret () k"
| "store_bytes a (b # bs) k =
     (case translate k a of
        None \<Rightarrow> Stop Diverges k
      | Some p \<Rightarrow> if p < 0x400000 then Stop Bad_access k
          else store_bytes (a + 1) bs (k\<lparr>k_phys := (k_phys k)(p := b)\<rparr>))"

section \<open>The page fault handler\<close>

definition read_cr2 :: "kernel \<Rightarrow> u32" where
  "read_cr2 k = cr2 (k_machine k)"

definition page_fault_panic :: "'a op" where
  "page_fault_panic k = Stop Panic (on_machine (println ''Unhandled page fault'') k)"

text \<open>Null if no area holds the address; \<open>None\<close> if the list is broken.\<close>

partial_function (option) find_vma :: "(u32 \<rightharpoonup> vm_area_t) \<Rightarrow> u32 \<Rightarrow> u32 \<Rightarrow> u32 option" where
  "find_vma vmas vma addr =
     (if vma = 0 then Some 0
      else case vmas vma of
        None \<Rightarrow> None
      | Some v \<Rightarrow> if addr \<ge> vm_start v \<and> addr < vm_end v then Some vma else find_vma vmas (vm_next v) addr)"

definition release_frame :: "u32 \<Rightarrow> unit op" where
  "release_frame phys_addr k =
     (case free_phys_frame phys_addr (k_frames k) of
        None \<Rightarrow> Stop Bad_access k
      | Some (_, f) \<Rightarrow> Ret () (k\<lparr>k_frames := f\<rparr>))"

definition table_for_page :: "symbols \<Rightarrow> u32 \<Rightarrow> u32 \<Rightarrow> u32 \<Rightarrow> unit op" where
  "table_for_page L pgd i phys_addr k =
     (if kmem (k_paging k) (slot pgd i) AND PAGE_FLAG_PRESENT = 0
      then let (page_table, pg) = alloc_pt L (k_paging k); k = k\<lparr>k_paging := pg\<rparr> in
        if page_table = 0 then and_then (release_frame phys_addr k) (\<lambda>_. page_fault_panic)
        else Ret () (k\<lparr>k_paging := pg\<lparr>kmem := (kmem pg)(slot pgd i :=
               get_pd_lma page_table OR PAGE_FLAG_PRESENT OR PAGE_FLAG_WRITABLE OR PAGE_FLAG_USER)\<rparr>\<rparr>)
      else Ret () k)"

definition set_file_pos :: "u32 \<Rightarrow> u32 \<Rightarrow> unit op" where
  "set_file_pos file pos = with_file file (\<lambda>f k. Ret () (put_file file (f\<lparr>f_pos := pos\<rparr>) k))"

definition fill_page :: "env \<Rightarrow> symbols \<Rightarrow> u32 \<Rightarrow> u32 \<Rightarrow> u32 \<Rightarrow> u32 \<Rightarrow> unit op" where
  "fill_page E L pgd vma page_addr phys_addr =
     with_vma vma (\<lambda>v k. if vm_file v = 0 then Ret () k
       else with_file (vm_file v) (\<lambda>f. with_inode (f_inode f) (\<lambda>i k.
         let file_offset = vm_offset v + (page_addr - vm_start v); file_size = i_size i in
         if file_offset < file_size
         then let bytes_to_read = (if file_size - file_offset < PAGE_SIZE then file_size - file_offset else PAGE_SIZE);
                  current_pos = f_pos f
           in and_then (set_file_pos (vm_file v) file_offset k) (\<lambda>_ k.
              and_then (read_file E L (vm_file v) bytes_to_read k) (\<lambda>(n, bs) k.
              and_then (store_bytes page_addr bs k) (\<lambda>_ k.
                if n \<noteq> bytes_to_read
                then and_then (set_file_pos (vm_file v) current_pos k) (\<lambda>_ k.
                  let (_, pg, m) = unmap_page pgd page_addr (k_paging k) (k_machine k)
                  in and_then (release_frame phys_addr (k\<lparr>k_paging := pg, k_machine := m\<rparr>)) (\<lambda>_. page_fault_panic))
                else set_file_pos (vm_file v) current_pos k)))
         else Ret () k)) k)"

definition page_fault_handler :: "env \<Rightarrow> symbols \<Rightarrow> u8 \<Rightarrow> u32 \<Rightarrow> unit op" where
  "page_fault_handler E L exc err_code k =
     (let task = get_current_task k in
      if task = 0 then page_fault_panic k
      else with_task task (\<lambda>t k.
        if t_mm t = 0 then page_fault_panic k
        else if err_code AND 0x1 \<noteq> 0 then page_fault_panic k
        else let fault_addr = read_cr2 k in with_mm (t_mm t) (\<lambda>mm k.
          case find_vma (k_vmas k) (mm_mmap mm) fault_addr of
            None \<Rightarrow> Stop Bad_access k
          | Some vma \<Rightarrow>
              if vma = 0 then page_fault_panic k
              else let page_addr = fault_addr AND PAGE_ADDRESS_MASK;
                       (phys_addr, fr) = alloc_phys_frame (k_frames k);
                       k = k\<lparr>k_frames := fr\<rparr>
                in if phys_addr = 0 then page_fault_panic k
                   else and_then (table_for_page L (mm_pgd mm) (pde_index page_addr) phys_addr k) (\<lambda>_ k.
                     let flags = PAGE_FLAG_PRESENT OR PAGE_FLAG_WRITABLE OR PAGE_FLAG_USER;
                         (ok, pg, m) = map_page (mm_pgd mm) page_addr phys_addr flags (k_paging k) (k_machine k);
                         k = k\<lparr>k_paging := pg, k_machine := m\<rparr>
                     in if ok = 0 then and_then (release_frame phys_addr k) (\<lambda>_. page_fault_panic)
                        else and_then (store_bytes page_addr (replicate (unat PAGE_SIZE) 0) k) (\<lambda>_.
                          fill_page E L (mm_pgd mm) vma page_addr phys_addr))) k) k)"

definition init_fault :: "u8 op" where
  "init_fault k =
     (let k = on_machine (print ''Setting up page fault handler ... '') k;
          k = k\<lparr>k_interrupts := register_exception_handler 14 Page_fault_handler (k_interrupts k)\<rparr>;
          k = on_machine (println ''Done'') k
      in Ret 1 k)"

definition exceptions_dispatch :: "env \<Rightarrow> symbols \<Rightarrow> u8 \<Rightarrow> u32 \<Rightarrow> unit op" where
  "exceptions_dispatch E L exc err_code k =
     (if exc < 32
      then case exception_handlers (k_interrupts k) ! unat exc of
             Some Page_fault_handler \<Rightarrow> page_fault_handler E L exc err_code k
           | None \<Rightarrow> Ret () k
      else Ret () k)"

section \<open>Kernel access to user memory\<close>

text \<open>
  An access to a page that is not present raises exception 14 with the address in \<^verbatim>\<open>cr2\<close> and is
  repeated when the handler returns; if the page is not present even then, it repeats for ever.
\<close>

definition access_user :: "env \<Rightarrow> symbols \<Rightarrow> u32 \<Rightarrow> u32 \<Rightarrow> u32 op" where
  "access_user E L err_code a k =
     (case translate k a of
        Some p \<Rightarrow> Ret p k
      | None \<Rightarrow> and_then (exceptions_dispatch E L 14 err_code (on_machine (\<lambda>m. m\<lparr>cr2 := a\<rparr>) k)) (\<lambda>_ k.
          case translate k a of Some p \<Rightarrow> Ret p k | None \<Rightarrow> Stop Diverges k))"

definition write_user :: "env \<Rightarrow> symbols \<Rightarrow> u32 \<Rightarrow> u8 \<Rightarrow> unit op" where
  "write_user E L a b k =
     and_then (access_user E L 0x2 a k) (\<lambda>p k.
       if p < 0x400000 then Stop Bad_access k else Ret () (k\<lparr>k_phys := (k_phys k)(p := b)\<rparr>))"

definition read_user :: "env \<Rightarrow> symbols \<Rightarrow> u32 \<Rightarrow> u8 op" where
  "read_user E L a k =
     and_then (access_user E L 0 a k) (\<lambda>p k. if p < 0x400000 then Stop Bad_access k else Ret (k_phys k p) k)"

definition memset_user :: "env \<Rightarrow> symbols \<Rightarrow> u32 \<Rightarrow> u8 \<Rightarrow> u32 \<Rightarrow> unit op" where
  "memset_user E L dest val n = each (\<lambda>i. write_user E L (dest + of_nat i) val) [0..<unat n]"

definition padzero :: "env \<Rightarrow> symbols \<Rightarrow> u32 \<Rightarrow> u8 op" where
  "padzero E L addr k =
     with_task (get_current_task k) (\<lambda>t. with_mm (t_mm t) (\<lambda>mm k.
       let num_zeros = align_up addr - addr;
           current_cr3 = get_cr3 (k_machine k);
           target_cr3 = get_pd_lma (mm_pgd mm);
           k = (if current_cr3 \<noteq> target_cr3 then on_machine (set_cr3 target_cr3) k else k)
       in and_then (memset_user E L addr 0 num_zeros k) (\<lambda>_ k.
            Ret 1 (if current_cr3 \<noteq> target_cr3 then on_machine (set_cr3 current_cr3) k else k)))) k"

section \<open>Storing bytes\<close>

fun put_bytes :: "u32 \<Rightarrow> u8 list \<Rightarrow> (u32 \<Rightarrow> u8) \<Rightarrow> u32 \<Rightarrow> u8" where
  "put_bytes p [] mem = mem"
| "put_bytes p (b # bs) mem = put_bytes (p + 1) bs (mem(p := b))"

lemma put_bytes_other: "(\<And>i. i < length bs \<Longrightarrow> x \<noteq> p + of_nat i) \<Longrightarrow> put_bytes p bs mem x = mem x"
proof (induction bs arbitrary: p mem)
  case (Cons b bs)
  have "x \<noteq> p + 1 + of_nat i" if "i < length bs" for i using Cons.prems [of "Suc i"] that by (simp add: add.assoc)
  moreover have "x \<noteq> p" using Cons.prems [of 0] by simp
  ultimately show ?case using Cons.IH [of "p + 1"] by simp
qed simp

lemma put_bytes_nth:
  "i < length bs \<Longrightarrow> length bs \<le> 2 ^ 32 \<Longrightarrow> put_bytes p bs mem (p + of_nat i) = bs ! i"
proof (induction bs arbitrary: p mem i)
  case (Cons b bs)
  show ?case
  proof (cases i)
    case 0
    have "p \<noteq> p + 1 + of_nat j" if "j < length bs" for j
    proof
      assume "p = p + 1 + of_nat j"
      then have "(of_nat (Suc j) :: u32) = 0" by (simp add: add.assoc)
      then have "unat (of_nat (Suc j) :: u32) = 0" by simp
      then have "Suc j mod 2 ^ 32 = 0" by (simp only: unat_of_nat take_bit_eq_mod) simp
      moreover have "Suc j < 2 ^ 32" using that Cons.prems(2) by simp
      ultimately show False by simp
    qed
    then show ?thesis using 0 put_bytes_other [of bs p "p + 1" "mem(p := b)"] by simp
  next
    case (Suc j)
    then show ?thesis using Cons.IH [of j "p + 1"] Cons.prems by (simp add: add.assoc)
  qed
qed simp

lemma translate_phys [simp]: "translate (k\<lparr>k_phys := x\<rparr>) a = translate k a"
  by (simp add: translate_def)

lemma store_bytes_mapped:
  assumes "\<And>i. i < length bs \<Longrightarrow> translate k (a + of_nat i) = Some (p + of_nat i) \<and> \<not> p + of_nat i < 0x400000"
  shows "store_bytes a bs k = Ret () (k\<lparr>k_phys := put_bytes p bs (k_phys k)\<rparr>)"
  using assms
proof (induction bs arbitrary: a p k)
  case (Cons b bs)
  let ?k = "k\<lparr>k_phys := (k_phys k)(p := b)\<rparr>"
  have "translate ?k (a + 1 + of_nat i) = Some (p + 1 + of_nat i) \<and> \<not> p + 1 + of_nat i < 0x400000" if "i < length bs" for i
    using Cons.prems [of "Suc i"] that by (simp add: add.assoc)
  from Cons.IH [OF this] show ?case using Cons.prems [of 0] by (simp add: fun_upd_def)
qed simp

text \<open>The bytes of a page.\<close>

lemma page_offset:
  assumes "page_aligned a" and "i < 4096"
  shows "unat (a + of_nat i) = unat a + i" "page_of (a + of_nat i) = a" "(a + of_nat i) AND 0xfff = of_nat i"
proof -
  have "unat a + i < 4294967296" using page_aligned_bound [OF assms(1)] assms(2) by simp
  then show u: "unat (a + of_nat i) = unat a + i" using assms(2) by (simp add: unat_add_u32_nowrap)
  obtain q where q: "unat a = 4096 * q" using assms(1) by (auto simp: page_aligned_def)
  show "page_of (a + of_nat i) = a" using u q assms(2) by (simp add: word_unat_eq_iff unat_page_of)
  show "(a + of_nat i) AND 0xfff = of_nat i"
    using u q assms(2) unfolding and_fff_eq by (simp add: word_unat_eq_iff take_bit_eq_mod unat_mod)
qed

section \<open>Address spaces\<close>

text \<open>
  The directory and its tables are well formed, the tables from the pool and the frames it maps are marked as
  in use, and no frame is mapped twice.
\<close>

definition space_ok :: "symbols \<Rightarrow> kernel \<Rightarrow> u32 \<Rightarrow> bool" where
  "space_ok L k pgd \<longleftrightarrow> tables_ok (kmem (k_paging k)) pgd \<and> pgd \<notin> pt_pages L \<and> pt_ok L (k_paging k) \<and> frames_ok (k_frames k)
     \<and> (\<forall>i. pde_present (kmem (k_paging k)) pgd i \<longrightarrow> table_of (kmem (k_paging k)) pgd i \<in> pt_pages L \<longrightarrow>
          table_of (kmem (k_paging k)) pgd i \<in> pt_used L (k_paging k))
     \<and> (\<forall>w p f. page_walk (kmem (k_paging k)) pgd w = Some (p, f) \<longrightarrow> p \<in> user_frames \<longrightarrow> p \<in> frames_used (k_frames k))
     \<and> (\<forall>v w p f g. page_walk (kmem (k_paging k)) pgd v = Some (p, f) \<longrightarrow> page_walk (kmem (k_paging k)) pgd w = Some (p, g) \<longrightarrow>
          p \<in> user_frames \<longrightarrow> page_of v = page_of w)"

lemma pd_address: "page_aligned a \<Longrightarrow> get_pd_vma (get_pd_lma a) = a"
  using page_of_aligned [OF page_aligned_diff [of a KERNEL_VMA_TO_LMA_OFFSET]]
  by (simp add: get_pd_lma_aligned get_pd_vma_page)

lemma table_entry:
  assumes "page_aligned q"
  shows "get_pd_vma (get_pd_lma q OR 7) = q" "(get_pd_lma q OR 7) AND PAGE_FLAG_PRESENT \<noteq> 0"
proof -
  have "page_aligned (get_pd_lma q)" using assms by (simp add: get_pd_lma_aligned page_aligned_diff)
  then have "(get_pd_lma q OR 7) AND PAGE_ADDRESS_MASK = get_pd_lma q" by (intro entry_parts(1)) simp_all
  then show "get_pd_vma (get_pd_lma q OR 7) = q"
    using assms by (simp add: get_pd_vma_def get_pd_lma_aligned)
  show "(get_pd_lma q OR 7) AND PAGE_FLAG_PRESENT \<noteq> 0" by (intro present_or) simp
qed

lemma flags_seven: "PAGE_FLAG_PRESENT OR PAGE_FLAG_WRITABLE OR PAGE_FLAG_USER = (7 :: u32)"
  "x OR PAGE_FLAG_PRESENT OR PAGE_FLAG_WRITABLE OR PAGE_FLAG_USER = (x OR 7 :: u32)"
  by (simp_all add: or.assoc)

text \<open>A new table changes no translation.\<close>

lemma new_table:
  assumes "tables_ok mem pgd" and "page_aligned q" and "q \<noteq> 0" and "q \<noteq> pgd" and "unat i < 1024" and "\<not> pde_present mem pgd i"
    and "\<forall>j. pde_present mem pgd j \<longrightarrow> table_of mem pgd j \<noteq> q"
    and "\<forall>b j. page_aligned b \<longrightarrow> unat j < 1024 \<longrightarrow> mem' (slot b j) = (if b = q then 0 else if b = pgd \<and> j = i then get_pd_lma q OR 7 else mem (slot b j))"
  shows "tables_ok mem' pgd" "pde_present mem' pgd j \<longleftrightarrow> j = i \<or> pde_present mem pgd j"
    "table_of mem' pgd i = q" "pde_present mem pgd j \<Longrightarrow> table_of mem' pgd j = table_of mem pgd j" "page_walk mem' pgd w = page_walk mem pgd w"
proof -
  have al: "page_aligned pgd" using assms(1) by (simp add: tables_ok_def)
  have dir: "mem' (slot pgd j) = (if j = i then get_pd_lma q OR 7 else mem (slot pgd j))" if "unat j < 1024" for j
    using assms(4,8) al that by simp
  have pr: "pde_present mem' pgd j \<longleftrightarrow> j = i \<or> pde_present mem pgd j" for j
    using assms(5) dir [of j] table_entry(2) [OF assms(2)] by (auto simp: pde_present_def split: if_splits)
  have ti: "table_of mem' pgd i = q" using dir [OF assms(5)] table_entry(1) [OF assms(2)] by (simp add: table_of_def)
  have tj: "table_of mem' pgd j = table_of mem pgd j" if "pde_present mem pgd j" for j
    using that assms(6) dir [of j] by (auto simp: pde_present_def table_of_def)
  show "tables_ok mem' pgd"
    unfolding tables_ok_def
  proof (intro conjI allI impI)
    fix j j' assume "pde_present mem' pgd j \<and> pde_present mem' pgd j' \<and> table_of mem' pgd j = table_of mem' pgd j'"
    then show "j = j'" using assms(1,7) ti tj unfolding pr tables_ok_def by metis
  next
    fix j assume "pde_present mem' pgd j"
    then have "j = i \<or> pde_present mem pgd j" by (simp add: pr)
    then show "table_of mem' pgd j \<noteq> 0" "table_of mem' pgd j \<noteq> pgd"
      using assms(1,3,4) ti tj [of j] unfolding tables_ok_def by metis+
  qed (rule al)
  show "pde_present mem' pgd j \<longleftrightarrow> j = i \<or> pde_present mem pgd j" "table_of mem' pgd i = q"
    "pde_present mem pgd j \<Longrightarrow> table_of mem' pgd j = table_of mem pgd j" by (rule pr, rule ti, rule tj)
  show "page_walk mem' pgd w = page_walk mem pgd w"
  proof (cases "pde_index w = i")
    case True
    then have "page_walk mem pgd w = None" using assms(5,6) by (simp add: page_walk_def pde_present_def)
    moreover have "mem' (slot (get_pd_vma (mem' (slot pgd (pde_index w)))) (pte_index w)) = 0"
      using ti assms(2,8) True by (simp add: table_of_def)
    ultimately show ?thesis by (simp add: page_walk_def Let_def)
  next
    case False
    have e: "mem' (slot pgd (pde_index w)) = mem (slot pgd (pde_index w))" using dir False by simp
    have t: "mem' (slot (table_of mem pgd (pde_index w)) (pte_index w)) = mem (slot (table_of mem pgd (pde_index w)) (pte_index w))"
      if "pde_present mem pgd (pde_index w)"
    proof -
      have "page_aligned (table_of mem pgd (pde_index w))" by (simp add: table_of_def)
      moreover have "table_of mem pgd (pde_index w) \<noteq> q" "table_of mem pgd (pde_index w) \<noteq> pgd"
        using that assms(1,7) unfolding tables_ok_def by blast+
      ultimately show ?thesis using assms(8) by simp
    qed
    show ?thesis using e t by (auto simp: page_walk_def Let_def pde_present_def table_of_def)
  qed
qed

lemma table_for_page_effect:
  assumes "space_ok L k pgd" and "pde_present (kmem (k_paging k)) pgd i \<or> pt_used L (k_paging k) \<noteq> pt_pages L" and "unat i < 1024"
  shows "\<exists>pg. table_for_page L pgd i p k = Ret () (k\<lparr>k_paging := pg\<rparr>) \<and> space_ok L (k\<lparr>k_paging := pg\<rparr>) pgd
    \<and> pde_present (kmem pg) pgd i \<and> (\<forall>w. page_walk (kmem pg) pgd w = page_walk (kmem (k_paging k)) pgd w)
    \<and> pd_in_use pg = pd_in_use (k_paging k)"
proof (cases "pde_present (kmem (k_paging k)) pgd i")
  case True
  then show ?thesis using assms(1) by (intro exI [of _ "k_paging k"]) (simp add: table_for_page_def pde_present_def)
next
  case False
  let ?mem = "kmem (k_paging k)"
  have ok: "tables_ok ?mem pgd" "pgd \<notin> pt_pages L" "pt_ok L (k_paging k)" "frames_ok (k_frames k)"
    "\<And>j. pde_present ?mem pgd j \<Longrightarrow> table_of ?mem pgd j \<in> pt_pages L \<Longrightarrow> table_of ?mem pgd j \<in> pt_used L (k_paging k)"
    using assms(1) by (auto simp: space_ok_def)
  obtain q pg1 where q: "alloc_pt L (k_paging k) = (q, pg1)" by fastforce
  have q0: "q \<noteq> 0" using pt_pool.alloc_succeeds_iff [OF ok(3)] q assms(2) False by simp
  note new = pt_pool.alloc_page [OF ok(3) q q0]
  have z: "page_zeroed q (k_paging k) pg1" "pd_in_use pg1 = pd_in_use (k_paging k)" using alloc_pt_zeroed [OF ok(3) q q0] by auto
  define pg where "pg = pg1\<lparr>kmem := (kmem pg1)(slot pgd i := get_pd_lma q OR 7)\<rparr>"
  have al: "page_aligned pgd" "page_aligned q" using ok(1) z(1) by (simp_all add: tables_ok_def page_zeroed_def)
  have qp: "q \<noteq> pgd" using new ok(2) by auto
  have tq: "\<forall>j. pde_present ?mem pgd j \<longrightarrow> table_of ?mem pgd j \<noteq> q" using ok(5) new by metis
  have m: "\<forall>b j. page_aligned b \<longrightarrow> unat j < 1024 \<longrightarrow>
      kmem pg (slot b j) = (if b = q then 0 else if b = pgd \<and> j = i then get_pd_lma q OR 7 else ?mem (slot b j))"
    using z(1) qp al(1) assms(3) by (auto simp: page_zeroed_def pg_def slot_eq_iff)
  note nt = new_table [OF ok(1) al(2) q0 qp assms(3) False tq m]
  have e: "table_for_page L pgd i p k = Ret () (k\<lparr>k_paging := pg\<rparr>)"
    using False q q0 assms(3) unfolding table_for_page_def flags_seven by (simp add: pg_def pde_present_def)
  have pu: "pt_ok L pg" "pt_used L pg = insert q (pt_used L (k_paging k))" using new by (simp_all add: pg_def pt_ok_def pt_used_def)
  have tu: "table_of (kmem pg) pgd j \<in> pt_used L pg" if "pde_present (kmem pg) pgd j" "table_of (kmem pg) pgd j \<in> pt_pages L" for j
    using that nt(2) [of j] nt(3) nt(4) [of j] ok(5) [of j] pu(2) by (cases "j = i") auto
  have "space_ok L (k\<lparr>k_paging := pg\<rparr>) pgd"
    using assms(1) nt(1) pu(1) tu unfolding space_ok_def by (simp add: nt(5))
  moreover have "pd_in_use pg = pd_in_use (k_paging k)" using z(2) by (simp add: pg_def)
  ultimately show ?thesis using e nt(2) nt(5) by blast
qed

lemma map_page_effect:
  assumes "tables_ok (kmem pg) pgd" and "pde_present (kmem pg) pgd (pde_index v)" and "page_aligned frame"
  shows "\<exists>pg' m'. map_page pgd v frame 7 pg m = (1, pg', m') \<and> tables_ok (kmem pg') pgd
    \<and> (\<forall>w. page_walk (kmem pg') pgd w = (if page_of w = page_of v then Some (frame, 7) else page_walk (kmem pg) pgd w))
    \<and> (\<forall>i. pde_present (kmem pg') pgd i = pde_present (kmem pg) pgd i)
    \<and> (\<forall>i. pde_present (kmem pg) pgd i \<longrightarrow> table_of (kmem pg') pgd i = table_of (kmem pg) pgd i)
    \<and> pg' = pg\<lparr>kmem := kmem pg'\<rparr> \<and> m' = m\<lparr>io_log := io_log m'\<rparr>"
proof -
  let ?t = "table_of (kmem pg) pgd (pde_index v)"
  define pg' where "pg' = pg\<lparr>kmem := (kmem pg)(slot ?t (pte_index v) := frame OR 7)\<rparr>"
  define m' where "m' = (if get_cr3 m = get_pd_lma pgd then flush_tlb_single v m else m)"
  have t: "?t \<noteq> 0" "?t \<noteq> pgd" "page_aligned ?t" "page_aligned pgd" using assms(1,2) by (auto simp: tables_ok_def table_of_def)
  have e: "map_page pgd v frame 7 pg m = (1, pg', m')"
    using t(1) by (simp add: map_page_def Let_def table_of_def pg'_def m'_def)
  have "kmem pg' (slot pgd i) = kmem pg (slot pgd i)" if "unat i < 1024" for i
    using t(2,3,4) that by (simp add: pg'_def slot_eq_iff)
  then have "pde_present (kmem pg') pgd i = pde_present (kmem pg) pgd i"
    "pde_present (kmem pg) pgd i \<Longrightarrow> table_of (kmem pg') pgd i = table_of (kmem pg) pgd i" for i
    by (auto simp: pde_present_def table_of_def)
  moreover have "(frame OR 7) AND PAGE_FLAG_PRESENT \<noteq> 0" by (intro present_or) simp
  ultimately show ?thesis
    using e walk_update [OF assms(1,2), of "frame OR 7"] entry_parts [OF assms(3), of 7]
    by (intro exI [of _ pg'] exI [of _ m']) (simp add: pg'_def m'_def flush_tlb_single_def log_event_def)
qed

lemma user_frame:
  assumes "p \<in> user_frames"
  shows "page_aligned p" "i < 4096 \<Longrightarrow> \<not> p + of_nat i < 0x400000" "p \<noteq> 0"
proof -
  obtain j where j: "p = pool_page 0 j" "1024 \<le> j" "j < 16384" using assms by (auto simp: user_frames_def pool_pages_def)
  then have u: "unat p = j * 4096" using unat_pool_page [OF frames_pool_at] by auto
  then show a: "page_aligned p" by (simp add: page_aligned_def)
  have ge: "0x400000 \<le> unat p" using u j(2) by linarith
  then show "p \<noteq> 0" by auto
  show "i < 4096 \<Longrightarrow> \<not> p + of_nat i < 0x400000"
    using page_offset(1) [OF a, of i] ge by (simp add: word_less_nat_alt)
qed

text \<open>A fresh frame mapped where nothing else is keeps the address space in order.\<close>

lemma space_frames:
  assumes "space_ok L k pgd" and "frames_ok fr" and "frames_used (k_frames k) \<subseteq> frames_used fr"
  shows "space_ok L (k\<lparr>k_frames := fr\<rparr>) pgd"
  using assms unfolding space_ok_def by (simp add: subset_iff)

lemma space_phys [simp]: "space_ok L (k\<lparr>k_phys := x\<rparr>) pgd \<longleftrightarrow> space_ok L k pgd"
  by (simp add: space_ok_def)

lemma space_map:
  assumes "space_ok L k pgd" and "p \<in> frames_used (k_frames k)" and "\<And>w f. page_walk (kmem (k_paging k)) pgd w \<noteq> Some (p, f)"
    and "k_frames k' = k_frames k" and "tables_ok (kmem (k_paging k')) pgd"
    and walk: "\<And>w. page_walk (kmem (k_paging k')) pgd w = (if page_of w = page_of v then Some (p, 7) else page_walk (kmem (k_paging k)) pgd w)"
    and pde: "\<And>i. pde_present (kmem (k_paging k')) pgd i = pde_present (kmem (k_paging k)) pgd i"
      "\<And>i. pde_present (kmem (k_paging k)) pgd i \<Longrightarrow> table_of (kmem (k_paging k')) pgd i = table_of (kmem (k_paging k)) pgd i"
    and "pt_in_use (k_paging k') = pt_in_use (k_paging k)"
  shows "space_ok L k' pgd"
proof -
  have pt: "pt_ok L (k_paging k') = pt_ok L (k_paging k)" "pt_used L (k_paging k') = pt_used L (k_paging k)"
    using assms(9) by (simp_all add: pt_ok_def pt_used_def)
  have used: "q \<in> frames_used (k_frames k)" if "page_walk (kmem (k_paging k)) pgd w = Some (q, f)" "q \<in> user_frames" for w q f
    using that assms(1) unfolding space_ok_def by blast
  have one: "page_of a = page_of b" if "page_walk (kmem (k_paging k)) pgd a = Some (q, f)" "page_walk (kmem (k_paging k)) pgd b = Some (q, g)" "q \<in> user_frames" for a b q f g
    using that assms(1) unfolding space_ok_def by blast
  have "page_of a = page_of b"
    if "page_walk (kmem (k_paging k')) pgd a = Some (q, f)" "page_walk (kmem (k_paging k')) pgd b = Some (q, g)" "q \<in> user_frames" for a b q f g
    using that one [of a q f b g] assms(3) unfolding walk by (auto split: if_splits)
  moreover have "q \<in> frames_used (k_frames k)" if "page_walk (kmem (k_paging k')) pgd w = Some (q, f)" "q \<in> user_frames" for w q f
    using that used [of w q f] assms(2) unfolding walk by (auto split: if_splits)
  moreover have "table_of (kmem (k_paging k')) pgd i \<in> pt_used L (k_paging k')"
    if "pde_present (kmem (k_paging k')) pgd i" "table_of (kmem (k_paging k')) pgd i \<in> pt_pages L" for i
    using that assms(1) unfolding space_ok_def pde(1) pt(2) by (metis pde(2))
  moreover have "pgd \<notin> pt_pages L" "pt_ok L (k_paging k')" "frames_ok (k_frames k)"
    using assms(1) pt(1) unfolding space_ok_def by blast+
  ultimately show ?thesis using assms(5) unfolding space_ok_def assms(4) by blast
qed

section \<open>Serving a page fault\<close>

lemma find_vma_area:
  "vma_seg vmas p a xs q 0 \<Longrightarrow> v \<in> set xs \<Longrightarrow> distinct xs \<Longrightarrow>
   sorted_wrt (\<lambda>x y. vm_end (vma_at vmas x) \<le> vm_start (vma_at vmas y)) xs \<Longrightarrow>
   vm_start (vma_at vmas v) \<le> addr \<Longrightarrow> addr < vm_end (vma_at vmas v) \<Longrightarrow> find_vma vmas a addr = Some v"
proof (induction xs arbitrary: p a)
  case (Cons x xs)
  obtain vx where vx: "a = x" "x \<noteq> 0" "vmas x = Some vx" "vma_seg vmas x (vm_next vx) xs q 0" using Cons.prems(1) by auto
  show ?case
  proof (cases "v = x")
    case True
    then show ?thesis using vx Cons.prems(5,6) by (subst find_vma.simps) (simp add: vma_at_def)
  next
    case False
    then have v: "v \<in> set xs" using Cons.prems(2) by simp
    then have "vm_end vx \<le> addr" using Cons.prems(4,5) vx(3) by (auto simp: vma_at_def)
    then have "find_vma vmas a addr = find_vma vmas (vm_next vx) addr"
      using vx by (subst find_vma.simps) auto
    then show ?thesis using Cons.IH [OF vx(4) v] Cons.prems by simp
  qed
qed simp

lemma find_vma_none:
  "vma_seg vmas p a xs q 0 \<Longrightarrow> (\<And>v. v \<in> set xs \<Longrightarrow> \<not> (vm_start (vma_at vmas v) \<le> addr \<and> addr < vm_end (vma_at vmas v))) \<Longrightarrow>
   find_vma vmas a addr = Some 0"
proof (induction xs arbitrary: p a)
  case Nil
  then show ?case by (subst find_vma.simps) simp
next
  case (Cons x xs)
  obtain vx where vx: "a = x" "x \<noteq> 0" "vmas x = Some vx" "vma_seg vmas x (vm_next vx) xs q 0" using Cons.prems(1) by auto
  have "\<not> (vm_start vx \<le> addr \<and> addr < vm_end vx)" using Cons.prems(2) [of x] vx(3) by (simp add: vma_at_def)
  then have "find_vma vmas a addr = find_vma vmas (vm_next vx) addr" using vx by (subst find_vma.simps) auto
  then show ?case using Cons.IH [OF vx(4)] Cons.prems(2) by simp
qed

text \<open>The bytes a page of an area starts with: those of the file, and zeros after its end.\<close>

definition page_contents :: "(nat \<Rightarrow> u8 list) \<Rightarrow> vm_area_t \<Rightarrow> minix_inode \<Rightarrow> u32 \<Rightarrow> u8 list option" where
  "page_contents blk v inode page =
     (let off = vm_offset v + (page - vm_start v) in
      if vm_file v = 0 \<or> i_size inode \<le> off then Some (replicate 4096 0)
      else let n = min (unat (i_size inode) - unat off) 4096
        in map_option (\<lambda>bs. bs @ replicate (4096 - n) 0) (file_slice blk inode (unat off) n))"

lemma put_bytes_append: "put_bytes p (as @ bs) mem = put_bytes (p + of_nat (length as)) bs (put_bytes p as mem)"
  by (induction as arbitrary: p mem) (simp_all add: add.assoc)

lemma translate_page:
  assumes "get_cr3 (k_machine k) = get_pd_lma pgd" and "page_aligned pgd" and "page_aligned page"
    and "page_walk (kmem (k_paging k)) pgd page = Some (p, f)"
    and "\<And>w. page_of w = page \<Longrightarrow> page_walk (kmem (k_paging k)) pgd w = page_walk (kmem (k_paging k)) pgd page" and "i < 4096"
  shows "translate k (page + of_nat i) = Some (p + of_nat i)"
  using assms(4) assms(5) [OF page_offset(2) [OF assms(3,6)]] page_offset(3) [OF assms(3,6)]
  by (simp add: translate_def assms(1) pd_address [OF assms(2)])

text \<open>A read through an open file on a healthy disk.\<close>

lemma read_file_effect:
  assumes "k_files k file = Some f" and "k_inodes k (f_inode f) = Some i" and "healthy_inv E T K img (k_disk k, k_machine k)"
    and "unat (f_pos f) + unat n \<le> unat (i_size i)"
    and "file_slice (block_of (sectors_of img)) i (unat (f_pos f)) (unat n) = Some bs"
  shows "\<exists>d m. read_file E L file n k = Ret (n, bs) (put_file file (f\<lparr>f_pos := f_pos f + n\<rparr>) (k\<lparr>k_disk := d, k_machine := m\<rparr>))
    \<and> healthy_inv E T K img (d, m) \<and> quiet m = quiet (k_machine k)"
proof -
  have le: "f_pos f \<le> i_size i" using assms(4) by (simp add: word_le_nat_alt)
  have mn: "min (unat (i_size i) - unat (f_pos f)) (unat n) = unat n" using assms(4) by simp
  have "healthy_inv E T K img (k_disk k, k_machine k) \<and> quiet (snd (k_disk k, k_machine k)) = quiet (k_machine k)" using assms(3) by simp
  from quiet_fs.vfs_read_delivers [OF this le, of L n] obtain s' where
    s': "vfs_read (disk_read E L) i (f_pos f) n (k_disk k, k_machine k) = Ret (n, bs, f_pos f + n) s'"
      "healthy_inv E T K img s'" "quiet (snd s') = quiet (k_machine k)"
    unfolding mn assms(5) by auto
  obtain d m where "s' = (d, m)" by (cases s')
  then show ?thesis using s' assms(1,2)
    by (intro exI [of _ d] exI [of _ m]) (simp add: read_file_def access_defs on_fs_def on_dev_def fs_of_def put_fs_def)
qed

lemma quiet_eq: "quiet m' = quiet m \<Longrightarrow> m' = m\<lparr>io_log := io_log m'\<rparr>"
  unfolding quiet_def by (metis machine.surjective machine.update_convs(1))

lemma quiet_cr3: "quiet m' = quiet m \<Longrightarrow> get_cr3 m' = get_cr3 m"
proof -
  have c: "cr3 (quiet m) = cr3 m" for m by (simp add: quiet_def)
  assume "quiet m' = quiet m"
  then show ?thesis unfolding get_cr3_def by (metis c)
qed

text \<open>What filling a page that holds zeros leaves.\<close>

definition page_filled :: "kernel \<Rightarrow> kernel \<Rightarrow> u32 \<Rightarrow> u8 list \<Rightarrow> bool" where
  "page_filled k k' p bytes \<longleftrightarrow> length bytes = 4096 \<and> (\<forall>j < 4096. k_phys k' (p + of_nat j) = bytes ! j)
     \<and> (\<forall>x. page_of x \<noteq> p \<longrightarrow> k_phys k' x = k_phys k x) \<and> quiet (k_machine k') = quiet (k_machine k)
     \<and> k' = k\<lparr>k_disk := k_disk k', k_machine := k_machine k', k_phys := k_phys k'\<rparr>"

lemma page_filled_put:
  assumes "page_aligned p" and "length bs \<le> 4096" and "\<And>j. j < 4096 \<Longrightarrow> k_phys k (p + of_nat j) = 0"
    and "quiet m = quiet (k_machine k)"
  shows "page_filled k (k\<lparr>k_disk := d, k_machine := m, k_phys := put_bytes p bs (k_phys k)\<rparr>) p (bs @ replicate (4096 - length bs) 0)"
proof -
  have "put_bytes p bs (k_phys k) (p + of_nat j) = (bs @ replicate (4096 - length bs) 0) ! j" if j: "j < 4096" for j
  proof (cases "j < length bs")
    case True
    then show ?thesis using assms(2) by (simp add: put_bytes_nth nth_append)
  next
    case False
    have "p + of_nat j \<noteq> p + of_nat l" if "l < length bs" for l
      using page_offset(1) [OF assms(1) j] page_offset(1) [OF assms(1), of l] that assms(2) False by auto
    then show ?thesis using False assms(3) j by (simp add: put_bytes_other nth_append)
  qed
  moreover have "put_bytes p bs (k_phys k) x = k_phys k x" if "page_of x \<noteq> p" for x
    using that page_offset(2) [OF assms(1)] assms(2) by (intro put_bytes_other) force
  ultimately show ?thesis using assms(2,4) by (simp add: page_filled_def)
qed

lemma fill_page_effect:
  assumes "k_vmas k vma = Some v" and "get_cr3 (k_machine k) = get_pd_lma pgd" and "page_aligned pgd" and "page_aligned page"
    and walk: "\<And>w. page_of w = page \<Longrightarrow> page_walk (kmem (k_paging k)) pgd w = Some (p, 7)" and "p \<in> user_frames"
    and open_file: "vm_file v \<noteq> 0 \<Longrightarrow> k_files k (vm_file v) = Some f \<and> k_inodes k (f_inode f) = Some i \<and> healthy_inv E T K img (k_disk k, k_machine k)"
    and bytes: "page_contents (block_of (sectors_of img)) v i page = Some bytes"
    and zero: "\<And>j. j < 4096 \<Longrightarrow> k_phys k (p + of_nat j) = 0"
  shows "\<exists>k'. fill_page E L pgd vma page p k = Ret () k' \<and> page_filled k k' p bytes"
proof (cases "vm_file v = 0 \<or> i_size i \<le> vm_offset v + (page - vm_start v)")
  case True
  then have "bytes = replicate 4096 0" using bytes by (simp add: page_contents_def)
  moreover have "fill_page E L pgd vma page p k = Ret () k"
    using True assms(1) open_file by (auto simp: fill_page_def access_defs Let_def)
  moreover have "page_filled k (k\<lparr>k_disk := k_disk k, k_machine := k_machine k, k_phys := put_bytes p [] (k_phys k)\<rparr>) p ([] @ replicate (4096 - 0) 0)"
    using page_filled_put [of p "[]" k "k_machine k" "k_disk k"] user_frame(1) [OF assms(6)] zero by simp
  ultimately show ?thesis by simp
next
  case False
  let ?off = "vm_offset v + (page - vm_start v)" and ?size = "i_size i" and ?file = "vm_file v"
  define n where "n = (if ?size - ?off < PAGE_SIZE then ?size - ?off else PAGE_SIZE)"
  have f: "k_files k ?file = Some f" "k_inodes k (f_inode f) = Some i" "healthy_inv E T K img (k_disk k, k_machine k)"
    using open_file False by auto
  have lt: "?off < ?size" using False by auto
  then have "unat (?size - ?off) = unat ?size - unat ?off" by (simp add: unat_sub_u32_le)
  then have n: "unat n = min (unat ?size - unat ?off) 4096" by (auto simp: n_def word_less_nat_alt min_def)
  obtain bs where bs: "file_slice (block_of (sectors_of img)) i (unat ?off) (unat n) = Some bs" "bytes = bs @ replicate (4096 - unat n) 0"
    using bytes False by (auto simp: page_contents_def Let_def n)
  have len: "length bs = unat n" using file_slice_length [OF bs(1)] .
  define k1 where "k1 = put_file ?file (f\<lparr>f_pos := ?off\<rparr>) k"
  have r1: "k_files k1 ?file = Some (f\<lparr>f_pos := ?off\<rparr>)" "k_inodes k1 (f_inode (f\<lparr>f_pos := ?off\<rparr>)) = Some i"
    "healthy_inv E T K img (k_disk k1, k_machine k1)" using f by (simp_all add: k1_def put_file_def)
  have r2: "unat (f_pos (f\<lparr>f_pos := ?off\<rparr>)) + unat n \<le> unat ?size" using n lt by (simp add: word_less_nat_alt)
  obtain d m where r: "read_file E L ?file n k1 = Ret (n, bs) (put_file ?file (f\<lparr>f_pos := ?off + n\<rparr>) (k1\<lparr>k_disk := d, k_machine := m\<rparr>))"
    "quiet m = quiet (k_machine k)"
    using read_file_effect [OF r1 r2, of bs L] bs(1) by (auto simp: k1_def put_file_def)
  define k2 where "k2 = put_file ?file (f\<lparr>f_pos := ?off + n\<rparr>) (k1\<lparr>k_disk := d, k_machine := m\<rparr>)"
  define k3 where "k3 = k\<lparr>k_disk := d, k_machine := m, k_phys := put_bytes p bs (k_phys k)\<rparr>"
  have cr: "get_cr3 (k_machine k2) = get_pd_lma pgd"
    using quiet_cr3 [OF r(2)] assms(2) by (simp add: k2_def k1_def put_file_def)
  have pg: "k_paging k2 = k_paging k" "k_phys k2 = k_phys k" by (simp_all add: k2_def k1_def put_file_def)
  have pw: "page_walk (kmem (k_paging k2)) pgd page = Some (p, 7)" using walk [of page] page_of_aligned [OF assms(4)] pg(1) by simp
  have "translate k2 (page + of_nat j) = Some (p + of_nat j) \<and> \<not> p + of_nat j < 0x400000" if "j < length bs" for j
  proof -
    have j: "j < 4096" using that len n by simp
    have "page_walk (kmem (k_paging k2)) pgd w = page_walk (kmem (k_paging k2)) pgd page" if "page_of w = page" for w
      using walk [OF that] pw pg(1) by simp
    then show ?thesis using translate_page [OF cr assms(3,4) pw _ j] user_frame(2) [OF assms(6) j] by blast
  qed
  from store_bytes_mapped [OF this] have st: "store_bytes page bs k2 = Ret () (k2\<lparr>k_phys := put_bytes p bs (k_phys k)\<rparr>)" by (simp add: pg(2))
  have s1: "set_file_pos ?file ?off k = Ret () k1" using f(1) by (simp add: set_file_pos_def with_file_def k1_def)
  have s2: "set_file_pos ?file (f_pos f) (k2\<lparr>k_phys := put_bytes p bs (k_phys k)\<rparr>) = Ret () k3"
    using f(1) by (simp add: set_file_pos_def with_file_def k3_def k2_def k1_def put_file_def fun_upd_idem)
  have "fill_page E L pgd vma page p k = Ret () k3"
    using assms(1) f(1,2) False lt s1 r(1) st s2
    by (simp add: fill_page_def with_vma_def with_file_def [of "vm_file v" _ k] with_inode_def Let_def n_def [symmetric] k2_def [symmetric])
  moreover have "page_filled k k3 p bytes"
    using page_filled_put [OF user_frame(1) [OF assms(6)], of bs k m d] zero r(2) len n bs(2) by (simp add: k3_def)
  ultimately show ?thesis by blast
qed

text \<open>
  The state of a fault that can be served: the current task has an address space that is loaded and in order, the
  address lies in an area, there is a free frame, a table for it or room for one, and a file behind the area is open
  on a healthy disk.
\<close>

definition fault_ready :: "env \<Rightarrow> (io_event list \<Rightarrow> nat) \<Rightarrow> nat \<Rightarrow> (nat \<Rightarrow> u8 list) \<Rightarrow> symbols \<Rightarrow> kernel \<Rightarrow> u32 \<Rightarrow> vm_area_t \<Rightarrow> minix_inode \<Rightarrow> bool" where
  "fault_ready E T K img L k pgd v i \<longleftrightarrow>
     (\<exists>t m xs vma f. current_task k \<noteq> 0 \<and> k_tasks k (current_task k) = Some t \<and> t_mm t \<noteq> 0 \<and> k_mms k (t_mm t) = Some m
        \<and> mm_pgd m = pgd \<and> get_cr3 (k_machine k) = get_pd_lma pgd \<and> space_ok L k pgd \<and> mm_areas k (t_mm t) xs
        \<and> vma \<in> set xs \<and> k_vmas k vma = Some v \<and> vm_start v \<le> read_cr2 k \<and> read_cr2 k < vm_end v
        \<and> frames_used (k_frames k) \<noteq> user_frames
        \<and> (pde_present (kmem (k_paging k)) pgd (pde_index (page_of (read_cr2 k))) \<or> pt_used L (k_paging k) \<noteq> pt_pages L)
        \<and> (vm_file v \<noteq> 0 \<longrightarrow> k_files k (vm_file v) = Some f \<and> k_inodes k (f_inode f) = Some i
             \<and> healthy_inv E T K img (k_disk k, k_machine k)))"

lemma fault_ready_space:
  "fault_ready E T K img L k pgd v i \<Longrightarrow> \<exists>t m. k_tasks k (current_task k) = Some t \<and> k_mms k (t_mm t) = Some m \<and> mm_pgd m = pgd
     \<and> get_cr3 (k_machine k) = get_pd_lma pgd \<and> space_ok L k pgd"
  unfolding fault_ready_def by blast

lemma healthy_machine: "healthy_inv E T K img (d, m) \<longleftrightarrow> healthy_inv E T K img (d, m')"
  by (simp add: healthy_inv_def disk_inv_def)

text \<open>The allocations and the mapping of the handler.\<close>

lemma map_fresh_page:
  assumes "space_ok L k pgd" and "frames_used (k_frames k) \<noteq> user_frames" and "page_aligned page"
    and "pde_present (kmem (k_paging k)) pgd (pde_index page) \<or> pt_used L (k_paging k) \<noteq> pt_pages L"
  shows "\<exists>p fr pg pg' m'. alloc_phys_frame (k_frames k) = (p, fr) \<and> p \<in> user_frames - frames_used (k_frames k)
    \<and> frames_used fr = insert p (frames_used (k_frames k))
    \<and> table_for_page L pgd (pde_index page) p (k\<lparr>k_frames := fr\<rparr>) = Ret () (k\<lparr>k_frames := fr, k_paging := pg\<rparr>)
    \<and> map_page pgd page p 7 pg (k_machine k) = (1, pg', m') \<and> space_ok L (k\<lparr>k_frames := fr, k_paging := pg', k_machine := m'\<rparr>) pgd
    \<and> (\<forall>w. page_walk (kmem pg') pgd w = (if page_of w = page then Some (p, 7) else page_walk (kmem (k_paging k)) pgd w))
    \<and> quiet m' = quiet (k_machine k)"
proof -
  obtain p fr where p: "alloc_phys_frame (k_frames k) = (p, fr)" by fastforce
  have fo: "frames_ok (k_frames k)" using assms(1) by (simp add: space_ok_def)
  have p0: "p \<noteq> 0" using frame_pool.alloc_succeeds_iff [OF fo] assms(2) p by simp
  note new = frame_pool.alloc_page [OF fo p p0]
  define k1 where "k1 = k\<lparr>k_frames := fr\<rparr>"
  have so1: "space_ok L k1 pgd" using space_frames [OF assms(1)] new by (auto simp: k1_def)
  have "\<exists>pg. table_for_page L pgd (pde_index page) p k1 = Ret () (k1\<lparr>k_paging := pg\<rparr>) \<and> space_ok L (k1\<lparr>k_paging := pg\<rparr>) pgd
      \<and> pde_present (kmem pg) pgd (pde_index page) \<and> (\<forall>w. page_walk (kmem pg) pgd w = page_walk (kmem (k_paging k)) pgd w)"
    using table_for_page_effect [OF so1, of "pde_index page" p] assms(4) by (auto simp: k1_def)
  then obtain pg where pg: "table_for_page L pgd (pde_index page) p k1 = Ret () (k1\<lparr>k_paging := pg\<rparr>)" "space_ok L (k1\<lparr>k_paging := pg\<rparr>) pgd"
    "pde_present (kmem pg) pgd (pde_index page)" "\<And>w. page_walk (kmem pg) pgd w = page_walk (kmem (k_paging k)) pgd w" by blast
  have to: "tables_ok (kmem pg) pgd" using pg(2) by (simp add: space_ok_def)
  obtain pg' m' where mp: "map_page pgd page p 7 pg (k_machine k) = (1, pg', m')" "tables_ok (kmem pg') pgd"
    "\<And>w. page_walk (kmem pg') pgd w = (if page_of w = page then Some (p, 7) else page_walk (kmem pg) pgd w)"
    "\<And>i. pde_present (kmem pg') pgd i = pde_present (kmem pg) pgd i"
    "\<And>i. pde_present (kmem pg) pgd i \<Longrightarrow> table_of (kmem pg') pgd i = table_of (kmem pg) pgd i"
    "pg' = pg\<lparr>kmem := kmem pg'\<rparr>" "m' = (k_machine k)\<lparr>io_log := io_log m'\<rparr>"
    using map_page_effect [OF to pg(3) user_frame(1), of p "k_machine k"] new by (auto simp: page_of_aligned [OF assms(3)])
  have used: "page_walk (kmem (k_paging k)) pgd w = Some (p, f) \<Longrightarrow> p \<in> frames_used (k_frames k)" for w f
    using assms(1) new unfolding space_ok_def by blast
  have unmapped: "page_walk (kmem (k_paging (k1\<lparr>k_paging := pg\<rparr>))) pgd w \<noteq> Some (p, f)" for w f
    using used [of w f] new pg(4) [of w] by auto
  have pti: "pt_in_use pg' = pt_in_use pg" by (subst mp(6)) simp
  have "space_ok L (k1\<lparr>k_paging := pg', k_machine := m'\<rparr>) pgd"
    by (rule space_map [OF pg(2) _ unmapped, where v = page])
      (use new mp(2-5) pti in \<open>simp_all add: k1_def page_of_aligned [OF assms(3)]\<close>)
  moreover have "quiet m' = quiet (k_machine k)" by (subst mp(7)) (simp add: quiet_def)
  ultimately show ?thesis using p new pg(1,4) mp(1,3) unfolding k1_def by auto
qed

lemma page_fault_served:
  assumes "fault_ready E T K img L k pgd v i" and "err_code AND 1 = 0"
    and bytes: "page_contents (block_of (sectors_of img)) v i (page_of (read_cr2 k)) = Some bytes"
  shows "\<exists>k' p. page_fault_handler E L exc err_code k = Ret () k' \<and> p \<in> user_frames - frames_used (k_frames k)
    \<and> frames_used (k_frames k') = insert p (frames_used (k_frames k)) \<and> space_ok L k' pgd
    \<and> (\<forall>w. page_walk (kmem (k_paging k')) pgd w =
          (if page_of w = page_of (read_cr2 k) then Some (p, 7) else page_walk (kmem (k_paging k)) pgd w))
    \<and> (\<forall>j < 4096. k_phys k' (p + of_nat j) = bytes ! j) \<and> (\<forall>x. page_of x \<noteq> p \<longrightarrow> k_phys k' x = k_phys k x)
    \<and> k' = k\<lparr>k_frames := k_frames k', k_paging := k_paging k', k_machine := k_machine k', k_disk := k_disk k', k_phys := k_phys k'\<rparr>
    \<and> quiet (k_machine k') = quiet (k_machine k)"
proof -
  obtain t m xs vma f where r: "current_task k \<noteq> 0" "k_tasks k (current_task k) = Some t" "t_mm t \<noteq> 0" "k_mms k (t_mm t) = Some m"
    "mm_pgd m = pgd" "get_cr3 (k_machine k) = get_pd_lma pgd" "space_ok L k pgd" "mm_areas k (t_mm t) xs"
    "vma \<in> set xs" "k_vmas k vma = Some v" "vm_start v \<le> read_cr2 k" "read_cr2 k < vm_end v" "frames_used (k_frames k) \<noteq> user_frames"
    "pde_present (kmem (k_paging k)) pgd (pde_index (page_of (read_cr2 k))) \<or> pt_used L (k_paging k) \<noteq> pt_pages L"
    "vm_file v \<noteq> 0 \<longrightarrow> k_files k (vm_file v) = Some f \<and> k_inodes k (f_inode f) = Some i \<and> healthy_inv E T K img (k_disk k, k_machine k)"
    using assms(1) unfolding fault_ready_def by (elim exE conjE) (rule that; assumption)
  let ?page = "page_of (read_cr2 k)"
  obtain q where q: "vma_seg (k_vmas k) 0 (mm_mmap m) xs q 0" "areas_ok (k_vmas k) xs" using r(4,8) by (auto simp: mm_areas_def vma_chain_def)
  have vma: "find_vma (k_vmas k) (mm_mmap m) (read_cr2 k) = Some vma" "vma \<noteq> 0"
    using find_vma_area [OF q(1) r(9)] q(2) r(9-12) vma_seg_nonzero [OF q(1)] by (auto simp: areas_ok_def vma_at_def)
  obtain p fr pg pg' m' where mp: "alloc_phys_frame (k_frames k) = (p, fr)" "p \<in> user_frames - frames_used (k_frames k)"
    "frames_used fr = insert p (frames_used (k_frames k))"
    "table_for_page L pgd (pde_index ?page) p (k\<lparr>k_frames := fr\<rparr>) = Ret () (k\<lparr>k_frames := fr, k_paging := pg\<rparr>)"
    "map_page pgd ?page p 7 pg (k_machine k) = (1, pg', m')" "space_ok L (k\<lparr>k_frames := fr, k_paging := pg', k_machine := m'\<rparr>) pgd"
    "\<And>w. page_walk (kmem pg') pgd w = (if page_of w = ?page then Some (p, 7) else page_walk (kmem (k_paging k)) pgd w)"
    "quiet m' = quiet (k_machine k)"
    using map_fresh_page [OF r(7,13) page_aligned_page_of r(14)] by blast
  define k2 where "k2 = k\<lparr>k_frames := fr, k_paging := pg', k_machine := m'\<rparr>"
  have pf: "p \<in> user_frames" "page_aligned p" "p \<noteq> 0" using mp(2) user_frame by auto
  have al: "page_aligned pgd" using r(7) by (simp add: space_ok_def tables_ok_def)
  have cr: "get_cr3 (k_machine k2) = get_pd_lma pgd" using quiet_cr3 [OF mp(8)] r(6) by (simp add: k2_def)
  have w2: "page_walk (kmem (k_paging k2)) pgd w = Some (p, 7)" if "page_of w = ?page" for w using mp(7) that by (simp add: k2_def)
  have "translate k2 (?page + of_nat j) = Some (p + of_nat j) \<and> \<not> p + of_nat j < 0x400000" if "j < 4096" for j
    using translate_page [OF cr al page_aligned_page_of, of "read_cr2 k" p 7 j] w2 page_of_aligned [OF page_aligned_page_of] that
      user_frame(2) [OF pf(1) that] by simp
  then have st: "store_bytes ?page (replicate 4096 0) k2 = Ret () (k2\<lparr>k_phys := put_bytes p (replicate 4096 0) (k_phys k)\<rparr>)"
    using store_bytes_mapped [of "replicate 4096 0" k2 ?page p] by (simp add: k2_def)
  define k3 where "k3 = k2\<lparr>k_phys := put_bytes p (replicate 4096 0) (k_phys k)\<rparr>"
  have z: "k_phys k3 (p + of_nat j) = 0" if "j < 4096" for j
    using put_bytes_nth [of j "replicate 4096 0" p "k_phys k"] that by (simp add: k3_def)
  have fl: "vm_file v \<noteq> 0 \<Longrightarrow> k_files k3 (vm_file v) = Some f \<and> k_inodes k3 (f_inode f) = Some i \<and> healthy_inv E T K img (k_disk k3, k_machine k3)"
    using r(15) healthy_machine [of E T K img "k_disk k" "k_machine k" m'] by (simp add: k3_def k2_def)
  have "k_vmas k3 vma = Some v" "get_cr3 (k_machine k3) = get_pd_lma pgd"
    "\<And>w. page_of w = ?page \<Longrightarrow> page_walk (kmem (k_paging k3)) pgd w = Some (p, 7)"
    using r(10) cr w2 by (simp_all add: k3_def k2_def)
  from fill_page_effect [OF this(1,2) al page_aligned_page_of this(3) pf(1) fl bytes z]
  obtain k' where k': "fill_page E L pgd vma ?page p k3 = Ret () k'" "page_filled k3 k' p bytes" by blast
  have e: "page_fault_handler E L exc err_code k = Ret () k'"
    using r(1-5) assms(2) vma mp(1,4,5) pf(3) st k'(1)
    by (simp add: page_fault_handler_def get_current_task_def Let_def with_task_def with_mm_def page_of_def [symmetric] flags_seven
        k2_def [symmetric] k3_def [symmetric])
  have k'_eq: "k' = k3\<lparr>k_disk := k_disk k', k_machine := k_machine k', k_phys := k_phys k'\<rparr>" using k'(2) unfolding page_filled_def by blast
  have sel: "k_frames k' = fr" "k_paging k' = pg'" by (subst k'_eq, simp add: k3_def k2_def)+
  have so: "space_ok L k' pgd" using mp(6) by (simp add: space_ok_def sel)
  have keep: "k_phys k' x = k_phys k x" if "page_of x \<noteq> p" for x
  proof -
    have "k_phys k3 x = k_phys k x" using that page_offset(2) [OF pf(2)] by (auto simp: k3_def intro!: put_bytes_other)
    then show ?thesis using k'(2) that unfolding page_filled_def by metis
  qed
  have all: "k' = k\<lparr>k_frames := k_frames k', k_paging := k_paging k', k_machine := k_machine k', k_disk := k_disk k', k_phys := k_phys k'\<rparr>"
    unfolding sel by (subst k'_eq) (simp add: k3_def k2_def)
  have "quiet (k_machine k') = quiet (k_machine k)" "\<forall>j < 4096. k_phys k' (p + of_nat j) = bytes ! j"
    using k'(2) mp(8) by (simp_all add: page_filled_def k3_def k2_def)
  then show ?thesis using e mp(2,3,7) sel so keep all by (intro exI [of _ k'] exI [of _ p]) auto
qed

section \<open>Padding\<close>

lemma memset_mapped:
  assumes "\<And>i. i < n \<Longrightarrow> translate k (a + of_nat i) = Some (p + of_nat i) \<and> \<not> p + of_nat i < 0x400000"
  shows "each (\<lambda>i. write_user E L (a + of_nat i) val) [0..<n] k = Ret () (k\<lparr>k_phys := put_bytes p (replicate n val) (k_phys k)\<rparr>)"
  using assms
proof (induction n)
  case (Suc n)
  have e: "put_bytes p (replicate (Suc n) val) (k_phys k) = (put_bytes p (replicate n val) (k_phys k))(p + of_nat n := val)"
    using put_bytes_append [of p "replicate n val" "[val]" "k_phys k"] by (simp add: replicate_append_same)
  define k1 where "k1 = k\<lparr>k_phys := put_bytes p (replicate n val) (k_phys k)\<rparr>"
  have "write_user E L (a + of_nat n) val k1 = Ret () (k1\<lparr>k_phys := (k_phys k1)(p + of_nat n := val)\<rparr>)"
    using Suc.prems [of n] by (simp add: write_user_def access_user_def k1_def)
  moreover have "each (\<lambda>i. write_user E L (a + of_nat i) val) [0..<n] k = Ret () k1" using Suc by (simp add: k1_def)
  ultimately have "each (\<lambda>i. write_user E L (a + of_nat i) val) [0..<Suc n] k = Ret () (k1\<lparr>k_phys := (k_phys k1)(p + of_nat n := val)\<rparr>)"
    by (simp add: each_append)
  moreover have "k1\<lparr>k_phys := (k_phys k1)(p + of_nat n := val)\<rparr> = k\<lparr>k_phys := put_bytes p (replicate (Suc n) val) (k_phys k)\<rparr>"
    unfolding e by (rule kernel.equality) (simp_all add: k1_def)
  ultimately show ?case by simp
qed simp

text \<open>From an address to the end of its page.\<close>

lemma page_rest:
  assumes "unat a mod 4096 \<noteq> 0" and "unat a < 0xfffff000"
  shows "page_of a + of_nat (unat a mod 4096) = a" "unat (align_up a - a) = 4096 - unat a mod 4096"
proof -
  show "page_of a + of_nat (unat a mod 4096) = a"
    using page_offset(1) [OF page_aligned_page_of, of "unat a mod 4096" a] by (simp add: word_unat_eq_iff unat_page_of)
  have q: "unat a = 4096 * (unat a div 4096) + unat a mod 4096" "unat a mod 4096 < 4096" by simp_all
  have "(4096 * d + r + 4095) div 4096 = Suc d" if "r \<noteq> 0" "r < 4096" for d r :: nat using that by (intro div_nat_eqI) simp_all
  from this [OF assms(1) q(2), of "unat a div 4096"] have "(unat a + 4095) div 4096 = Suc (unat a div 4096)" using q(1) by simp
  then have "unat (align_up a) = unat a div 4096 * 4096 + 4096" using assms(2) by (subst unat_align_up) simp_all
  moreover from this have "a \<le> align_up a" using q unfolding word_le_nat_alt by linarith
  ultimately show "unat (align_up a - a) = 4096 - unat a mod 4096"
    using q(1) minus_mod_eq_div_mult [of "unat a" 4096] by (simp add: unat_sub_u32_le)
qed

lemma put_bytes_tail:
  assumes "page_aligned p" and "o' \<le> 4096" and "j < 4096"
  shows "put_bytes (p + of_nat o') (replicate (4096 - o') 0) mem (p + of_nat j) = (if j < o' then mem (p + of_nat j) else 0)"
proof (cases "j < o'")
  case True
  have "p + of_nat j \<noteq> p + of_nat o' + of_nat l" if "l < 4096 - o'" for l
    using page_offset(1) [OF assms(1,3)] page_offset(1) [OF assms(1), of "o' + l"] that True by (auto simp: add.assoc)
  then have "put_bytes (p + of_nat o') (replicate (4096 - o') 0) mem (p + of_nat j) = mem (p + of_nat j)"
    by (intro put_bytes_other) simp
  then show ?thesis using True by simp
next
  case False
  then show ?thesis using put_bytes_nth [of "j - o'" "replicate (4096 - o') 0" "p + of_nat o'" mem] assms(3) by (simp add: add.assoc)
qed

text \<open>The first write to a page that is not present brings it in.\<close>

lemma memset_faults:
  assumes "translate k a = None" and "exceptions_dispatch E L 14 2 (on_machine (\<lambda>m. m\<lparr>cr2 := a\<rparr>) k) = Ret () k'"
    and "translate k' a \<noteq> None" and "0 < n"
  shows "each (\<lambda>i. write_user E L (a + of_nat i) val) [0..<n] k = each (\<lambda>i. write_user E L (a + of_nat i) val) [0..<n] k'"
proof -
  have "write_user E L a val k = write_user E L a val k'"
    using assms(1-3) by (auto simp: write_user_def access_user_def)
  then show ?thesis using assms(4) by (simp add: upt_conv_Cons)
qed

text \<open>The first read of an address of an area, through the exception.\<close>

lemma first_read:
  assumes "fault_ready E T K img L (on_machine (\<lambda>m. m\<lparr>cr2 := a\<rparr>) k) pgd v i" and "translate k a = None"
    and "exception_handlers (k_interrupts k) ! 14 = Some Page_fault_handler"
    and "page_contents (block_of (sectors_of img)) v i (page_of a) = Some bytes"
  shows "\<exists>k'. read_user E L a k = Ret (bytes ! unat (a AND 0xfff)) k' \<and> read_user E L a k' = Ret (bytes ! unat (a AND 0xfff)) k'
    \<and> (\<forall>w. page_of w \<noteq> page_of a \<longrightarrow> translate k' w = translate k w)
    \<and> (\<forall>w x. page_of w \<noteq> page_of a \<longrightarrow> translate k w = Some x \<longrightarrow> page_of x \<in> frames_used (k_frames k) \<longrightarrow> k_phys k' x = k_phys k x)"
proof -
  let ?k = "on_machine (\<lambda>m. m\<lparr>cr2 := a\<rparr>) k" and ?j = "unat (a AND 0xfff)"
  have ra: "read_cr2 ?k = a" by (simp add: read_cr2_def on_machine_def)
  have pc: "page_contents (block_of (sectors_of img)) v i (page_of (read_cr2 ?k)) = Some bytes" using assms(4) ra by simp
  have e0: "(0 :: u32) AND 1 = 0" by simp
  from page_fault_served [OF assms(1) e0 pc, of 14] obtain k' p where
    k': "page_fault_handler E L 14 0 ?k = Ret () k'" "p \<in> user_frames - frames_used (k_frames ?k)"
      "\<And>w. page_walk (kmem (k_paging k')) pgd w = (if page_of w = page_of a then Some (p, 7) else page_walk (kmem (k_paging ?k)) pgd w)"
      "\<forall>j < 4096. k_phys k' (p + of_nat j) = bytes ! j" "\<forall>x. page_of x \<noteq> p \<longrightarrow> k_phys k' x = k_phys ?k x"
      "quiet (k_machine k') = quiet (k_machine ?k)"
    unfolding ra by blast
  have cr: "get_cr3 (k_machine ?k) = get_pd_lma pgd" and al: "page_aligned pgd"
    using assms(1) by (auto simp: fault_ready_def space_ok_def tables_ok_def)
  have cr': "get_cr3 (k_machine k') = get_pd_lma pgd" "get_cr3 (k_machine k) = get_pd_lma pgd"
    using quiet_cr3 [OF k'(6)] cr by (simp_all add: on_machine_def get_cr3_def)
  have "?j < 4096" by (simp add: and_fff_eq take_bit_eq_mod unat_mod)
  moreover have "of_nat ?j = a AND 0xfff" by simp
  ultimately have jb: "?j < 4096" "of_nat ?j = a AND 0xfff" by blast+
  have ta: "translate k' a = Some (p + (a AND 0xfff))" using k'(3) by (simp add: translate_def cr'(1) pd_address [OF al])
  have ge: "\<not> p + (a AND 0xfff) < 0x400000" using user_frame(2) [of p ?j] k'(2) jb by simp
  have bj: "k_phys k' (p + (a AND 0xfff)) = bytes ! ?j" using k'(4) jb by metis
  have "access_user E L 0 a k = Ret (p + (a AND 0xfff)) k'"
    using assms(2,3) k'(1) ta by (simp add: access_user_def exceptions_dispatch_def on_machine_def)
  then have r1: "read_user E L a k = Ret (bytes ! ?j) k'" using ge bj by (simp add: read_user_def)
  have r2: "read_user E L a k' = Ret (bytes ! ?j) k'" using ta ge bj by (simp add: read_user_def access_user_def)
  have tw: "translate k' w = translate k w" if "page_of w \<noteq> page_of a" for w
    using k'(3) [of w] that by (simp add: translate_def cr' pd_address [OF al] on_machine_def)
  have "k_phys k' x = k_phys k x" if "page_of x \<in> frames_used (k_frames k)" for x
    using k'(2,5) that by (auto simp: on_machine_def)
  then show ?thesis using r1 r2 tw by blast
qed

section \<open>Properties\<close>

text \<open>
  A task with one area of two pages at 0x8000 that maps the file of the small file system, and an access to
  its second byte.
\<close>

definition fault_sample :: kernel where
  "fault_sample = mmap_sample\<lparr>
     k_machine := (k_machine mmap_sample)\<lparr>cr2 := 0x8001\<rparr>,
     k_mms := [0xc020000c \<mapsto> \<lparr>mm_pgd = 0xc0100000, mm_mmap = 0xc0210000\<rparr>],
     k_vmas := [0xc0210000 \<mapsto> \<lparr>vm_start = 0x8000, vm_end = 0xa000, vm_offset = 0, vm_mm = 0xc020000c, vm_file = 0xc0211000,
        vm_prev = 0, vm_next = 0\<rparr>],
     k_files := [0xc0211000 \<mapsto> \<lparr>f_inode = 0xc0212000, f_pos = 2\<rparr>], k_inodes := [0xc0212000 \<mapsto> tiny_file],
     k_interrupts := register_exception_handler 14 Page_fault_handler boot_interrupts\<rparr>"

abbreviation sample_area :: vm_area_t where
  "sample_area \<equiv> \<lparr>vm_start = 0x8000, vm_end = 0xa000, vm_offset = 0, vm_mm = 0xc020000c, vm_file = 0xc0211000,
     vm_prev = 0, vm_next = 0\<rparr>"

lemmas sample_defs = fault_sample_def mmap_sample_def sample_kernel_def boot_kernel_def boot_machine_def

lemma sample_space: "space_ok sample_symbols fault_sample 0xc0100000"
proof -
  have mem: "k_paging fault_sample = one_table" "k_frames fault_sample = init_frames" by (simp_all add: sample_defs)
  have pw: "page_walk (kmem one_table) 0xc0100000 w = None" for w
  proof (cases "pde_index w = 0")
    case True
    have "slot 0xc0102000 (pte_index w) \<noteq> 0xc0100000"
      using unat_slot [of "0xc0102000" "pte_index w"] by (auto simp: page_aligned_def)
    then show ?thesis using True by (simp add: page_walk_def Let_def one_table_def slot_def get_pd_vma_def)
  next
    case False
    then have "\<not> pde_present (kmem one_table) 0xc0100000 (pde_index w)" by (simp add: one_table_pde)
    then show ?thesis by (simp add: page_walk_def pde_present_def)
  qed
  have t: "0xc0102000 \<notin> pt_pages sample_symbols" using sample_pool_pages [of "0xc0102000"] by auto
  have to: "table_of (kmem one_table) 0xc0100000 0 = 0xc0102000" by (simp add: table_of_def one_table_def slot_def get_pd_vma_def)
  show ?thesis
    using sample_kernel_ok(3) sample_directory_static init_frames_ok(1) one_table_ok t to
    by (simp add: space_ok_def mem pw one_table_pde sample_kernel_def)
qed

lemma sample_fault_ready: "fault_ready (image_drive tiny_fs) length 1 tiny_fs sample_symbols fault_sample 0xc0100000 sample_area tiny_file"
proof -
  have f: "frames_used (k_frames fault_sample) \<noteq> user_frames"
  proof -
    have "pool_page 0 1024 \<in> user_frames" by (simp add: user_frames_def pool_pages_def)
    then show ?thesis using init_frames_ok(2) by (auto simp: sample_defs)
  qed
  have p: "pde_present (kmem (k_paging fault_sample)) 0xc0100000 (pde_index (page_of (read_cr2 fault_sample)))"
    by (simp add: sample_defs read_cr2_def one_table_pde page_of_def pde_index_def)
  have a: "mm_areas fault_sample 0xc020000c [0xc0210000]"
    by (simp add: mm_areas_def vma_chain_def areas_ok_def vma_at_def page_aligned_def fault_sample_def)
  show ?thesis unfolding fault_ready_def
    by (rule exI [of _ "zero_task\<lparr>t_mm := 0xc020000c\<rparr>"], rule exI [of _ "\<lparr>mm_pgd = 0xc0100000, mm_mmap = 0xc0210000\<rparr>"],
        rule exI [of _ "[0xc0210000]"], rule exI [of _ "0xc0210000"], rule exI [of _ "\<lparr>f_inode = 0xc0212000, f_pos = 2\<rparr>"])
      (use sample_space f p a tiny_drive_inv in \<open>simp add: fault_sample_def mmap_sample_def sample_kernel_def boot_kernel_def
        get_cr3_def get_pd_lma_def read_cr2_def\<close>)
qed

lemma sample_contents:
  "page_contents (block_of (sectors_of tiny_fs)) sample_area tiny_file (page_of (read_cr2 fault_sample)) = Some ([0x68, 0x69, 0x0a] @ replicate 4093 0)"
proof -
  have "page_of (read_cr2 fault_sample) = 0x8000" by (simp add: read_cr2_def fault_sample_def page_of_def)
  then show ?thesis using tiny_lookup(4) by (simp add: page_contents_def Let_def tiny_file_def)
qed

lemma sample_read:
  "fault_ready (image_drive tiny_fs) length 1 tiny_fs sample_symbols (on_machine (\<lambda>m. m\<lparr>cr2 := 0x8001\<rparr>) fault_sample)
      0xc0100000 sample_area tiny_file"
  "translate fault_sample 0x8001 = None"
  "exception_handlers (k_interrupts fault_sample) ! 14 = Some Page_fault_handler"
  "page_contents (block_of (sectors_of tiny_fs)) sample_area tiny_file (page_of 0x8001) = Some ([0x68, 0x69, 0x0a] @ replicate 4093 0)"
proof -
  have k: "on_machine (\<lambda>m. m\<lparr>cr2 := 0x8001\<rparr>) fault_sample = fault_sample" by (simp add: on_machine_def fault_sample_def)
  show "fault_ready (image_drive tiny_fs) length 1 tiny_fs sample_symbols (on_machine (\<lambda>m. m\<lparr>cr2 := 0x8001\<rparr>) fault_sample)
      0xc0100000 sample_area tiny_file" unfolding k by (rule sample_fault_ready)
  show "page_contents (block_of (sectors_of tiny_fs)) sample_area tiny_file (page_of 0x8001) = Some ([0x68, 0x69, 0x0a] @ replicate 4093 0)"
    using sample_contents by (simp add: read_cr2_def fault_sample_def)
  show "translate fault_sample 0x8001 = None"
    by (simp add: translate_def page_walk_def sample_defs one_table_def slot_def pde_index_def pte_index_def get_pd_vma_def get_cr3_def)
  show "exception_handlers (k_interrupts fault_sample) ! 14 = Some Page_fault_handler"
    by (simp add: fault_sample_def register_exception_handler_def boot_interrupts_def)
qed





text \<open>
  C25. What cannot be served stops the kernel before any page table changes: a fault with no current task or no address
  space, on a page that is present, at an address in no area, or with no frame left ends in
  \<open>page_fault_panic\<close>, with page tables, frames and user memory as they were.
\<close>

theorem page_fault_panics:
  assumes "current_task k = 0 \<or> k_tasks k (current_task k) = Some t \<and> (t_mm t = 0 \<or> mm_areas k (t_mm t) xs)"
    and "current_task k = 0 \<or> t_mm t = 0 \<or> err_code AND 1 \<noteq> 0
      \<or> (\<forall>x \<in> set xs. \<not> (vm_start (vma_at (k_vmas k) x) \<le> read_cr2 k \<and> read_cr2 k < vm_end (vma_at (k_vmas k) x)))
      \<or> frames_ok (k_frames k) \<and> frames_used (k_frames k) = user_frames"
  shows "\<exists>m. page_fault_handler E L exc err_code k = Stop Panic (k\<lparr>k_machine := m\<rparr>)"
proof (cases "current_task k = 0 \<or> t_mm t = 0 \<or> err_code AND 1 \<noteq> 0")
  case True
  then have "page_fault_handler E L exc err_code k = page_fault_panic k"
    using assms(1) by (auto simp: page_fault_handler_def get_current_task_def with_task_def Let_def)
  then show ?thesis by (auto simp: page_fault_panic_def on_machine_def)
next
  case False
  then have t: "k_tasks k (current_task k) = Some t" "mm_areas k (t_mm t) xs" using assms(1) by auto
  then obtain m q where m: "k_mms k (t_mm t) = Some m" "vma_seg (k_vmas k) 0 (mm_mmap m) xs q 0" "areas_ok (k_vmas k) xs"
    by (auto simp: mm_areas_def vma_chain_def)
  let ?in = "\<lambda>x. vm_start (vma_at (k_vmas k) x) \<le> read_cr2 k \<and> read_cr2 k < vm_end (vma_at (k_vmas k) x)"
  have h: "page_fault_handler E L exc err_code k = page_fault_panic k"
    if "find_vma (k_vmas k) (mm_mmap m) (read_cr2 k) = Some 0 \<or>
      (\<exists>x. find_vma (k_vmas k) (mm_mmap m) (read_cr2 k) = Some x) \<and> alloc_phys_frame (k_frames k) = (0, k_frames k)"
    using that False t(1) m(1) by (auto simp: page_fault_handler_def get_current_task_def with_task_def with_mm_def Let_def)
  have "page_fault_handler E L exc err_code k = page_fault_panic k"
  proof (cases "\<exists>x \<in> set xs. ?in x")
    case True
    then have full: "frames_ok (k_frames k)" "frames_used (k_frames k) = user_frames" using assms(2) False by auto
    obtain x where "x \<in> set xs" "?in x" using True by blast
    then have "find_vma (k_vmas k) (mm_mmap m) (read_cr2 k) = Some x" using find_vma_area [OF m(2)] m(3) by (auto simp: areas_ok_def)
    moreover obtain p fr where p: "alloc_phys_frame (k_frames k) = (p, fr)" by fastforce
    then have "p = 0" "fr = k_frames k"
      using frame_pool.alloc_succeeds_iff [OF full(1)] frame_pool.alloc_null [OF full(1), of fr] full(2) by auto
    ultimately show ?thesis using h p by blast
  next
    case False
    then show ?thesis using h find_vma_none [OF m(2), of "read_cr2 k"] by blast
  qed
  then show ?thesis by (auto simp: page_fault_panic_def on_machine_def)
qed

theorem page_fault_panics_witness:
  "\<exists>m. page_fault_handler (image_drive tiny_fs) sample_symbols 14 4 (fault_sample\<lparr>k_machine := boot_machine\<lparr>cr2 := 0x1000\<rparr>\<rparr>)
     = Stop Panic (fault_sample\<lparr>k_machine := m\<rparr>)"
proof -
  have "mm_areas (fault_sample\<lparr>k_machine := boot_machine\<lparr>cr2 := 0x1000\<rparr>\<rparr>) 0xc020000c [0xc0210000]"
    by (simp add: mm_areas_def vma_chain_def areas_ok_def vma_at_def page_aligned_def fault_sample_def)
  then show ?thesis
    using page_fault_panics [of "fault_sample\<lparr>k_machine := boot_machine\<lparr>cr2 := 0x1000\<rparr>\<rparr>" "zero_task\<lparr>t_mm := 0xc020000c\<rparr>" "[0xc0210000]" 4]
    by (simp add: sample_defs vma_at_def read_cr2_def)
qed



end
