(* ===== verification/Elf.thy ===== *)
theory Elf
  imports Fault
begin

text \<open>
  The loader of executables, \<^verbatim>\<open>kernel/elf.c\<close>: the two headers are read through the file system, and each loadable
  segment becomes an area of the current task's address space, with zeros behind the part the file provides.
\<close>

section \<open>Model\<close>

abbreviation ELF32_PT_LOAD :: u32 where "ELF32_PT_LOAD \<equiv> 1"
abbreviation SIZEOF_EHDR :: u32 where "SIZEOF_EHDR \<equiv> 52"
abbreviation SIZEOF_PHDR :: u32 where "SIZEOF_PHDR \<equiv> 32"

record elf32_ehdr_t =
  e_ident :: "u8 list"
  e_type :: u16
  e_machine :: u16
  e_version :: u32
  e_entry :: u32
  e_phoff :: u32
  e_shoff :: u32
  e_flags :: u32
  e_ehsize :: u16
  e_phentsize :: u16
  e_phnum :: u16
  e_shentsize :: u16
  e_shnum :: u16
  e_shstrndx :: u16

record elf32_phdr_t =
  p_type :: u32
  p_offset :: u32
  p_vaddr :: u32
  p_paddr :: u32
  p_filesz :: u32
  p_memsz :: u32
  p_flags :: u32
  p_align :: u32

text \<open>The packed structures over the bytes that were read into them.\<close>

definition ehdr_of :: "u8 list \<Rightarrow> elf32_ehdr_t" where
  "ehdr_of b = \<lparr>e_ident = take 16 b, e_type = get16 b 16, e_machine = get16 b 18, e_version = get32 b 20, e_entry = get32 b 24,
     e_phoff = get32 b 28, e_shoff = get32 b 32, e_flags = get32 b 36, e_ehsize = get16 b 40, e_phentsize = get16 b 42,
     e_phnum = get16 b 44, e_shentsize = get16 b 46, e_shnum = get16 b 48, e_shstrndx = get16 b 50\<rparr>"

definition phdr_of :: "u8 list \<Rightarrow> nat \<Rightarrow> elf32_phdr_t" where
  "phdr_of b i = (let o' = 32 * i in \<lparr>p_type = get32 b o', p_offset = get32 b (o' + 4), p_vaddr = get32 b (o' + 8),
     p_paddr = get32 b (o' + 12), p_filesz = get32 b (o' + 16), p_memsz = get32 b (o' + 20), p_flags = get32 b (o' + 24),
     p_align = get32 b (o' + 28)\<rparr>)"

text \<open>The bytes stored into the buffer come with the result.\<close>

definition read_elf :: "env \<Rightarrow> symbols \<Rightarrow> u32 \<Rightarrow> u32 \<Rightarrow> u32 \<Rightarrow> (u8 \<times> u8 list) op" where
  "read_elf E L file offset count =
     with_file file (\<lambda>f k.
       let current_pos = f_pos f in
       and_then (set_file_pos file offset k) (\<lambda>_ k.
       and_then (read_file E L file count k) (\<lambda>(n, bs) k.
         if n \<noteq> count then and_then (set_file_pos file current_pos k) (\<lambda>_. Ret (0, bs))
         else and_then (set_file_pos file current_pos k) (\<lambda>_. Ret (1, bs)))))"

definition elf32_load_ehdr :: "env \<Rightarrow> symbols \<Rightarrow> u32 \<Rightarrow> (u8 \<times> elf32_ehdr_t) op" where
  "elf32_load_ehdr E L file k =
     and_then (read_elf E L file 0 SIZEOF_EHDR k) (\<lambda>(ok, b) k. if ok = 0 then Ret (0, ehdr_of b) k else Ret (1, ehdr_of b) k)"

definition elf32_load_phdr :: "env \<Rightarrow> symbols \<Rightarrow> u32 \<Rightarrow> (u8 \<times> u8 list) op" where
  "elf32_load_phdr E L file k =
     and_then (elf32_load_ehdr E L file k) (\<lambda>(ok, ehdr) k.
       if ok = 0 then Ret (0, []) k
       else let phdr_bytes = ucast (e_phnum ehdr) * SIZEOF_PHDR in
         if phdr_bytes = 0 then Ret (1, []) k
         else read_elf E L file (e_phoff ehdr) phdr_bytes k)"

text \<open>The body of the loop over the program headers; 0 is the exit with \<^verbatim>\<open>kfree(phdr); return 0\<close>.\<close>

definition anonymous :: "u32 \<Rightarrow> u32 \<Rightarrow> u8 op" where
  "anonymous addr len k = and_then (vm_brk_flags addr len k) (\<lambda>r k. if r = 0 then Ret 0 k else Ret 1 k)"

definition load_segment :: "env \<Rightarrow> symbols \<Rightarrow> u32 \<Rightarrow> elf32_phdr_t \<Rightarrow> u8 op" where
  "load_segment E L file ph k =
     (if p_type ph \<noteq> ELF32_PT_LOAD then Ret 1 k
      else if p_memsz ph < p_filesz ph then Ret 0 k
      else if p_filesz ph = 0
      then if p_memsz ph \<noteq> 0 then anonymous (p_vaddr ph) (p_memsz ph) k else Ret 1 k
      else and_then (do_mmap (p_vaddr ph) (p_filesz ph) file (p_offset ph) k) (\<lambda>r k.
        if r = 0 then Ret 0 k
        else and_then (if p_memsz ph > p_filesz ph then padzero E L (p_vaddr ph + p_filesz ph) k else Ret 1 k) (\<lambda>z k.
          if z = 0 then Ret 0 k
          else let anonymous_zeros_start = align_up (p_vaddr ph + p_filesz ph);
                   anonymous_zeros_end = p_vaddr ph + p_memsz ph
            in if anonymous_zeros_end > anonymous_zeros_start
               then anonymous anonymous_zeros_start (anonymous_zeros_end - anonymous_zeros_start) k
               else Ret 1 k)))"

fun load_segments :: "env \<Rightarrow> symbols \<Rightarrow> u32 \<Rightarrow> elf32_phdr_t list \<Rightarrow> u8 op" where
  "load_segments E L file [] k = Ret 1 k"
| "load_segments E L file (ph # phs) k =
     and_then (load_segment E L file ph k) (\<lambda>ok. if ok = 0 then Ret 0 else load_segments E L file phs)"

text \<open>
  The array of program headers is on the kernel stack, at \<open>phdr\<close>. The result is the entry point, or \<open>None\<close> when the
  function returns 0.
\<close>

definition elf32_load_exec :: "env \<Rightarrow> symbols \<Rightarrow> u32 \<Rightarrow> u32 \<Rightarrow> u32 option op" where
  "elf32_load_exec E L phdr file k =
     and_then (elf32_load_ehdr E L file k) (\<lambda>(ok, ehdr) k.
       if ok = 0 then Ret None k
       else if e_phnum ehdr = 0 then Ret None k
       else if phdr = 0 then Ret None k
       else and_then (elf32_load_phdr E L file k) (\<lambda>(ok, b) k.
         if ok = 0 then and_then (dispose phdr k) (\<lambda>_. Ret None)
         else and_then (load_segments E L file (map (phdr_of b) [0..<unat (e_phnum ehdr)]) k) (\<lambda>ok k.
           if ok = 0 then and_then (dispose phdr k) (\<lambda>_. Ret None)
           else Ret (Some (e_entry ehdr)) k)))"

section \<open>Reading headers\<close>

lemma read_elf_effect:
  assumes "k_files k file = Some f" and "k_inodes k (f_inode f) = Some i" and "healthy_inv E T K img (k_disk k, k_machine k)"
    and "unat offset + unat n \<le> unat (i_size i)" and "file_slice (block_of (sectors_of img)) i (unat offset) (unat n) = Some bs"
  shows "\<exists>d m. read_elf E L file offset n k = Ret (1, bs) (k\<lparr>k_disk := d, k_machine := m\<rparr>)
    \<and> healthy_inv E T K img (d, m) \<and> quiet m = quiet (k_machine k)"
proof -
  let ?f = "f\<lparr>f_pos := offset\<rparr>"
  define k1 where "k1 = put_file file ?f k"
  have "k_files k1 file = Some ?f" "k_inodes k1 (f_inode ?f) = Some i" "healthy_inv E T K img (k_disk k1, k_machine k1)"
      "unat (f_pos ?f) + unat n \<le> unat (i_size i)" "file_slice (block_of (sectors_of img)) i (unat (f_pos ?f)) (unat n) = Some bs"
    using assms by (simp_all add: k1_def put_file_def)
  from read_file_effect [OF this, of L] obtain d m where r: "read_file E L file n k1 = Ret (n, bs) (put_file file (?f\<lparr>f_pos := offset + n\<rparr>) (k1\<lparr>k_disk := d, k_machine := m\<rparr>))"
      "healthy_inv E T K img (d, m)" "quiet m = quiet (k_machine k)" by (auto simp: k1_def put_file_def)
  have s1: "set_file_pos file offset k = Ret () k1" using assms(1) by (simp add: set_file_pos_def with_file_def k1_def)
  have s2: "set_file_pos file (f_pos f) (put_file file (?f\<lparr>f_pos := offset + n\<rparr>) (k1\<lparr>k_disk := d, k_machine := m\<rparr>))
      = Ret () (k\<lparr>k_disk := d, k_machine := m\<rparr>)"
    using assms(1) by (simp add: set_file_pos_def with_file_def k1_def put_file_def fun_upd_idem)
  have "read_elf E L file offset n k = Ret (1, bs) (k\<lparr>k_disk := d, k_machine := m\<rparr>)"
    using assms(1) s1 r(1) s2 by (simp add: read_elf_def with_file_def [of "file" _ k] Let_def)
  then show ?thesis using r by blast
qed

lemma slice_byte:
  assumes "file_slice blk inode p n = Some bs" and "j < n"
  shows "byte_at blk inode (p + j) = Some (bs ! j)"
proof -
  have "those xs = Some ys \<Longrightarrow> j < length xs \<Longrightarrow> xs ! j = Some (ys ! j)" for xs :: "u8 option list" and ys j
  proof (induction xs arbitrary: ys j)
    case (Cons x xs)
    then show ?case by (cases j) (auto split: option.splits)
  qed simp
  from this [OF assms(1) [unfolded file_slice_def], of j] show ?thesis using assms(2) by simp
qed

text \<open>The offsets of a segment's area lead to the byte of the file that the program header names.\<close>

lemma segment_byte:
  assumes "vaddr \<le> a" and "vaddr - align_down vaddr \<le> offset" and "unat offset + (unat a - unat vaddr) < unat (i_size i)"
    and "vm_start v = align_down vaddr" and "vm_offset v = offset - (vaddr - align_down vaddr)" and "vm_file v \<noteq> 0"
    and "page_contents blk v i (page_of a) = Some bytes"
  shows "byte_at blk i (unat offset + (unat a - unat vaddr)) = Some (bytes ! unat (a AND 0xfff))"
proof -
  let ?S = "align_down vaddr" and ?P = "page_of a" and ?j = "unat (a AND 0xfff)"
  define off where "off = vm_offset v + (?P - ?S)"
  have u: "unat ?S = unat vaddr div 4096 * 4096" "unat ?P = unat a div 4096 * 4096" by (simp_all add: unat_align_down unat_page_of)
  have le: "unat vaddr \<le> unat a" using assms(1) by (simp add: word_le_nat_alt)
  have j: "?j = unat a mod 4096" "?j < 4096" by (simp_all add: and_fff_eq take_bit_eq_mod unat_mod)
  have SP: "unat ?S \<le> unat vaddr" "unat ?S \<le> unat ?P" "unat ?P + ?j = unat a"
    using u le j div_le_mono [OF le, of 4096] by simp_all
  have vS: "unat (vaddr - ?S) = unat vaddr - unat ?S" using SP(1) by (simp add: unat_sub_u32_le word_le_nat_alt)
  then have o: "unat vaddr - unat ?S \<le> unat offset" using assms(2) by (simp add: word_le_nat_alt)
  have vo: "unat (vm_offset v) = unat offset - (unat vaddr - unat ?S)" using assms(2,5) vS by (simp add: unat_sub_u32_le)
  have PS: "unat (?P - ?S) = unat ?P - unat ?S" using SP(2) by (simp add: unat_sub_u32_le word_le_nat_alt)
  have "unat (vm_offset v) + unat (?P - ?S) + ?j = unat offset + (unat a - unat vaddr)"
    unfolding vo PS using SP o le by linarith
  moreover from this have "unat off = unat (vm_offset v) + unat (?P - ?S)"
    unfolding off_def using assms(3) unat_u32_lt [of "i_size i"] by (intro unat_add_u32_nowrap) linarith
  ultimately have s: "unat off + ?j = unat offset + (unat a - unat vaddr)" by simp
  then have lt: "unat off < unat (i_size i)" "?j < min (unat (i_size i) - unat off) 4096" using assms(3) j(2) by simp_all
  then obtain bs where bs: "file_slice blk i (unat off) (min (unat (i_size i) - unat off) 4096) = Some bs"
      "bytes = bs @ replicate (4096 - min (unat (i_size i) - unat off) 4096) 0"
    using assms(4,6,7) by (auto simp: page_contents_def Let_def off_def word_le_nat_alt)
  have "bytes ! ?j = bs ! ?j" using bs(2) file_slice_length [OF bs(1)] lt(2) by (simp add: nth_append)
  then show ?thesis using slice_byte [OF bs(1) lt(2)] s by simp
qed

section \<open>What a page fault leaves alone\<close>

text \<open>Whatever the handler does, a call that returns changes no task, area or heap block.\<close>

definition keeps :: "kernel \<Rightarrow> kernel \<Rightarrow> bool" where
  "keeps k k' \<longleftrightarrow> k_tasks k' = k_tasks k \<and> k_mms k' = k_mms k \<and> k_vmas k' = k_vmas k \<and> k_heap k' = k_heap k \<and> k_inodes k' = k_inodes k
     \<and> dom (k_files k') = dom (k_files k) \<and> current_task k' = current_task k"

lemma keeps_refl [simp]: "keeps k k"
  by (simp add: keeps_def)

lemma keeps_trans: "keeps a b \<Longrightarrow> keeps b c \<Longrightarrow> keeps a c"
  by (simp add: keeps_def)

lemma keeps_updates [simp]:
  "keeps k (k'\<lparr>k_phys := a\<rparr>) \<longleftrightarrow> keeps k k'" "keeps k (k'\<lparr>k_frames := b\<rparr>) \<longleftrightarrow> keeps k k'"
  "keeps k (k'\<lparr>k_paging := c\<rparr>) \<longleftrightarrow> keeps k k'" "keeps k (k'\<lparr>k_machine := d\<rparr>) \<longleftrightarrow> keeps k k'"
  "keeps k (k'\<lparr>k_disk := e\<rparr>) \<longleftrightarrow> keeps k k'" "keeps k (on_machine f k') \<longleftrightarrow> keeps k k'"
  by (simp_all add: keeps_def on_machine_def)

lemma keeps_from [simp]:
  "keeps (k\<lparr>k_phys := a\<rparr>) k' \<longleftrightarrow> keeps k k'" "keeps (k\<lparr>k_frames := b\<rparr>) k' \<longleftrightarrow> keeps k k'"
  "keeps (k\<lparr>k_paging := c\<rparr>) k' \<longleftrightarrow> keeps k k'" "keeps (k\<lparr>k_machine := d\<rparr>) k' \<longleftrightarrow> keeps k k'"
  "keeps (on_machine f k) k' \<longleftrightarrow> keeps k k'"
  by (simp_all add: keeps_def on_machine_def)

lemma store_bytes_keeps: "store_bytes a bs k = Ret () k' \<Longrightarrow> keeps k k'"
  by (induction a bs k arbitrary: k' rule: store_bytes.induct) (auto split: option.splits if_splits)

lemma release_frame_keeps: "release_frame p k = Ret () k' \<Longrightarrow> keeps k k'"
  by (auto simp: release_frame_def split: option.splits)

lemma keeps_put_file: "k_files k a = Some f \<Longrightarrow> keeps k (put_file a g k)"
  by (simp add: keeps_def put_file_def insert_absorb domI)

lemma set_file_pos_keeps: "set_file_pos a n k = Ret () k' \<Longrightarrow> keeps k k'"
  by (auto simp: set_file_pos_def with_file_def keeps_put_file split: option.splits)

lemma read_file_keeps:
  assumes "read_file E L a n k = Ret r k'" shows "keeps k k'"
proof -
  obtain f i c bs pos d m where f: "k_files k a = Some f" and k': "k' = put_file a (f\<lparr>f_pos := pos\<rparr>) (k\<lparr>k_disk := d, k_machine := m\<rparr>)"
    using assms by (auto simp: read_file_def access_defs on_fs_def on_dev_def fs_of_def put_fs_def and_then_Ret_iff
        split: option.splits outcome.splits)
  have "keeps (k\<lparr>k_disk := d, k_machine := m\<rparr>) k'" unfolding k' using f by (intro keeps_put_file) simp
  then show ?thesis by (simp add: keeps_def)
qed

lemma table_for_page_keeps: "table_for_page L pgd i p k = Ret () k' \<Longrightarrow> keeps k k'"
  by (auto simp: table_for_page_def Let_def split_def page_fault_panic_def and_then_Ret_iff split: if_splits)

lemma fill_page_keeps: "fill_page E L pgd vma page p k = Ret () k' \<Longrightarrow> keeps k k'"
  by (auto simp: fill_page_def access_defs Let_def split_def page_fault_panic_def and_then_Ret_iff split: option.splits if_splits
      dest!: set_file_pos_keeps read_file_keeps store_bytes_keeps) (metis keeps_trans)+

lemma page_fault_handler_keeps: "page_fault_handler E L exc err_code k = Ret () k' \<Longrightarrow> keeps k k'"
  by (auto simp: page_fault_handler_def access_defs Let_def split_def page_fault_panic_def and_then_Ret_iff split: option.splits if_splits
      dest!: table_for_page_keeps store_bytes_keeps fill_page_keeps) (metis keeps_trans)

lemma write_user_keeps: "write_user E L a b k = Ret () k' \<Longrightarrow> keeps k k'"
  by (auto simp: write_user_def access_user_def exceptions_dispatch_def and_then_Ret_iff
      split: option.splits if_splits exception_handler.splits dest!: page_fault_handler_keeps)

lemma padzero_keeps:
  assumes "padzero E L a k = Ret z k'" shows "z = 1 \<and> keeps k k'"
proof -
  have m: "each (\<lambda>i. write_user E L (a + of_nat i) val) xs k = Ret () k' \<Longrightarrow> keeps k k'" for xs :: "nat list" and k k' val
    by (induction xs arbitrary: k) (auto simp: and_then_Ret_iff dest!: write_user_keeps intro: keeps_trans)
  show ?thesis using assms
    by (auto simp: padzero_def access_defs Let_def memset_user_def and_then_Ret_iff split: option.splits if_splits dest!: m)
qed

section \<open>Loading segments\<close>

text \<open>The state in which segments can be added: the areas of the current task are in order and objects are where the heap put them.\<close>

definition loadable :: "symbols \<Rightarrow> u32 \<Rightarrow> kernel \<Rightarrow> u32 list \<Rightarrow> bool" where
  "loadable L base k xs \<longleftrightarrow> objects_ok L base k \<and> (\<exists>t. k_tasks k (current_task k) = Some t \<and> mm_areas k (t_mm t) xs)"

definition areas_kept :: "kernel \<Rightarrow> u32 list \<Rightarrow> kernel \<Rightarrow> u32 list \<Rightarrow> bool" where
  "areas_kept k xs k' xs' \<longleftrightarrow> set xs \<subseteq> set xs' \<and> (\<forall>x \<in> set xs. same_area (vma_at (k_vmas k) x) (vma_at (k_vmas k') x))"

lemma areas_kept_refl [simp]: "areas_kept k xs k xs"
  by (simp add: areas_kept_def)

lemma same_area_trans: "same_area u v \<Longrightarrow> same_area v w \<Longrightarrow> same_area u w"
  by (simp add: same_area_def)

lemma areas_kept_trans: "areas_kept k xs k' xs' \<Longrightarrow> areas_kept k' xs' k'' xs'' \<Longrightarrow> areas_kept k xs k'' xs''"
  unfolding areas_kept_def by (meson same_area_trans subset_iff)

lemma loadable_keeps:
  assumes "loadable L base k xs" and "keeps k k'"
  shows "loadable L base k' xs" "areas_kept k xs k' xs"
proof -
  have "objects k' = objects k" using assms(2) by (simp add: keeps_def objects_def)
  then show "loadable L base k' xs" using assms by (simp add: loadable_def objects_ok_def keeps_def mm_areas_def)
  show "areas_kept k xs k' xs" using assms(2) by (simp add: areas_kept_def keeps_def)
qed

definition is_area :: "kernel \<Rightarrow> u32 list \<Rightarrow> u32 \<Rightarrow> u32 \<Rightarrow> u32 \<Rightarrow> u32 \<Rightarrow> bool" where
  "is_area k xs start end' file offset \<longleftrightarrow> (\<exists>r \<in> set xs. vm_start (vma_at (k_vmas k) r) = start \<and> vm_end (vma_at (k_vmas k) r) = end'
     \<and> vm_file (vma_at (k_vmas k) r) = file \<and> vm_offset (vma_at (k_vmas k) r) = offset)"

lemma is_area_kept:
  assumes "is_area k xs s e f o'" and "areas_kept k xs k' xs'"
  shows "is_area k' xs' s e f o'"
proof -
  obtain r where r: "r \<in> set xs" "vm_start (vma_at (k_vmas k) r) = s" "vm_end (vma_at (k_vmas k) r) = e"
    "vm_file (vma_at (k_vmas k) r) = f" "vm_offset (vma_at (k_vmas k) r) = o'" using assms(1) unfolding is_area_def by blast
  then have "r \<in> set xs'" "same_area (vma_at (k_vmas k) r) (vma_at (k_vmas k') r)" using assms(2) unfolding areas_kept_def by blast+
  then show ?thesis using r unfolding is_area_def by (intro bexI [of _ r]) (simp_all add: same_area_def)
qed

lemma do_mmap_current: "do_mmap addr len f offset k = Ret r k' \<Longrightarrow> current_task k' = current_task k"
  by (auto simp: do_mmap_def access_defs put_defs Let_def split_def new_def dispose_def overlaps_def link_vma_def and_then_Ret_iff
      split: option.splits if_splits)

lemma mmap_step:
  assumes "loadable L base k xs" and "unat addr + unat len + 4095 < 4294967296" and "0 < len"
  shows "\<exists>r k' xs'. do_mmap addr len f offset k = Ret r k' \<and> loadable L base k' xs' \<and> areas_kept k xs k' xs' \<and>
    (r \<noteq> 0 \<longrightarrow> is_area k' xs' (align_down addr) (align_up (addr + len)) f (if f \<noteq> 0 then offset - (addr - align_down addr) else 0)
       \<and> (f \<noteq> 0 \<longrightarrow> addr - align_down addr \<le> offset))"
proof -
  define v where "v mm = \<lparr>vm_start = align_down addr, vm_end = align_up (addr + len),
    vm_offset = (if f \<noteq> 0 then offset - (addr - align_down addr) else 0), vm_mm = mm, vm_file = f, vm_prev = 0, vm_next = 0\<rparr>" for mm
  obtain t where t: "objects_ok L base k" "k_tasks k (current_task k) = Some t" "mm_areas k (t_mm t) xs"
    using assms(1) by (auto simp: loadable_def)
  from do_mmap_cases [OF t assms(2,3), of f offset, folded v_def] obtain r k' where r: "do_mmap addr len f offset k = Ret r k'" and
    c: "if r = 0 then grown L base {} k k' \<and> (f \<noteq> 0 \<and> offset < addr - align_down addr \<or> clash k xs (align_down addr) (align_up (addr + len)) \<or> new SIZEOF_VM_AREA_T k = Ret 0 k)
     else \<exists>as bs m. xs = as @ bs \<and> \<not> clash k xs (align_down addr) (align_up (addr + len)) \<and> area_added k k' (t_mm t) as bs r (v (t_mm t))
       \<and> r \<notin> objects k \<and> heap_ok base (k_heap k') \<and> SIZEOF_VM_AREA_T \<le> m
       \<and> allocated (k_heap k') = insert (r, m) (allocated (k_heap k)) \<and> r \<notin> fst ` allocated (k_heap k)" by blast
  note cur = do_mmap_current [OF r]
  show ?thesis
  proof (cases "r = 0")
    case True
    then have g: "grown L base {} k k'" using c by simp
    note n = grown_nothing [OF g]
    have "loadable L base k' xs" using t n cur by (simp add: loadable_def objects_ok_def objects_def mm_areas_def)
    moreover have "areas_kept k xs k' xs" using n by (simp add: areas_kept_def same_area_def)
    ultimately show ?thesis using r True by blast
  next
    case False
    then obtain as bs m where a: "xs = as @ bs" "area_added k k' (t_mm t) as bs r (v (t_mm t))" "r \<notin> objects k" "heap_ok base (k_heap k')"
      "allocated (k_heap k') = insert (r, m) (allocated (k_heap k))" using c by auto
    have ad: "mm_areas k' (t_mm t) (as @ r # bs)" "same_area (v (t_mm t)) (vma_at (k_vmas k') r)"
        "\<And>x. x \<noteq> r \<Longrightarrow> same_area (vma_at (k_vmas k) x) (vma_at (k_vmas k') x)" "dom (k_vmas k') = insert r (dom (k_vmas k))"
        "\<And>x. map_option mm_pgd (k_mms k' x) = map_option mm_pgd (k_mms k x)" and
        eq: "k' = k\<lparr>k_heap := k_heap k', k_vmas := k_vmas k', k_mms := k_mms k'\<rparr>"
      using a(2) unfolding area_added_def by blast+
    have st: "k_tasks k' = k_tasks k" "k_files k' = k_files k" "k_inodes k' = k_inodes k" by (subst eq, simp)+
    have dm: "dom (k_mms k') = dom (k_mms k)"
    proof (intro set_eqI)
      fix x show "x \<in> dom (k_mms k') \<longleftrightarrow> x \<in> dom (k_mms k)" using ad(5) [of x] by (cases "k_mms k x"; cases "k_mms k' x") auto
    qed
    have "objects k' = insert r (objects k)" using st dm ad(4) by (auto simp: objects_def)
    then have "objects_ok L base k'" using t(1) a by (auto simp: objects_ok_def)
    then have "loadable L base k' (as @ r # bs)" using t(2) st ad(1) cur by (auto simp: loadable_def)
    moreover have "areas_kept k xs k' (as @ r # bs)"
    proof -
      have "r \<notin> set xs" using a(3) t(3) by (auto simp: mm_areas_def vma_chain_def objects_def dest: vma_seg_dom)
      then have "same_area (vma_at (k_vmas k) x) (vma_at (k_vmas k') x)" if "x \<in> set xs" for x using ad(3) [of x] that by metis
      then show ?thesis using a(1) by (auto simp: areas_kept_def)
    qed
    moreover have "is_area k' (as @ r # bs) (align_down addr) (align_up (addr + len)) f (if f \<noteq> 0 then offset - (addr - align_down addr) else 0)"
      unfolding is_area_def using ad(2) by (intro bexI [of _ r]) (auto simp: same_area_def v_def)
    moreover have "f \<noteq> 0 \<longrightarrow> addr - align_down addr \<le> offset"
    proof (rule impI, rule ccontr)
      assume "f \<noteq> 0" "\<not> addr - align_down addr \<le> offset"
      then have "do_mmap addr len f offset k = Ret 0 k"
        using t(2,3) by (auto simp: do_mmap_def with_task_def get_current_task_def with_mm_def mm_areas_def Let_def)
      then show False using r False by simp
    qed
    ultimately show ?thesis using r by blast
  qed
qed


text \<open>A segment that ends below the last page, and the areas that hold it once it is loaded.\<close>

definition segment_fits :: "elf32_phdr_t \<Rightarrow> bool" where
  "segment_fits ph \<longleftrightarrow> unat (p_vaddr ph) + unat (p_memsz ph) + 4095 < 4294967296"

definition zeros_start :: "elf32_phdr_t \<Rightarrow> u32" where
  "zeros_start ph = (if p_filesz ph = 0 then p_vaddr ph else align_up (p_vaddr ph + p_filesz ph))"

definition segment_mapped :: "kernel \<Rightarrow> u32 list \<Rightarrow> u32 \<Rightarrow> elf32_phdr_t \<Rightarrow> bool" where
  "segment_mapped k xs file ph \<longleftrightarrow> p_type ph = ELF32_PT_LOAD \<longrightarrow> p_filesz ph \<le> p_memsz ph
     \<and> (p_filesz ph \<noteq> 0 \<longrightarrow> p_vaddr ph - align_down (p_vaddr ph) \<le> p_offset ph
          \<and> is_area k xs (align_down (p_vaddr ph)) (align_up (p_vaddr ph + p_filesz ph)) file
              (p_offset ph - (p_vaddr ph - align_down (p_vaddr ph))))
     \<and> (zeros_start ph < p_vaddr ph + p_memsz ph \<longrightarrow>
          is_area k xs (align_down (zeros_start ph)) (align_up (p_vaddr ph + p_memsz ph)) 0 0)"

lemma segment_mapped_kept: "segment_mapped k xs f ph \<Longrightarrow> areas_kept k xs k' xs' \<Longrightarrow> segment_mapped k' xs' f ph"
  unfolding segment_mapped_def using is_area_kept by blast

lemma anonymous_step:
  assumes "loadable L base k xs" and "unat addr + unat len + 4095 < 4294967296" and "0 < len"
  shows "\<exists>r k' xs'. anonymous addr len k = Ret r k' \<and> loadable L base k' xs' \<and> areas_kept k xs k' xs' \<and>
    (r \<noteq> 0 \<longrightarrow> is_area k' xs' (align_down addr) (align_up (addr + len)) 0 0)"
proof -
  obtain r k' xs' where "do_mmap addr len 0 0 k = Ret r k'" "loadable L base k' xs'" "areas_kept k xs k' xs'"
    "r \<noteq> 0 \<longrightarrow> is_area k' xs' (align_down addr) (align_up (addr + len)) 0 0" using mmap_step [OF assms, of 0 0] by auto
  then show ?thesis by (intro exI [of _ "if r = 0 then 0 else 1"] exI [of _ k'] exI [of _ xs']) (simp add: anonymous_def vm_brk_flags_def)
qed

text \<open>Loading one segment ends with a result, unless bringing in the page that \<open>padzero\<close> clears stops the kernel.\<close>

lemma load_segment_step:
  assumes "loadable L base k xs" and "segment_fits ph" and "f \<noteq> 0"
  shows "(\<exists>ok k' xs'. load_segment E L f ph k = Ret ok k' \<and> loadable L base k' xs' \<and> areas_kept k xs k' xs'
      \<and> (ok \<noteq> 0 \<longrightarrow> segment_mapped k' xs' f ph))
    \<or> (\<exists>k1 e k2. p_filesz ph < p_memsz ph \<and> padzero E L (p_vaddr ph + p_filesz ph) k1 = Stop e k2 \<and> load_segment E L f ph k = Stop e k2)"
proof (cases "p_type ph = ELF32_PT_LOAD \<and> p_filesz ph \<le> p_memsz ph")
  case False
  then have "load_segment E L f ph k = Ret (if p_type ph = ELF32_PT_LOAD then 0 else 1) k"
    by (cases "p_type ph = ELF32_PT_LOAD") (simp_all add: load_segment_def not_le)
  then show ?thesis using assms(1) False areas_kept_refl by (fastforce simp: segment_mapped_def)
next
  case ok: True
  have fit: "unat (p_vaddr ph) + unat (p_memsz ph) + 4095 < 4294967296" using assms(2) by (simp add: segment_fits_def)
  have nlt: "\<not> p_memsz ph < p_filesz ph" using ok by (simp add: not_less)
  have le: "unat (p_filesz ph) \<le> unat (p_memsz ph)" using ok by (simp add: word_le_nat_alt)
  show ?thesis
  proof (cases "p_filesz ph = 0")
    case True
    show ?thesis
    proof (cases "p_memsz ph = 0")
      case True
      then have "load_segment E L f ph k = Ret 1 k" using ok \<open>p_filesz ph = 0\<close> by (simp add: load_segment_def)
      then show ?thesis using assms(1) True \<open>p_filesz ph = 0\<close> areas_kept_refl by (fastforce simp: segment_mapped_def zeros_start_def)
    next
      case False
      then have "0 < p_memsz ph" by (simp add: word_neq_0_conv)
      from anonymous_step [OF assms(1) fit this] show ?thesis
        using ok True False by (simp add: load_segment_def segment_mapped_def zeros_start_def) blast
    qed
  next
    case False
    then have "0 < p_filesz ph" by (simp add: word_neq_0_conv)
    from mmap_step [OF assms(1) _ this, of "p_vaddr ph" f "p_offset ph"] obtain r k1 xs1 where
      r: "do_mmap (p_vaddr ph) (p_filesz ph) f (p_offset ph) k = Ret r k1" "loadable L base k1 xs1" "areas_kept k xs k1 xs1"
        "r \<noteq> 0 \<longrightarrow> is_area k1 xs1 (align_down (p_vaddr ph)) (align_up (p_vaddr ph + p_filesz ph)) f
            (p_offset ph - (p_vaddr ph - align_down (p_vaddr ph))) \<and> p_vaddr ph - align_down (p_vaddr ph) \<le> p_offset ph"
      using fit le assms(3) by auto
    show ?thesis
    proof (cases "r = 0")
      case True
      then have "load_segment E L f ph k = Ret 0 k1" using ok nlt False r(1) by (simp add: load_segment_def)
      then show ?thesis using r by blast
    next
      case r0: False
      define pz where "pz = (if p_memsz ph > p_filesz ph then padzero E L (p_vaddr ph + p_filesz ph) k1 else Ret 1 k1)"
      let ?Z = "align_up (p_vaddr ph + p_filesz ph)" and ?T = "p_vaddr ph + p_memsz ph"
      have seg: "load_segment E L f ph k = and_then pz (\<lambda>z k. if z = 0 then Ret 0 k
          else if ?T > ?Z then anonymous ?Z (?T - ?Z) k else Ret 1 k)"
        using ok nlt False r(1) r0 by (simp add: load_segment_def [unfolded Let_def] pz_def)
      show ?thesis
      proof (cases pz)
        case (Stop e k2)
        then show ?thesis using seg by (auto simp: pz_def split: if_splits)
      next
        case (Ret z k2)
        then have z: "z = 1" "keeps k1 k2" using padzero_keeps unfolding pz_def by (auto split: if_splits)
        note l2 = loadable_keeps [OF r(2) z(2)]
        have k2: "areas_kept k xs k2 xs1" using areas_kept_trans [OF r(3) l2(2)] .
        have fa: "is_area k2 xs1 (align_down (p_vaddr ph)) ?Z f (p_offset ph - (p_vaddr ph - align_down (p_vaddr ph)))"
          using is_area_kept [OF _ l2(2)] r(4) r0 by blast
        have off: "p_vaddr ph - align_down (p_vaddr ph) \<le> p_offset ph" using r(4) r0 by blast
        show ?thesis
        proof (cases "?Z < ?T")
          case True
          have "unat ?Z + unat (?T - ?Z) + 4095 < 4294967296"
            using True fit by (simp add: unat_sub_u32_le word_less_nat_alt word_le_nat_alt unat_add_u32_nowrap)
          moreover have "0 < ?T - ?Z" using True by (simp add: word_neq_0_conv [symmetric])
          ultimately obtain q k3 xs3 where q: "anonymous ?Z (?T - ?Z) k2 = Ret q k3" "loadable L base k3 xs3" "areas_kept k2 xs1 k3 xs3"
              "q \<noteq> 0 \<longrightarrow> is_area k3 xs3 (align_down ?Z) (align_up ?T) 0 0"
            using anonymous_step [OF l2(1), of ?Z "?T - ?Z"] by auto
          have "load_segment E L f ph k = Ret q k3" using seg Ret z True q(1) by simp
          moreover have "q \<noteq> 0 \<longrightarrow> segment_mapped k3 xs3 f ph"
            using q(4) is_area_kept [OF fa q(3)] off ok False by (simp add: segment_mapped_def zeros_start_def)
          ultimately show ?thesis using q(2) areas_kept_trans [OF k2 q(3)] by blast
        next
          case nz: False
          then have "load_segment E L f ph k = Ret 1 k2" using seg Ret z by simp
          moreover have "segment_mapped k2 xs1 f ph" using fa off ok False nz by (simp add: segment_mapped_def zeros_start_def)
          ultimately show ?thesis using l2(1) k2 by blast
        qed
      qed
    qed
  qed
qed

lemma load_segments_step:
  assumes "loadable L base k xs" and "list_all segment_fits phs" and "f \<noteq> 0"
  shows "(\<exists>ok k' xs'. load_segments E L f phs k = Ret ok k' \<and> loadable L base k' xs' \<and> areas_kept k xs k' xs'
      \<and> (ok \<noteq> 0 \<longrightarrow> list_all (segment_mapped k' xs' f) phs))
    \<or> (\<exists>ph \<in> set phs. \<exists>k1 e k2. p_filesz ph < p_memsz ph \<and> padzero E L (p_vaddr ph + p_filesz ph) k1 = Stop e k2
          \<and> load_segments E L f phs k = Stop e k2)"
  using assms
proof (induction phs arbitrary: k xs)
  case Nil
  then show ?case using areas_kept_refl by fastforce
next
  case (Cons ph phs)
  from Cons.prems have p: "loadable L base k xs" "segment_fits ph" "f \<noteq> 0" "list_all segment_fits phs" by simp_all
  from load_segment_step [OF p(1-3), of E] show ?case
  proof (elim disjE exE conjE)
    fix ok k1 xs1
    assume s: "load_segment E L f ph k = Ret ok k1" "loadable L base k1 xs1" "areas_kept k xs k1 xs1" "ok \<noteq> 0 \<longrightarrow> segment_mapped k1 xs1 f ph"
    show ?thesis
    proof (cases "ok = 0")
      case True
      then have "load_segments E L f (ph # phs) k = Ret 0 k1" using s(1) by simp
      then show ?thesis using s by blast
    next
      case False
      then have e: "load_segments E L f (ph # phs) k = load_segments E L f phs k1" using s(1) by simp
      from Cons.IH [OF s(2) p(4,3)] show ?thesis unfolding e
      proof (elim disjE exE conjE bexE)
        fix ok' k2 xs2
        assume t: "load_segments E L f phs k1 = Ret ok' k2" "loadable L base k2 xs2" "areas_kept k1 xs1 k2 xs2"
          "ok' \<noteq> 0 \<longrightarrow> list_all (segment_mapped k2 xs2 f) phs"
        have "ok' \<noteq> 0 \<longrightarrow> list_all (segment_mapped k2 xs2 f) (ph # phs)"
          using t(4) segment_mapped_kept [OF _ t(3)] s(4) False by simp
        then show "(\<exists>ok k' xs'. load_segments E L f phs k1 = Ret ok k' \<and> loadable L base k' xs' \<and> areas_kept k xs k' xs'
            \<and> (ok \<noteq> 0 \<longrightarrow> list_all (segment_mapped k' xs' f) (ph # phs)))
          \<or> (\<exists>ph \<in> set (ph # phs). \<exists>ka e k2. p_filesz ph < p_memsz ph \<and> padzero E L (p_vaddr ph + p_filesz ph) ka = Stop e k2
              \<and> load_segments E L f phs k1 = Stop e k2)"
          using t areas_kept_trans [OF s(3) t(3)] by blast
      qed auto
    qed
  qed auto
qed

section \<open>The whole executable\<close>

lemma elf32_load_exec_cases:
  fixes i :: minix_inode
  defines "blk \<equiv> \<lambda>img. block_of (sectors_of img)"
  assumes "loadable L base k xs" and "f \<noteq> 0" and "phdr \<noteq> 0"
    and "k_files k f = Some fl" and "k_inodes k (f_inode fl) = Some i" and "healthy_inv E T K img (k_disk k, k_machine k)"
    and "file_slice (blk img) i 0 52 = Some hb" and "52 \<le> unat (i_size i)" and "e_phnum (ehdr_of hb) \<noteq> 0"
    and "file_slice (blk img) i (unat (e_phoff (ehdr_of hb))) (32 * unat (e_phnum (ehdr_of hb))) = Some pb"
    and "unat (e_phoff (ehdr_of hb)) + 32 * unat (e_phnum (ehdr_of hb)) \<le> unat (i_size i)"
  shows "\<exists>d m. healthy_inv E T K img (d, m) \<and> quiet m = quiet (k_machine k)
    \<and> elf32_load_exec E L phdr f k = and_then (load_segments E L f (map (phdr_of pb) [0..<unat (e_phnum (ehdr_of hb))])
        (k\<lparr>k_disk := d, k_machine := m\<rparr>)) (\<lambda>ok k. if ok = 0 then and_then (dispose phdr k) (\<lambda>_. Ret None)
          else Ret (Some (e_entry (ehdr_of hb))) k)"
proof -
  let ?n = "unat (e_phnum (ehdr_of hb))"
  have rd: "\<exists>d' m'. elf32_load_ehdr E L f (k\<lparr>k_disk := d, k_machine := m\<rparr>) = Ret (1, ehdr_of hb) (k\<lparr>k_disk := d', k_machine := m'\<rparr>)
      \<and> healthy_inv E T K img (d', m') \<and> quiet m' = quiet m" if "healthy_inv E T K img (d, m)" for d m
  proof -
    have "file_slice (block_of (sectors_of img)) i (unat (0 :: u32)) (unat SIZEOF_EHDR) = Some hb" using assms(8) by (simp add: blk_def)
    then show ?thesis
      using read_elf_effect [of "k\<lparr>k_disk := d, k_machine := m\<rparr>" f fl i E T K img 0 SIZEOF_EHDR hb L] that assms(5,6,9)
      by (auto simp: elf32_load_ehdr_def) blast
  qed
  obtain d m where 1: "elf32_load_ehdr E L f k = Ret (1, ehdr_of hb) (k\<lparr>k_disk := d, k_machine := m\<rparr>)"
      "healthy_inv E T K img (d, m)" "quiet m = quiet (k_machine k)" using rd [of "k_disk k" "k_machine k"] assms(7) by auto
  obtain d2 m2 where 2: "elf32_load_ehdr E L f (k\<lparr>k_disk := d, k_machine := m\<rparr>) = Ret (1, ehdr_of hb) (k\<lparr>k_disk := d2, k_machine := m2\<rparr>)"
      "healthy_inv E T K img (d2, m2)" "quiet m2 = quiet m" using rd [OF 1(2)] by auto
  have n: "?n * 32 mod 4294967296 = ?n * 32" by (rule mod_less) (use unat_u16_lt [of "e_phnum (ehdr_of hb)"] in linarith)
  have pn: "unat (ucast (e_phnum (ehdr_of hb)) * SIZEOF_PHDR :: u32) = 32 * ?n"
    using n by (simp add: unat_word_ariths unat_ucast_widen mult.commute)
  then have pn0: "ucast (e_phnum (ehdr_of hb)) * SIZEOF_PHDR \<noteq> (0 :: u32)" using assms(10) by (metis mult_eq_0_iff unat_0 unat_eq_zero zero_neq_numeral)
  from read_elf_effect [of "k\<lparr>k_disk := d2, k_machine := m2\<rparr>" f fl i E T K img "e_phoff (ehdr_of hb)"
      "ucast (e_phnum (ehdr_of hb)) * SIZEOF_PHDR" pb L]
  obtain d3 m3 where 3: "read_elf E L f (e_phoff (ehdr_of hb)) (ucast (e_phnum (ehdr_of hb)) * SIZEOF_PHDR) (k\<lparr>k_disk := d2, k_machine := m2\<rparr>)
      = Ret (1, pb) (k\<lparr>k_disk := d3, k_machine := m3\<rparr>)" "healthy_inv E T K img (d3, m3)" "quiet m3 = quiet m2"
    using assms(5,6,11,12) 2(2) pn by (auto simp: blk_def)
  have "elf32_load_phdr E L f (k\<lparr>k_disk := d, k_machine := m\<rparr>) = Ret (1, pb) (k\<lparr>k_disk := d3, k_machine := m3\<rparr>)"
    using 2(1) 3(1) pn0 by (simp add: elf32_load_phdr_def)
  then show ?thesis using 1 2 3 assms(4,10) by (intro exI [of _ d3] exI [of _ m3]) (simp add: elf32_load_exec_def)
qed


text \<open>
  The processor runs the current task in its address space \<open>pgd\<close>, with the areas \<open>xs\<close> and the page fault handler in place,
  and there is a frame, and a table if it takes one, for the page of \<open>a\<close>.
\<close>

definition running :: "symbols \<Rightarrow> kernel \<Rightarrow> u32 \<Rightarrow> u32 list \<Rightarrow> bool" where
  "running L k pgd xs \<longleftrightarrow> (\<exists>t m. current_task k \<noteq> 0 \<and> k_tasks k (current_task k) = Some t \<and> t_mm t \<noteq> 0 \<and> k_mms k (t_mm t) = Some m
     \<and> mm_pgd m = pgd \<and> get_cr3 (k_machine k) = get_pd_lma pgd \<and> space_ok L k pgd \<and> mm_areas k (t_mm t) xs)
     \<and> exception_handlers (k_interrupts k) ! 14 = Some Page_fault_handler"

definition room_for :: "symbols \<Rightarrow> kernel \<Rightarrow> u32 \<Rightarrow> u32 \<Rightarrow> bool" where
  "room_for L k pgd a \<longleftrightarrow> frames_used (k_frames k) \<noteq> user_frames
     \<and> (pde_present (kmem (k_paging k)) pgd (pde_index (page_of a)) \<or> pt_used L (k_paging k) \<noteq> pt_pages L)"

lemma mm_areas_on_machine: "mm_areas (on_machine f k) mm xs = mm_areas k mm xs" "space_ok L (on_machine f k) pgd = space_ok L k pgd"
  by (simp_all add: mm_areas_def on_machine_def space_ok_def)

lemma running_fault_ready:
  assumes "running L k pgd xs" and "room_for L k pgd a" and "vma \<in> set xs" and "k_vmas k vma = Some v" and "vm_start v \<le> a" and "a < vm_end v"
    and "vm_file v \<noteq> 0 \<Longrightarrow> k_files k (vm_file v) = Some f \<and> k_inodes k (f_inode f) = Some i \<and> healthy_inv E T K img (k_disk k, k_machine k)"
  shows "fault_ready E T K img L (on_machine (\<lambda>m. m\<lparr>cr2 := a\<rparr>) k) pgd v i"
proof -
  obtain t m where t: "current_task k \<noteq> 0" "k_tasks k (current_task k) = Some t" "t_mm t \<noteq> 0" "k_mms k (t_mm t) = Some m"
    "mm_pgd m = pgd" "get_cr3 (k_machine k) = get_pd_lma pgd" "space_ok L k pgd" "mm_areas k (t_mm t) xs"
    using assms(1) unfolding running_def by blast
  have h: "vm_file v \<noteq> 0 \<longrightarrow> healthy_inv E T K img (k_disk k, (k_machine k)\<lparr>cr2 := a\<rparr>)"
    using assms(7) healthy_machine by blast
  show ?thesis unfolding fault_ready_def
    by (rule exI [of _ t], rule exI [of _ m], rule exI [of _ xs], rule exI [of _ vma], rule exI [of _ f])
      (use t assms(2-7) h in \<open>simp add: mm_areas_on_machine read_cr2_def room_for_def\<close>, use t assms(7) h in \<open>simp add: on_machine_def get_cr3_def\<close>)
qed


lemma slice_without_holes:
  assumes "\<forall>p < unat (i_size i). byte_at blk i p \<noteq> None" and "p + n \<le> unat (i_size i)"
  shows "\<exists>bs. file_slice blk i p n = Some bs"
proof -
  have "map (byte_at blk i) [p..<p + n] = map (\<lambda>j. Some (the (byte_at blk i j))) [p..<p + n]"
    using assms by (intro map_cong) auto
  then show ?thesis unfolding file_slice_def by (simp only: those_map_Some) blast
qed

lemma page_without_holes:
  assumes "\<forall>p < unat (i_size i). byte_at blk i p \<noteq> None"
  shows "\<exists>bytes. page_contents blk v i page = Some bytes"
  using slice_without_holes [OF assms, of "unat (vm_offset v + (page - vm_start v))"]
  by (fastforce simp: page_contents_def Let_def not_le word_less_nat_alt)

lemma segment_end: "segment_fits ph \<Longrightarrow> p_filesz ph \<le> p_memsz ph \<Longrightarrow>
    unat (p_vaddr ph + p_filesz ph) = unat (p_vaddr ph) + unat (p_filesz ph) \<and> p_vaddr ph + p_filesz ph \<le> align_up (p_vaddr ph + p_filesz ph)
    \<and> unat (p_vaddr ph + p_memsz ph) = unat (p_vaddr ph) + unat (p_memsz ph) \<and> p_vaddr ph + p_memsz ph \<le> align_up (p_vaddr ph + p_memsz ph)"
proof -
  have le: "a \<le> align_up a" if "unat a + 4095 < 4294967296" for a
    using that by (simp add: word_le_nat_alt unat_align_up)
  assume "segment_fits ph" "p_filesz ph \<le> p_memsz ph"
  then have f: "unat (p_vaddr ph) + unat (p_memsz ph) + 4095 < 4294967296" "unat (p_filesz ph) \<le> unat (p_memsz ph)"
    by (simp_all add: segment_fits_def word_le_nat_alt)
  then have u: "unat (p_vaddr ph + p_filesz ph) = unat (p_vaddr ph) + unat (p_filesz ph)"
    "unat (p_vaddr ph + p_memsz ph) = unat (p_vaddr ph) + unat (p_memsz ph)" by (simp_all add: unat_add_u32_nowrap)
  then show ?thesis using f le [of "p_vaddr ph + p_filesz ph"] le [of "p_vaddr ph + p_memsz ph"] by simp
qed

lemma align_down_le: "align_down a \<le> a"
  by (simp add: word_le_nat_alt unat_align_down)

text \<open>The areas of a segment read as the file, and as zeros behind it.\<close>

lemma segment_reads:
  assumes "running L k pgd xs" and "room_for L k pgd a" and "translate k a = None" and "segment_mapped k xs f ph" and "segment_fits ph"
    and "p_type ph = ELF32_PT_LOAD" and "f \<noteq> 0" and "k_files k f = Some fl" and "k_inodes k (f_inode fl) = Some i"
    and "healthy_inv E T K img (k_disk k, k_machine k)" and "\<forall>p < unat (i_size i). byte_at (block_of (sectors_of img)) i p \<noteq> None"
  shows "p_vaddr ph \<le> a \<and> a < p_vaddr ph + p_filesz ph \<and> unat (p_offset ph) + unat (p_filesz ph) \<le> unat (i_size i) \<longrightarrow>
      (\<exists>b k'. read_user E L a k = Ret b k' \<and> byte_at (block_of (sectors_of img)) i (unat (p_offset ph) + (unat a - unat (p_vaddr ph))) = Some b)"
    and "zeros_start ph \<le> a \<and> a < p_vaddr ph + p_memsz ph \<longrightarrow> (\<exists>k'. read_user E L a k = Ret 0 k')"
proof -
  let ?blk = "block_of (sectors_of img)"
  have h: "exception_handlers (k_interrupts k) ! 14 = Some Page_fault_handler" using assms(1) by (simp add: running_def)
  have rd: "\<exists>bytes k'. read_user E L a k = Ret (bytes ! unat (a AND 0xfff)) k' \<and> page_contents ?blk (vma_at (k_vmas k) r) i (page_of a) = Some bytes"
    if r: "r \<in> set xs" "vm_start (vma_at (k_vmas k) r) \<le> a" "a < vm_end (vma_at (k_vmas k) r)" "vm_file (vma_at (k_vmas k) r) \<in> {0, f}" for r
  proof -
    obtain v where v: "k_vmas k r = Some v" using assms(1) r(1) by (auto simp: running_def mm_areas_def vma_chain_def dest: vma_seg_dom)
    then have va: "vma_at (k_vmas k) r = v" by (simp add: vma_at_def)
    obtain bytes where b: "page_contents ?blk v i (page_of a) = Some bytes" using page_without_holes [OF assms(11)] by blast
    have "fault_ready E T K img L (on_machine (\<lambda>m. m\<lparr>cr2 := a\<rparr>) k) pgd v i"
      using running_fault_ready [OF assms(1,2) r(1) v, of fl i E T K img] r va assms(8-10) by auto
    from first_read [OF this assms(3) h b] show ?thesis unfolding va using b by blast
  qed
  have le: "p_filesz ph \<le> p_memsz ph" using assms(4,6) by (simp add: segment_mapped_def)
  note e = segment_end [OF assms(5) le]
  show "p_vaddr ph \<le> a \<and> a < p_vaddr ph + p_filesz ph \<and> unat (p_offset ph) + unat (p_filesz ph) \<le> unat (i_size i) \<longrightarrow>
      (\<exists>b k'. read_user E L a k = Ret b k' \<and> byte_at ?blk i (unat (p_offset ph) + (unat a - unat (p_vaddr ph))) = Some b)"
  proof (intro impI, elim conjE)
    assume a: "p_vaddr ph \<le> a" "a < p_vaddr ph + p_filesz ph" "unat (p_offset ph) + unat (p_filesz ph) \<le> unat (i_size i)"
    then have "p_filesz ph \<noteq> 0" by auto
    then obtain r where o: "p_vaddr ph - align_down (p_vaddr ph) \<le> p_offset ph" and r: "r \<in> set xs" "vm_start (vma_at (k_vmas k) r) = align_down (p_vaddr ph)"
        "vm_end (vma_at (k_vmas k) r) = align_up (p_vaddr ph + p_filesz ph)" "vm_file (vma_at (k_vmas k) r) = f"
        "vm_offset (vma_at (k_vmas k) r) = p_offset ph - (p_vaddr ph - align_down (p_vaddr ph))"
      using assms(4,6) unfolding segment_mapped_def is_area_def by blast
    have "vm_start (vma_at (k_vmas k) r) \<le> a" using r(2) align_down_le a(1) by (metis order_trans)
    moreover have "a < vm_end (vma_at (k_vmas k) r)" using r(3) e a(2) by (metis order_less_le_trans)
    ultimately obtain bytes k' where b: "read_user E L a k = Ret (bytes ! unat (a AND 0xfff)) k'"
        "page_contents ?blk (vma_at (k_vmas k) r) i (page_of a) = Some bytes" using rd [OF r(1)] r(4) by blast
    have "unat (p_offset ph) + (unat a - unat (p_vaddr ph)) < unat (i_size i)" using a e by (simp add: word_le_nat_alt word_less_nat_alt)
    from segment_byte [OF a(1) o this r(2,5) _ b(2)] show "\<exists>b k'. read_user E L a k = Ret b k'
        \<and> byte_at ?blk i (unat (p_offset ph) + (unat a - unat (p_vaddr ph))) = Some b"
      using b(1) r(4) assms(7) by auto
  qed
  show "zeros_start ph \<le> a \<and> a < p_vaddr ph + p_memsz ph \<longrightarrow> (\<exists>k'. read_user E L a k = Ret 0 k')"
  proof (intro impI, elim conjE)
    assume a: "zeros_start ph \<le> a" "a < p_vaddr ph + p_memsz ph"
    then obtain r where r: "r \<in> set xs" "vm_start (vma_at (k_vmas k) r) = align_down (zeros_start ph)"
        "vm_end (vma_at (k_vmas k) r) = align_up (p_vaddr ph + p_memsz ph)" "vm_file (vma_at (k_vmas k) r) = 0"
      using assms(4,6) unfolding segment_mapped_def is_area_def by (meson order_le_less_trans)
    have "vm_start (vma_at (k_vmas k) r) \<le> a" using r(2) align_down_le a(1) by (metis order_trans)
    moreover have "a < vm_end (vma_at (k_vmas k) r)" using r(3) e a(2) by (metis order_less_le_trans)
    ultimately obtain bytes k' where b: "read_user E L a k = Ret (bytes ! unat (a AND 0xfff)) k'"
        "page_contents ?blk (vma_at (k_vmas k) r) i (page_of a) = Some bytes" using rd [OF r(1)] r(4) by blast
    have "unat (a AND 0xfff) < 4096" by (simp add: and_fff_eq take_bit_eq_mod unat_mod)
    then show "\<exists>k'. read_user E L a k = Ret 0 k'" using b r(4) by (auto simp: page_contents_def Let_def)
  qed
qed


section \<open>Examples\<close>

text \<open>An executable of 88 bytes with one segment, as the file of the small file system, and a task that may load it.\<close>

definition elf_image :: "u8 list" where
  "elf_image = [0x7f, 0x45, 0x4c, 0x46, 1, 1, 1, 0, 0, 0, 0, 0, 0, 0, 0, 0, 2, 0, 3, 0, 1, 0, 0, 0, 0x54, 0x80, 0x04, 0x08, 52, 0, 0, 0,
     0, 0, 0, 0, 0, 0, 0, 0, 52, 0, 32, 0, 1, 0, 0, 0, 0, 0, 0, 0,
     1, 0, 0, 0, 84, 0, 0, 0, 0x54, 0x80, 0x04, 0x08, 0, 0, 0, 0, 4, 0, 0, 0, 4, 0, 0, 0, 5, 0, 0, 0, 0, 0x10, 0, 0, 0x90, 0x90, 0xeb, 0xfc]"

definition elf_fs :: "nat \<Rightarrow> u8 list" where
  "elf_fs n =
     (if n = 2056 then pad ([0, 0x40, 0, 0, 32, 0, 0, 0, 0, 0, 0, 0, 0, 0, 5, 0, 0, 0, 0, 0, 0, 0, 0, 0, 0, 0, 0, 0, 0, 0, 0, 0]
                           @ [0, 0x80, 0, 0, 88, 0, 0, 0, 0, 0, 0, 0, 0, 0, 6, 0])
      else if n = 2060 then pad elf_image else tiny_fs n)"

definition elf_inode :: minix_inode where
  "elf_inode = tiny_file\<lparr>i_size := 88\<rparr>"

definition elf_sample :: kernel where
  "elf_sample = sample_kernel\<lparr>k_tasks := [0xc0180000 \<mapsto> zero_task\<lparr>t_mm := 0xc020000c\<rparr>],
     k_mms := [0xc020000c \<mapsto> \<lparr>mm_pgd = 0xc0100000, mm_mmap = 0\<rparr>], k_files := [0xc0200020 \<mapsto> \<lparr>f_inode = 0xc0200034, f_pos = 0\<rparr>],
     k_inodes := [0xc0200034 \<mapsto> elf_inode], current_task := 0xc0180000,
     k_heap := rep_heap 0xc0200000 [(8, False), (8, False), (32, False), (65440, True)]\<rparr>"

lemma elf_fs_length: "length (elf_fs n) = 512"
  by (simp add: elf_fs_def tiny_fs_length pad_def elf_image_def)

lemma elf_sample_loadable: "loadable sample_symbols 0xc0200000 elf_sample []"
proof -
  let ?bs = "[(8, False), (8, False), (32, False), (65440, True)]" and ?h = "rep_heap 0xc0200000 [(8, False), (8, False), (32, False), (65440, True)]"
  have "heap_ok 0xc0200000 ?h" using heap_ok_rep [of "0xc0200000" ?bs] by simp
  moreover have "fst ` allocated ?h = {0xc0200034, 0xc0200020, 0xc020000c}"
    using allocated_rep [of "0xc0200000" ?bs] by (simp add: fits_def)
  ultimately have "objects_ok sample_symbols 0xc0200000 elf_sample"
    by (simp add: objects_ok_def objects_def elf_sample_def sample_kernel_def boot_kernel_def sample_symbols_def)
  then show ?thesis by (simp add: loadable_def mm_areas_def vma_chain_def areas_ok_def elf_sample_def)
qed

lemma elf_slice: "p + n \<le> 88 \<Longrightarrow> 0 < n \<Longrightarrow> file_slice (block_of (sectors_of elf_fs)) elf_inode p n = Some (take n (drop p elf_image))"
proof -
  assume a: "p + n \<le> 88" "0 < n"
  have l: "length (block_of (sectors_of elf_fs) z) = 1024" for z by (simp add: block_of_def sectors_of_def upt_rec elf_fs_length)
  have z: "spec_zone (block_of (sectors_of elf_fs)) elf_inode 0 = Some 6" by (simp add: spec_zone_def Let_def elf_inode_def tiny_file_def)
  have "block_of (sectors_of elf_fs) 6 = pad elf_image @ pad []"
    by (simp add: block_of_def sectors_of_def upt_rec elf_fs_def tiny_fs_def)
  moreover have "length elf_image = 88" by (simp add: elf_image_def)
  ultimately have "take n (drop p (block_of (sectors_of elf_fs) 6)) = take n (drop p elf_image)"
    using a(1) by (simp add: pad_def)
  then show ?thesis using file_slice_block [of p n "block_of (sectors_of elf_fs)" elf_inode, OF _ a(2) l] a z by simp
qed

lemma elf_headers:
  "ehdr_of (take 52 elf_image) = \<lparr>e_ident = take 16 elf_image, e_type = 2, e_machine = 3, e_version = 1, e_entry = 0x8048054, e_phoff = 52,
     e_shoff = 0, e_flags = 0, e_ehsize = 52, e_phentsize = 32, e_phnum = 1, e_shentsize = 0, e_shnum = 0, e_shstrndx = 0\<rparr>"
  "phdr_of (take 32 (drop 52 elf_image)) 0 = \<lparr>p_type = 1, p_offset = 84, p_vaddr = 0x8048054, p_paddr = 0, p_filesz = 4, p_memsz = 4,
     p_flags = 5, p_align = 4096\<rparr>"
  by (simp_all add: ehdr_of_def phdr_of_def Let_def get16_def get32_def elf_image_def)

section \<open>Properties\<close>





end
