(* ===== verification/Syscall.thy ===== *)
theory Syscall
  imports Irq Elf
begin

text \<open>
  System calls, \<^verbatim>\<open>kernel/syscall.c\<close>: the table of handlers, the dispatcher behind interrupt 0x80 and the four handlers. Buffers and
  strings are user addresses, read and written byte by byte through the current address space, so that a byte may be paged in.
\<close>

section \<open>Model\<close>

abbreviation SYSCALL_HANDLER_ENTRIES :: u32 where "SYSCALL_HANDLER_ENTRIES \<equiv> 256"
abbreviation SYS_EXIT :: u8 where "SYS_EXIT \<equiv> 0x1"
abbreviation SYS_FORK :: u8 where "SYS_FORK \<equiv> 0x2"
abbreviation SYS_READ :: u8 where "SYS_READ \<equiv> 0x3"
abbreviation SYS_WRITE :: u8 where "SYS_WRITE \<equiv> 0x4"
abbreviation SYS_OPEN :: u8 where "SYS_OPEN \<equiv> 0x5"
abbreviation SYS_CLOSE :: u8 where "SYS_CLOSE \<equiv> 0x6"
abbreviation SYS_EXECVE :: u8 where "SYS_EXECVE \<equiv> 59"

text \<open>The registers that \<open>syscall_entry\<close> pushes, above the frame of the interrupt.\<close>

record syscall_registers_t =
  edi :: u32
  esi :: u32
  ebp :: u32
  old_kernel_esp :: u32
  ebx :: u32
  edx :: u32
  ecx :: u32
  eax :: u32
  user_eip :: u32
  user_cs :: u32
  user_eflags :: u32
  user_esp :: u32
  user_ss :: u32

text \<open>
  What the calls take from outside: the characters typed while a reader sleeps, the old contents of the array of path names, and
  the address of the array of program headers; the last two are on the kernel stack.
\<close>

record call_env =
  c_env :: env
  c_symbols :: symbols
  c_typed :: "u8 list list"
  c_components :: "u8 list"
  c_phdr :: u32

text \<open>A handler results in its return value and the registers; \<open>None\<close> if the caller has ended and another task runs.\<close>

type_synonym call_result = "(u32 \<times> syscall_registers_t) option"

definition sys_exit :: "call_env \<Rightarrow> syscall_registers_t \<Rightarrow> call_result op" where
  "sys_exit C regs k = and_then (exit_task (c_symbols C) (ebx regs) k) (\<lambda>_. Ret None)"

text \<open>\<open>tty_read\<close> and \<open>tty_write\<close> on a buffer in user memory.\<close>

fun tty_read_user :: "env \<Rightarrow> symbols \<Rightarrow> u32 \<Rightarrow> nat \<Rightarrow> u8 list list \<Rightarrow> unit op" where
  "tty_read_user E L buf 0 ws k = Ret () k"
| "tty_read_user E L buf (Suc n) ws k =
     (case tty_wait ws (k_tty k) of
        None \<Rightarrow> Stop Diverges k
      | Some (t, ws) \<Rightarrow>
          let (c, t) = tty_queue_pop_char t in
          and_then (write_user E L buf c (k\<lparr>k_tty := t\<rparr>)) (\<lambda>_. tty_read_user E L (buf + 1) n ws))"

fun tty_write_user :: "env \<Rightarrow> symbols \<Rightarrow> u32 \<Rightarrow> nat \<Rightarrow> unit op" where
  "tty_write_user E L buf 0 k = Ret () k"
| "tty_write_user E L buf (Suc n) k =
     and_then (read_user E L buf k) (\<lambda>c k. tty_write_user E L (buf + 1) n (on_machine (\<lambda>m. snd (console_putc c m)) k))"

definition sys_read :: "call_env \<Rightarrow> syscall_registers_t \<Rightarrow> call_result op" where
  "sys_read C regs k =
     (let fd = ebx regs; buf = ecx regs; count = edx regs in
      if fd \<noteq> 0 then Ret (Some (-1, regs)) k
      else and_then (tty_read_user (c_env C) (c_symbols C) buf (unat count) (c_typed C) k) (\<lambda>_. Ret (Some (count, regs))))"

definition sys_write :: "call_env \<Rightarrow> syscall_registers_t \<Rightarrow> call_result op" where
  "sys_write C regs k =
     (let fd = ebx regs; buf = ecx regs; count = edx regs in
      if (fd \<noteq> 1 \<and> fd \<noteq> 2) \<or> buf = 0 then Ret (Some (-1, regs)) k
      else and_then (tty_write_user (c_env C) (c_symbols C) buf (unat count) k) (\<lambda>_. Ret (Some (count, regs))))"

text \<open>
  The path as \<open>split_path\<close> reads it: nothing behind a null pointer, one byte if it is not a slash, and otherwise all bytes up
  to the NUL. The string may go on for ever.
\<close>

partial_function (option) read_string :: "env \<Rightarrow> symbols \<Rightarrow> u32 \<Rightarrow> kernel \<Rightarrow> (u8 list, kernel) outcome option" where
  "read_string E L a k =
     (case read_user E L a k of
        Stop e k \<Rightarrow> Some (Stop e k)
      | Ret c k \<Rightarrow>
          if c = 0 then Some (Ret [] k)
          else Option.bind (read_string E L (a + 1) k) (\<lambda>r.
            Some (and_then r (\<lambda>cs. Ret (c # cs)))))"

definition user_path :: "env \<Rightarrow> symbols \<Rightarrow> u32 \<Rightarrow> u8 list option op" where
  "user_path E L a k =
     (if a = 0 then Ret None k
      else and_then (read_user E L a k) (\<lambda>c k.
        if c \<noteq> 0x2f then Ret (Some (if c = 0 then [] else [c])) k
        else case read_string E L a k of
          None \<Rightarrow> Stop Diverges k
        | Some r \<Rightarrow> and_then r (\<lambda>cs. Ret (Some cs))))"

definition load_image :: "call_env \<Rightarrow> u32 \<Rightarrow> u32 option op" where
  "load_image C exec_file k =
     and_then (vm_brk_flags USER_STACK_BASE PAGE_SIZE k) (\<lambda>r k.
       if r = 0 then Ret None k else elf32_load_exec (c_env C) (c_symbols C) (c_phdr C) exec_file k)"

definition drop_file :: "u32 \<Rightarrow> unit op" where
  "drop_file f k = and_then (close_file f k) (\<lambda>_. dispose f)"

definition sys_execve :: "call_env \<Rightarrow> syscall_registers_t \<Rightarrow> call_result op" where
  "sys_execve C regs k =
     (let E = c_env C; L = c_symbols C; fail = (\<lambda>_ :: unit. Ret (Some (-1, regs))) in
      and_then (new SIZEOF_FILE_T k) (\<lambda>exec_file k.
        if exec_file = 0 then fail () k
        else and_then (user_path E L (ebx regs) k) (\<lambda>exec_path k.
          and_then (open_file E L (c_components C) exec_path exec_file k) (\<lambda>ok k.
            if ok = 0 then and_then (dispose exec_file k) fail
            else and_then (new SIZEOF_MM_T k) (\<lambda>new_mm k.
              if new_mm = 0 then and_then (drop_file exec_file k) fail
              else and_then (create_task_mm L new_mm k) (\<lambda>ok k.
                if ok = 0 then and_then (dispose new_mm k) (\<lambda>_ k. and_then (drop_file exec_file k) fail)
                else let task = get_current_task k in with_task task (\<lambda>t k.
                  let old_mm = t_mm t in
                  and_then (switch_mm task new_mm k) (\<lambda>_ k.
                  and_then (load_image C exec_file k) (\<lambda>entry k.
                    case entry of
                      None \<Rightarrow> and_then (switch_mm task old_mm k) (\<lambda>_ k. and_then (release_mm L new_mm k) fail)
                    | Some entry_point \<Rightarrow> and_then (release_mm L old_mm k) (\<lambda>_. with_task task (\<lambda>t k.
                        let k = on_machine (print ''Pid: '') k;
                            k = on_machine (\<lambda>m. snd (console_put_dec32 (t_pid t) m)) k;
                            k = on_machine (\<lambda>m. snd (console_putc 0x0a m)) k
                        in Ret (Some (0, regs\<lparr>edi := 0, esi := 0, ebp := 0, ebx := 0, edx := 0, ecx := 0, user_eip := entry_point,
                             user_eflags := 0x202, user_esp := USER_STACK_TOP\<rparr>)) k))))) k))))))"

definition run_handler :: "call_env \<Rightarrow> syscall_handler \<Rightarrow> syscall_registers_t \<Rightarrow> call_result op" where
  "run_handler C h =
     (case h of Sys_exit \<Rightarrow> sys_exit C | Sys_read \<Rightarrow> sys_read C | Sys_write \<Rightarrow> sys_write C | Sys_execve \<Rightarrow> sys_execve C)"

text \<open>The registers that the caller is resumed with; \<open>syscall_entry\<close> saves and restores them around the dispatcher.\<close>

definition syscall_dispatch :: "call_env \<Rightarrow> syscall_registers_t \<Rightarrow> syscall_registers_t option op" where
  "syscall_dispatch C regs k =
     (let num = eax regs in
      if num < SYSCALL_HANDLER_ENTRIES \<and> k_syscalls k ! unat num \<noteq> None
      then and_then (run_handler C (the (k_syscalls k ! unat num)) regs k) (\<lambda>r.
        Ret (map_option (\<lambda>(v, regs). regs\<lparr>eax := v\<rparr>) r))
      else Ret (Some (regs\<lparr>eax := -1\<rparr>)) k)"

text \<open>The number is a byte, so the guard of the C code always holds.\<close>

definition register_syscall :: "u8 \<Rightarrow> syscall_handler \<Rightarrow> kernel \<Rightarrow> kernel" where
  "register_syscall num h k =
     (if unat num < 256 then k\<lparr>k_syscalls := (k_syscalls k)[unat num := Some h]\<rparr> else k)"

definition init_syscall :: "symbols \<Rightarrow> u8 op" where
  "init_syscall L k =
     (let k = on_machine (print ''Setting up syscalls ... '') k;
          k = k\<lparr>k_interrupts := idt_set_gate 0x80 (sym_syscall_entry L) 0xef (k_interrupts k)\<rparr>;
          k = register_syscall SYS_EXIT Sys_exit k;
          k = register_syscall SYS_READ Sys_read k;
          k = register_syscall SYS_WRITE Sys_write k;
          k = register_syscall SYS_EXECVE Sys_execve k;
          k = on_machine (println ''Done'') k
      in Ret 1 k)"

section \<open>User buffers\<close>

text \<open>The physical addresses of a buffer whose pages are all present, and its bytes.\<close>

definition user_buffer :: "kernel \<Rightarrow> u32 \<Rightarrow> u32 list \<Rightarrow> bool" where
  "user_buffer k a ps \<longleftrightarrow> (\<forall>j < length ps. translate k (a + of_nat j) = Some (ps ! j) \<and> 0x400000 \<le> ps ! j)"

lemma user_buffer_Cons: "user_buffer k a (p # ps) \<longleftrightarrow> translate k a = Some p \<and> 0x400000 \<le> p \<and> user_buffer k (a + 1) ps"
proof
  assume b: "user_buffer k a (p # ps)"
  have "user_buffer k (a + 1) ps" unfolding user_buffer_def
  proof (intro allI impI)
    fix j assume "j < length ps"
    then show "translate k (a + 1 + of_nat j) = Some (ps ! j) \<and> 0x400000 \<le> ps ! j"
      using b [unfolded user_buffer_def, rule_format, of "Suc j"] by (simp add: add.assoc)
  qed
  then show "translate k a = Some p \<and> 0x400000 \<le> p \<and> user_buffer k (a + 1) ps"
    using b [unfolded user_buffer_def, rule_format, of 0] by simp
next
  assume b: "translate k a = Some p \<and> 0x400000 \<le> p \<and> user_buffer k (a + 1) ps"
  show "user_buffer k a (p # ps)" unfolding user_buffer_def
  proof (intro allI impI)
    fix j assume "j < length (p # ps)"
    then show "translate k (a + of_nat j) = Some ((p # ps) ! j) \<and> 0x400000 \<le> (p # ps) ! j"
      using b by (cases j) (auto simp: user_buffer_def add.assoc)
  qed
qed

lemma user_buffer_cong:
  "k_paging k' = k_paging k \<Longrightarrow> cr3 (k_machine k') = cr3 (k_machine k) \<Longrightarrow> user_buffer k' a ps = user_buffer k a ps"
  by (simp add: user_buffer_def translate_def get_cr3_def)

lemma tty_write_user_prints:
  assumes "user_buffer k buf ps"
  shows "tty_write_user E L buf (length ps) k = Ret () (on_machine (\<lambda>m. snd (tty_write (map (k_phys k) ps) m)) k)"
  using assms
proof (induction ps arbitrary: k buf)
  case (Cons p ps)
  let ?k = "on_machine (\<lambda>m. snd (console_putc (k_phys k p) m)) k"
  have b: "translate k buf = Some p" "\<not> p < 0x400000" "user_buffer k (buf + 1) ps" using Cons.prems by (auto simp: user_buffer_Cons not_less)
  then have "user_buffer ?k (buf + 1) ps" by (subst user_buffer_cong [of _ k]) (simp_all add: on_machine_def regs_console_putc)
  from Cons.IH [OF this] show ?case using b by (simp add: read_user_def access_user_def on_machine_def tty_write_def)
qed (simp add: tty_write_def on_machine_def)

fun put_at :: "u32 list \<Rightarrow> u8 list \<Rightarrow> (u32 \<Rightarrow> u8) \<Rightarrow> u32 \<Rightarrow> u8" where
  "put_at (p # ps) (c # cs) mem = put_at ps cs (mem(p := c))"
| "put_at ps cs mem = mem"

lemma tty_read_user_stores:
  assumes "user_buffer k buf ps" and "tty_read (length ps) ws (k_tty k) = Some (cs, t, ws')"
  shows "tty_read_user E L buf (length ps) ws k = Ret () (k\<lparr>k_tty := t, k_phys := put_at ps cs (k_phys k)\<rparr>)"
  using assms
proof (induction ps arbitrary: k buf ws cs)
  case (Cons p ps)
  obtain t1 ws1 where w: "tty_wait ws (k_tty k) = Some (t1, ws1)" using Cons.prems(2) by (auto split: option.splits)
  obtain c t2 where c: "tty_queue_pop_char t1 = (c, t2)" by fastforce
  obtain cs' where r: "tty_read (length ps) ws1 t2 = Some (cs', t, ws')" "cs = c # cs'" using Cons.prems(2) w c by auto
  let ?k = "k\<lparr>k_tty := t2, k_phys := (k_phys k)(p := c)\<rparr>"
  have b: "translate k buf = Some p" "\<not> p < 0x400000" "user_buffer k (buf + 1) ps" using Cons.prems by (auto simp: user_buffer_Cons not_less)
  have "user_buffer ?k (buf + 1) ps" using b(3) by (subst user_buffer_cong [of _ k]) simp_all
  from Cons.IH [OF this, of ws1 cs'] r(1) have "tty_read_user E L (buf + 1) (length ps) ws1 ?k
      = Ret () (k\<lparr>k_tty := t, k_phys := put_at ps cs' ((k_phys k)(p := c))\<rparr>)" by (simp del: fun_upd_apply)
  moreover have "translate (k\<lparr>k_tty := t2\<rparr>) buf = Some p" using b(1) by (simp add: translate_def)
  then have "write_user E L buf c (k\<lparr>k_tty := t2\<rparr>) = Ret () ?k" using b(2) by (simp add: write_user_def access_user_def)
  ultimately show ?case using w c r(2) by (simp del: fun_upd_apply)
qed simp

lemma put_at_other: "x \<notin> set ps \<Longrightarrow> put_at ps cs mem x = mem x"
  by (induction ps cs mem rule: put_at.induct) auto

lemma put_at_stored: "distinct ps \<Longrightarrow> length cs = length ps \<Longrightarrow> map (put_at ps cs mem) ps = cs"
  by (induction ps cs mem rule: put_at.induct) (auto simp: put_at_other)

lemma tty_read_length: "tty_read n ws t = Some (cs, t', ws') \<Longrightarrow> length cs = n"
  by (induction n arbitrary: ws t cs) (auto split: option.splits prod.splits)


lemma table_after_init:
  assumes "length (k_syscalls k) = 256" and "n < 256" and "init_syscall L k = Ret r k'"
  shows "k_syscalls k' ! n = (if n = 1 then Some Sys_exit else if n = 3 then Some Sys_read else if n = 4 then Some Sys_write
     else if n = 59 then Some Sys_execve else k_syscalls k ! n)"
  using assms by (auto simp: init_syscall_def Let_def register_syscall_def on_machine_def nth_list_update)

section \<open>Paths\<close>

lemma read_user_mapped: "translate k a = Some p \<Longrightarrow> 0x400000 \<le> p \<Longrightarrow> read_user E L a k = Ret (k_phys k p) k"
  by (simp add: read_user_def access_user_def not_less)

lemma read_string_mapped:
  assumes "user_buffer k a ps" and "map (k_phys k) ps = cs @ [0]" and "0 \<notin> set cs"
  shows "read_string E L a k = Some (Ret cs k)"
  using assms
proof (induction cs arbitrary: a ps)
  case Nil
  then obtain p where "ps = [p]" "k_phys k p = 0" by (cases ps) auto
  then show ?case using Nil.prems(1) by (subst read_string.simps) (simp add: user_buffer_Cons read_user_mapped)
next
  case (Cons c cs)
  then obtain p ps' where p: "ps = p # ps'" "k_phys k p = c" "map (k_phys k) ps' = cs @ [0]" by (cases ps) auto
  then have "read_string E L (a + 1) k = Some (Ret cs k)" using Cons.IH [of "a + 1" ps'] Cons.prems by (simp add: user_buffer_Cons)
  moreover have "read_user E L a k = Ret c k" using Cons.prems(1) p by (simp add: user_buffer_Cons read_user_mapped)
  ultimately show ?case using Cons.prems(3) by (subst read_string.simps) simp
qed

text \<open>A path in user memory: its bytes are present, and followed by a NUL.\<close>

definition user_string :: "kernel \<Rightarrow> u32 \<Rightarrow> u8 list \<Rightarrow> bool" where
  "user_string k a cs \<longleftrightarrow> a \<noteq> 0 \<and> 0 \<notin> set cs \<and> (\<exists>ps. user_buffer k a ps \<and> map (k_phys k) ps = cs @ [0])"

lemma user_path_mapped:
  assumes "user_string k a cs" and "cs \<noteq> []" and "hd cs = 0x2f"
  shows "user_path E L a k = Ret (Some cs) k"
proof -
  obtain ps where ps: "a \<noteq> 0" "0 \<notin> set cs" "user_buffer k a ps" "map (k_phys k) ps = cs @ [0]" using assms(1) by (auto simp: user_string_def)
  then obtain p ps' where "ps = p # ps'" "k_phys k p = 0x2f" using assms(2,3) by (cases ps; cases cs) auto
  then have "read_user E L a k = Ret 0x2f k" using ps(3) by (simp add: user_buffer_Cons read_user_mapped)
  then show ?thesis using ps read_string_mapped [OF ps(3,4,2)] by (simp add: user_path_def)
qed

lemma user_string_heap: "user_string (k\<lparr>k_heap := h\<rparr>) a cs = user_string k a cs"
  by (simp add: user_string_def user_buffer_def translate_def)

lemma open_file_resolves:
  assumes "healthy_inv E T K img (k_disk k, k_machine k)" and "path_ok p" and "length junk = 992"
    and "resolves (block_of (sectors_of img)) (k_super k) (spec_inode (block_of (sectors_of img)) (k_super k) MINIX_ROOT_INODE) (path_names p) r"
  shows "\<exists>d m. healthy_inv E T K img (d, m) \<and> quiet m = quiet (k_machine k) \<and> open_file E L junk (Some p) f k =
    (case r of
       None \<Rightarrow> Ret 0 (put_file f \<lparr>f_inode = 0, f_pos = 0\<rparr> (k\<lparr>k_disk := d, k_machine := m\<rparr>))
     | Some i \<Rightarrow> and_then (on_fs (set_inode i) (k\<lparr>k_disk := d, k_machine := m\<rparr>)) (\<lambda>r k. Ret (fst r) (put_file f (snd r) k)))"
proof -
  let ?fm = "\<lparr>fm_heap = k_heap k, fm_inodes = k_inodes k\<rparr>"
  have "healthy_inv E T K img (k_disk k, k_machine k) \<and> quiet (snd (k_disk k, k_machine k)) = quiet (k_machine k)" using assms(1) by simp
  from quiet_fs.vfs_open_resolves [OF this assms(2-4), of L ?fm] obtain s' where
    s: "healthy_inv E T K img s'" "quiet (snd s') = quiet (k_machine k)"
      "vfs_open (disk_read E L) (k_super k) junk (Some p) ((k_disk k, k_machine k), ?fm) =
        (case r of None \<Rightarrow> Ret (0, \<lparr>f_inode = 0, f_pos = 0\<rparr>) (s', ?fm) | Some i \<Rightarrow> set_inode i (s', ?fm))" by auto
  obtain d m where dm: "s' = (d, m)" by (cases s')
  have "open_file E L junk (Some p) f k = (case r of
       None \<Rightarrow> Ret 0 (put_file f \<lparr>f_inode = 0, f_pos = 0\<rparr> (k\<lparr>k_disk := d, k_machine := m\<rparr>))
     | Some i \<Rightarrow> and_then (on_fs (set_inode i) (k\<lparr>k_disk := d, k_machine := m\<rparr>)) (\<lambda>r k. Ret (fst r) (put_file f (snd r) k)))"
    using s(3) unfolding dm by (cases r) (auto simp: open_file_def on_fs_def fs_of_def put_fs_def split: outcome.splits)
  then show ?thesis using s(1,2) dm by auto
qed

lemma grown_devices:
  "grown L base S k k' \<Longrightarrow> grown L base S (k\<lparr>k_disk := d, k_machine := m\<rparr>) (k'\<lparr>k_disk := d, k_machine := m\<rparr>)"
  by (simp add: grown_def objects_def)

section \<open>Properties\<close>

text \<open>
  C19. Dispatching: after \<open>init_syscall\<close> on the zeroed table, gate 0x80 is present and open to user code, the numbers 1, 3, 4 and 59
  reach \<open>sys_exit\<close>, \<open>sys_read\<close>, \<open>sys_write\<close> and \<open>sys_execve\<close> with the caller's registers, and every other number, also one beyond the
  table, comes back at once with -1 in \<^verbatim>\<open>eax\<close>, all other registers and the kernel unchanged.
\<close>

theorem syscall_dispatch_correct:
  assumes "k_syscalls k0 = replicate 256 None" and "length (idt (k_interrupts k0)) = 256"
    and "init_syscall L k0 = Ret r k1" and "k_syscalls k = k_syscalls k1"
  shows "gate_present (idt (k_interrupts k1) ! 0x80) \<and> gate_dpl (idt (k_interrupts k1) ! 0x80) = 3
    \<and> gate_handler (idt (k_interrupts k1) ! 0x80) = sym_syscall_entry L
    \<and> syscall_dispatch C regs k =
      (let done = \<lambda>h. and_then (h C regs k) (\<lambda>r. Ret (map_option (\<lambda>(v, regs). regs\<lparr>eax := v\<rparr>) r)) in
       if eax regs = 1 then done sys_exit else if eax regs = 3 then done sys_read else if eax regs = 4 then done sys_write
       else if eax regs = 59 then done sys_execve else Ret (Some (regs\<lparr>eax := 0xffffffff\<rparr>)) k)"
proof -
  have g: "idt (k_interrupts k1) ! 0x80 = gate (sym_syscall_entry L) 0xef"
    using assms(2,3) by (auto simp: init_syscall_def Let_def register_syscall_def on_machine_def idt_set_gate_gate)
  have t: "k_syscalls k ! unat n = (if n = 1 then Some Sys_exit else if n = 3 then Some Sys_read else if n = 4 then Some Sys_write
     else if n = 59 then Some Sys_execve else None)" if "n < 256" for n :: u32
  proof -
    have "unat n < 256" using that by (simp add: word_less_nat_alt)
    then show ?thesis using table_after_init [of k0 "unat n", OF _ _ assms(3)] assms(1,4) by (simp add: word_unat_eq_iff)
  qed
  have "gate_present (gate (sym_syscall_entry L) 0xef)" "gate_dpl (gate (sym_syscall_entry L) 0xef) = 3"
    "gate_handler (gate (sym_syscall_entry L) 0xef) = sym_syscall_entry L" by (simp_all add: gate_fields)
  moreover have "k_syscalls k ! 1 = Some Sys_exit" "k_syscalls k ! 3 = Some Sys_read" "k_syscalls k ! 4 = Some Sys_write"
    "k_syscalls k ! 59 = Some Sys_execve" using t [of 1] t [of 3] t [of 4] t [of 59] by simp_all
  ultimately show ?thesis unfolding g using t [of "eax regs"]
    by (cases "eax regs < 256") (simp_all add: syscall_dispatch_def Let_def run_handler_def, auto)
qed


abbreviation sample_call :: call_env where
  "sample_call \<equiv> \<lparr>c_env = image_drive tiny_fs, c_symbols = sample_symbols, c_typed = [[0x6c], [0x73]], c_components = replicate 992 0, c_phdr = 0\<rparr>"

abbreviation zero_regs :: syscall_registers_t where
  "zero_regs \<equiv> \<lparr>edi = 0, esi = 0, ebp = 0, old_kernel_esp = 0, ebx = 0, edx = 0, ecx = 0, eax = 0, user_eip = 0, user_cs = 0x1b,
     user_eflags = 0x202, user_esp = 0xbffffff0, user_ss = 0x23\<rparr>"

theorem syscall_dispatch_correct_witness:
  "\<exists>k. init_syscall sample_symbols boot_kernel = Ret 1 k
     \<and> syscall_dispatch sample_call (zero_regs\<lparr>eax := 5\<rparr>) k = Ret (Some (zero_regs\<lparr>eax := 0xffffffff\<rparr>)) k
     \<and> syscall_dispatch sample_call (zero_regs\<lparr>eax := 0x10003\<rparr>) k = Ret (Some (zero_regs\<lparr>eax := 0xffffffff\<rparr>)) k"
proof -
  obtain k where k: "init_syscall sample_symbols boot_kernel = Ret 1 k" by (simp add: init_syscall_def Let_def)
  have "k_syscalls boot_kernel = replicate 256 None" "length (idt (k_interrupts boot_kernel)) = 256"
    by (simp_all add: boot_kernel_def boot_interrupts_def)
  note d = syscall_dispatch_correct [OF this k refl, of sample_call, THEN conjunct2, THEN conjunct2, THEN conjunct2]
  show ?thesis using k d [of "zero_regs\<lparr>eax := 5\<rparr>"] d [of "zero_regs\<lparr>eax := 0x10003\<rparr>"] by simp
qed

text \<open>
  C18. Terminal calls: \<open>sys_read\<close> on descriptor 0 sleeps until the keyboard has delivered enough, stores the characters typed, in order, at the
  user's buffer and nowhere else and returns their number; \<open>sys_write\<close> of the buffer then prints exactly these characters. Other
  descriptors are refused with -1 and change nothing.
\<close>

theorem terminal_calls_correct:
  fixes regs :: syscall_registers_t
  defines "typed \<equiv> \<lambda>C k. tty_content (k_tty k) @ cooked (concat (c_typed C))" and "n \<equiv> unat (edx regs)"
  assumes "tty_ok (k_tty k)" and "length (typed C k) \<le> 255" and "n \<le> length (typed C k)"
    and "user_buffer k (ecx regs) ps" and "length ps = n" and "distinct ps" and "ecx regs \<noteq> 0" and "ebx regs = 0"
  shows "(\<exists>k'. sys_read C regs k = Ret (Some (edx regs, regs)) k' \<and> map (k_phys k') ps = take n (typed C k)
      \<and> (\<forall>x. x \<notin> set ps \<longrightarrow> k_phys k' x = k_phys k x) \<and> k' = k\<lparr>k_tty := k_tty k', k_phys := k_phys k'\<rparr>
      \<and> sys_write C (regs\<lparr>ebx := 1\<rparr>) k' =
          Ret (Some (edx regs, regs\<lparr>ebx := 1\<rparr>)) (on_machine (\<lambda>m. snd (tty_write (take n (typed C k)) m)) k'))
    \<and> (\<forall>fd. fd \<noteq> 0 \<longrightarrow> sys_read C (regs\<lparr>ebx := fd\<rparr>) k = Ret (Some (0xffffffff, regs\<lparr>ebx := fd\<rparr>)) k)
    \<and> (\<forall>fd. fd \<noteq> 1 \<longrightarrow> fd \<noteq> 2 \<longrightarrow> sys_write C (regs\<lparr>ebx := fd\<rparr>) k = Ret (Some (0xffffffff, regs\<lparr>ebx := fd\<rparr>)) k)"
proof -
  obtain t rest where t: "tty_read n (c_typed C) (k_tty k) = Some (take n (typed C k), t, rest)"
    using tty_read_content [OF assms(3), of "c_typed C" n] assms(4,5) by (auto simp: typed_def)
  let ?cs = "take n (typed C k)"
  define k' where "k' = k\<lparr>k_tty := t, k_phys := put_at ps ?cs (k_phys k)\<rparr>"
  have "tty_read_user (c_env C) (c_symbols C) (ecx regs) n (c_typed C) k = Ret () k'"
    using tty_read_user_stores [OF assms(6), of "c_typed C" ?cs t rest] t assms(7) by (simp add: k'_def)
  then have r: "sys_read C regs k = Ret (Some (edx regs, regs)) k'" using assms(10) by (simp add: sys_read_def n_def)
  have cs: "map (k_phys k') ps = ?cs" using put_at_stored [OF assms(8), of ?cs "k_phys k"] assms(5,7) by (simp add: k'_def)
  have ub: "user_buffer k' (ecx regs) ps" using assms(6) by (subst user_buffer_cong [of _ k]) (simp_all add: k'_def)
  have "sys_write C (regs\<lparr>ebx := 1\<rparr>) k' = Ret (Some (edx regs, regs\<lparr>ebx := 1\<rparr>)) (on_machine (\<lambda>m. snd (tty_write ?cs m)) k')"
    using tty_write_user_prints [OF ub, of "c_env C" "c_symbols C"] assms(7,9) cs by (simp add: sys_write_def n_def Let_def)
  moreover have "\<forall>x. x \<notin> set ps \<longrightarrow> k_phys k' x = k_phys k x" by (simp add: k'_def put_at_other)
  moreover have "k' = k\<lparr>k_tty := k_tty k', k_phys := k_phys k'\<rparr>" by (simp add: k'_def)
  ultimately show ?thesis using r cs by (auto simp: sys_read_def sys_write_def)
qed

text \<open>A task whose page 0x8000 is present.\<close>

definition user_sample :: kernel where
  "user_sample = sample_kernel\<lparr>k_paging := one_table\<lparr>kmem := (kmem one_table)(0xc0102020 := 0x400007)\<rparr>\<rparr>"

lemma user_sample_translate: "a AND 0xfffff000 = 0x8000 \<Longrightarrow> pde_index a = 0 \<Longrightarrow> pte_index a = 8 \<Longrightarrow> translate user_sample a = Some (0x400000 + (a AND 0xfff))"
  by (simp add: translate_def user_sample_def sample_kernel_def boot_kernel_def boot_machine_def get_cr3_def get_pd_vma_def page_walk_def Let_def
      one_table_def slot_def)

theorem terminal_calls_correct_witness:
  "\<exists>k'. sys_read sample_call (zero_regs\<lparr>ecx := 0x8000, edx := 2\<rparr>) user_sample
     = Ret (Some (2, zero_regs\<lparr>ecx := 0x8000, edx := 2\<rparr>)) k' \<and> k_phys k' 0x400000 = 0x6c \<and> k_phys k' 0x400001 = 0x73"
proof -
  let ?C = sample_call and ?r = "zero_regs\<lparr>ecx := 0x8000, edx := 2\<rparr>"
  have ok: "tty_ok (k_tty user_sample)" "tty_content (k_tty user_sample) = []"
    by (simp_all add: user_sample_def sample_kernel_def boot_kernel_def tty_ok_def boot_tty_def tty_content_def pending_def)
  have ck: "cooked (concat (c_typed ?C)) = [0x6c, 0x73]" by (simp add: cooked_def)
  have tr: "translate user_sample 0x8000 = Some 0x400000" "translate user_sample 0x8001 = Some 0x400001"
    using user_sample_translate [of "0x8000"] user_sample_translate [of "0x8001"] by (simp_all add: pde_index_def pte_index_def)
  have ub: "user_buffer user_sample 0x8000 [0x400000, 0x400001]" using tr by (simp add: user_buffer_Cons) (simp add: user_buffer_def)
  from terminal_calls_correct [of user_sample ?C ?r "[0x400000, 0x400001]", THEN conjunct1] show ?thesis
    using ok ck ub by auto
qed




lemma path_sample: "user_string (user_sample\<lparr>k_phys := (\<lambda>_. 0)(0x400000 := 0x2f, 0x400001 := c)\<rparr>) 0x8000 [0x2f, c]" if "c \<noteq> 0"
proof -
  have "translate user_sample 0x8000 = Some 0x400000" "translate user_sample 0x8001 = Some 0x400001" "translate user_sample 0x8002 = Some 0x400002"
    using user_sample_translate [of "0x8000"] user_sample_translate [of "0x8001"] user_sample_translate [of "0x8002"]
    by (simp_all add: pde_index_def pte_index_def)
  then have "user_buffer (user_sample\<lparr>k_phys := (\<lambda>_. 0)(0x400000 := 0x2f, 0x400001 := c)\<rparr>) 0x8000 [0x400000, 0x400001, 0x400002]"
    by (simp add: user_buffer_Cons) (simp add: user_buffer_def)
  then show ?thesis using that unfolding user_string_def by (intro conjI exI [of _ "[0x400000, 0x400001, 0x400002]"]) simp_all
qed


end
