(* ===== verification/Boot.thy ===== *)
theory Boot
  imports Syscall
begin

text \<open>
  The kernel's entry, \<^verbatim>\<open>kernel/main.c\<close>: the order of the initialisations, and the first process.
\<close>

section \<open>Model\<close>

text \<open>The initialisation functions on the shared state.\<close>

definition boot_gdt :: "symbols \<Rightarrow> unit op" where
  "boot_gdt L k =
     (case init_gdt L (k_gdt k) (k_machine k) of
        None \<Rightarrow> Stop Bad_access k
      | Some (_, g, m) \<Rightarrow> Ret () (k\<lparr>k_gdt := g, k_machine := m\<rparr>))"

definition boot_memory :: "symbols \<Rightarrow> kernel \<Rightarrow> kernel" where
  "boot_memory L k =
     (let ((_, f), m) = init_physical_memory_allocator (k_machine k);
          ((_, h), m) = init_heap (sym_kernel_heap L) m
      in k\<lparr>k_frames := f, k_heap := h, k_machine := m\<rparr>)"

definition boot_scan :: "env \<Rightarrow> unit op" where
  "boot_scan E k =
     (case scan_pci E (k_pci k) (k_machine k) of
        Ret _ (p, m) \<Rightarrow> Ret () (k\<lparr>k_pci := p, k_machine := m\<rparr>)
      | Stop e (p, m) \<Rightarrow> Stop e (k\<lparr>k_pci := p, k_machine := m\<rparr>))"

definition on_interrupts :: "(interrupts \<Rightarrow> machine \<Rightarrow> u8 \<times> interrupts \<times> machine) \<Rightarrow> kernel \<Rightarrow> kernel" where
  "on_interrupts f k = (let (_, t, m) = f (k_interrupts k) (k_machine k) in k\<lparr>k_interrupts := t, k_machine := m\<rparr>)"

definition boot_tss :: "symbols \<Rightarrow> unit op" where
  "boot_tss L k =
     (case init_tss L (sym_kernel_stack_top L) (k_gdt k) (k_machine k) of
        None \<Rightarrow> Stop Bad_access k
      | Some (_, tss, g, m) \<Rightarrow> Ret () (k\<lparr>k_tss := tss, k_gdt := g, k_machine := m\<rparr>))"

definition boot_disk :: "env \<Rightarrow> u8 op" where
  "boot_disk E k =
     (let (r, d, t, m) = init_disk E (k_pci k) (k_disk k) (k_interrupts k) (k_machine k)
      in Ret r (k\<lparr>k_disk := d, k_interrupts := t, k_machine := m\<rparr>))"

definition boot_fs :: "env \<Rightarrow> symbols \<Rightarrow> u8 op" where
  "boot_fs E L k =
     (case init_fs E L (k_super k) (k_disk k, k_machine k) of
        Ret (r, sb) (d, m) \<Rightarrow> Ret r (k\<lparr>k_super := sb, k_disk := d, k_machine := m\<rparr>)
      | Stop e (d, m) \<Rightarrow> Stop e (k\<lparr>k_disk := d, k_machine := m\<rparr>))"

definition boot_terminal :: "env \<Rightarrow> kernel \<Rightarrow> kernel" where
  "boot_terminal E k =
     (let (_, t, m) = init_tty (k_tty k) (k_machine k); k = k\<lparr>k_tty := t, k_machine := m\<rparr>
      in on_interrupts (init_keyboard E) k)"

abbreviation PROC1_EXEC_PATH :: "u8 list" where "PROC1_EXEC_PATH \<equiv> cstr ''/bin/potatoshell''"

definition print_proc1_exec_info :: "u32 \<Rightarrow> unit op" where
  "print_proc1_exec_info exec =
     with_file exec (\<lambda>f. with_inode (f_inode f) (\<lambda>i k.
       let k = on_machine (print ''  executable file: '') k;
           k = on_machine (\<lambda>m. snd (console_puts PROC1_EXEC_PATH m)) k;
           k = on_machine (\<lambda>m. snd (console_putc 0x0a m)) k;
           k = on_machine (print ''    time: '') k;
           k = on_machine (\<lambda>m. snd (console_put_hex32 (i_time i) 1 m)) k;
           k = on_machine (\<lambda>m. snd (console_putc 0x0a m)) k;
           k = on_machine (print ''    mode: '') k;
           k = on_machine (\<lambda>m. snd (console_put_hex16 (i_mode i) 1 m)) k;
           k = on_machine (\<lambda>m. snd (console_putc 0x0a m)) k;
           k = on_machine (print ''    size: '') k;
           k = on_machine (\<lambda>m. snd (console_put_hex32 (i_size i) 1 m)) k;
           k = on_machine (\<lambda>m. snd (console_putc 0x0a m)) k;
           k = on_machine (print ''    uid: '') k;
           k = on_machine (\<lambda>m. snd (console_put_hex16 (i_uid i) 1 m)) k;
           k = on_machine (\<lambda>m. snd (console_putc 0x0a m)) k;
           k = on_machine (print ''    gid: '') k;
           k = on_machine (\<lambda>m. snd (console_put_hex8 (i_gid i) 1 m)) k;
           k = on_machine (\<lambda>m. snd (console_putc 0x0a m)) k;
           k = on_machine (print ''    links: '') k;
           k = on_machine (\<lambda>m. snd (console_put_hex8 (i_nlinks i) 1 m)) k;
           k = on_machine (\<lambda>m. snd (console_putc 0x0a m)) k
       in Ret () k))"

definition give_up :: "string \<Rightarrow> 'a op" where
  "give_up msg k = spin_forever (on_machine (println msg) k)"

text \<open>
  The call of \<open>enter_user_task\<close> pushes its five arguments and the return address \<open>ret\<close>. The result is the context that user
  mode starts in.
\<close>

definition enter_user :: "u32 \<Rightarrow> u32 \<Rightarrow> u32 \<Rightarrow> user_context op" where
  "enter_user ret entry_point flags k =
     (let k = push_word ret (push_word entry_point (push_word (ucast GDT_USER_CODE_SELECTOR) (push_word flags
                (push_word USER_STACK_TOP (push_word (ucast GDT_USER_DATA_SELECTOR) k)))))
      in Ret (enter_user_task k) k)"

definition enter_proc1 :: "call_env \<Rightarrow> u32 \<Rightarrow> user_context op" where
  "enter_proc1 C ret k =
     (let E = c_env C; L = c_symbols C; k = on_machine (println ''Spawning proc1 ...'') k in
      and_then (create_task L 0 k) (\<lambda>proc1 k.
        if proc1 = 0 then give_up ''Failed: can not create proc1 task'' k
        else with_task proc1 (\<lambda>t k.
          let k = k\<lparr>k_tss := tss_set_kernel_stack (t_kernel_stack_top t) (k_tss k)\<rparr>;
              flags = eflags (k_machine k) OR 0x200
          in and_then (enqueue_task proc1 k) (\<lambda>ok k.
            if ok = 0 then give_up ''Failed: can not register proc1 task'' k
            else and_then (vm_brk_flags USER_STACK_BASE PAGE_SIZE k) (\<lambda>r k.
              if r = 0 then give_up ''Failed: can not reserve user stack'' k
              else and_then (new SIZEOF_FILE_T k) (\<lambda>exec k.
                if exec = 0 then give_up ''Failed: can not get executable file'' k
                else and_then (open_file E L (c_components C) (Some PROC1_EXEC_PATH) exec k) (\<lambda>ok k.
                  if ok = 0 then give_up ''Failed: can not get executable file'' k
                  else and_then (print_proc1_exec_info exec k) (\<lambda>_ k.
                    and_then (elf32_load_exec E L (c_phdr C) exec k) (\<lambda>entry k.
                      case entry of
                        None \<Rightarrow> give_up ''Failed: can not load executable image'' k
                      | Some entry_point \<Rightarrow> with_task proc1 (\<lambda>t k.
                          let k = on_machine (println ''Done'') k;
                              k = on_machine (print ''Pid: '') k;
                              k = on_machine (\<lambda>m. snd (console_put_dec32 (t_pid t) m)) k;
                              k = on_machine (\<lambda>m. snd (console_putc 0x0a m)) k;
                              k = on_machine (set_cr3 (t_cr3 t)) k
                          in enter_user ret entry_point flags k) k))))))) k))"

text \<open>
  \<^verbatim>\<open>main\<close> up to the first process, in two parts; the result is whether the file system and the fault handler are ready.
\<close>

definition init_devices :: "env \<Rightarrow> symbols \<Rightarrow> bool op" where
  "init_devices E L k =
     (let k = on_interrupts (init_interrupts E L) k;
          k = on_interrupts (init_exceptions L) k in
      and_then (init_syscall L k) (\<lambda>_ k.
      and_then (boot_tss L k) (\<lambda>_ k.
      and_then (init_scheduler k) (\<lambda>_ k.
      and_then (boot_disk E (on_interrupts (init_timer E) k)) (\<lambda>disk_is_ready k.
      and_then (if disk_is_ready \<noteq> 0 then boot_fs E L k else Ret 0 k) (\<lambda>fs_is_ready k.
      and_then (init_fault k) (\<lambda>fault_handler_is_ready k.
      and_then (init_idle_task L (boot_terminal E k)) (\<lambda>_.
        Ret (fs_is_ready \<noteq> 0 \<and> fault_handler_is_ready \<noteq> 0)))))))))"

definition init_kernel :: "env \<Rightarrow> symbols \<Rightarrow> bool op" where
  "init_kernel E L k =
     (let k = on_machine (enable_console_cursor E) k;
          k = on_machine (println ''Hello, World!'') k in
      and_then (boot_gdt L k) (\<lambda>_ k.
      and_then (boot_scan E (boot_memory L k)) (\<lambda>_.
      init_devices E L)))"

definition kernel_main :: "call_env \<Rightarrow> u32 \<Rightarrow> user_context op" where
  "kernel_main C ret k =
     and_then (init_kernel (c_env C) (c_symbols C) k) (\<lambda>ready k. if ready then enter_proc1 C ret k else spin_forever k)"

section \<open>The order of the initialisations\<close>

text \<open>The zeroed static variables, and the heap's place in the address space.\<close>

definition static_ok :: "symbols \<Rightarrow> kernel \<Rightarrow> bool" where
  "static_ok L k \<longleftrightarrow> length (k_gdt k) = 6 \<and> length (idt (k_interrupts k)) = IDT_ENTRIES \<and> length (irq_handlers (k_interrupts k)) = 16
     \<and> length (exception_handlers (k_interrupts k)) = 32 \<and> k_syscalls k = replicate 256 None \<and> length (tty_queue (k_tty k)) = 256
     \<and> k_tasks k = Map.empty \<and> dead_task k = 0 \<and> sym_idle_task L \<noteq> 0
     \<and> 0 < unat (sym_kernel_heap L) \<and> unat (sym_kernel_heap L) + 65536 < 4294967296"

lemma init_gdt_returns: "length g = 6 \<Longrightarrow> \<exists>g' m'. init_gdt L g m = Some (1, g', m') \<and> length g' = 6"
  by (simp add: init_gdt_def gdt_set_entry_def Let_def)

lemma boot_gdt_effect: "length (k_gdt k) = 6 \<Longrightarrow> \<exists>g m. boot_gdt L k = Ret () (k\<lparr>k_gdt := g, k_machine := m\<rparr>) \<and> length g = 6"
  using init_gdt_returns [of "k_gdt k" L "k_machine k"] by (auto simp: boot_gdt_def) blast

lemma boot_memory_effect: "\<exists>m. boot_memory L k = k\<lparr>k_frames := init_frames, k_heap := init_heap_blocks (sym_kernel_heap L), k_machine := m\<rparr>"
  by (simp add: boot_memory_def init_physical_memory_allocator_def init_heap_def Let_def) blast

lemma boot_interrupts_effect:
  "\<exists>m. on_interrupts (init_interrupts E L) k = k\<lparr>k_interrupts := install_irq_gates L (init_idt (k_interrupts k)), k_machine := m\<rparr>"
  "\<exists>m. on_interrupts (init_exceptions L) k = k\<lparr>k_interrupts := install_exception_gates L (k_interrupts k), k_machine := m\<rparr>"
  "\<exists>m. on_interrupts (init_timer E) k = k\<lparr>k_interrupts := register_irq_handler 0 Timer_irq_handler (k_interrupts k), k_machine := m\<rparr>"
  "\<exists>m. on_interrupts (init_keyboard E) k = k\<lparr>k_interrupts := register_irq_handler 1 Keyboard_irq_handler (k_interrupts k), k_machine := m\<rparr>"
  by (simp_all add: on_interrupts_def init_interrupts_def init_exceptions_def init_timer_def init_keyboard_def Let_def split_def) blast+

lemma boot_terminal_effect:
  "\<exists>m. boot_terminal E k = k\<lparr>k_tty := (k_tty k)\<lparr>tty_queue_head := 0, tty_queue_tail := 0\<rparr>,
     k_interrupts := register_irq_handler 1 Keyboard_irq_handler (k_interrupts k), k_machine := m\<rparr>"
proof -
  obtain m where "boot_terminal E k = on_interrupts (init_keyboard E) (k\<lparr>k_tty := (k_tty k)\<lparr>tty_queue_head := 0, tty_queue_tail := 0\<rparr>, k_machine := m\<rparr>)"
    by (simp add: boot_terminal_def init_tty_def Let_def)
  moreover obtain m' where "on_interrupts (init_keyboard E) (k\<lparr>k_tty := (k_tty k)\<lparr>tty_queue_head := 0, tty_queue_tail := 0\<rparr>, k_machine := m\<rparr>)
      = k\<lparr>k_tty := (k_tty k)\<lparr>tty_queue_head := 0, tty_queue_tail := 0\<rparr>, k_machine := m\<rparr>
          \<lparr>k_interrupts := register_irq_handler 1 Keyboard_irq_handler (k_interrupts k), k_machine := m'\<rparr>"
    using boot_interrupts_effect(4) [of E "k\<lparr>k_tty := (k_tty k)\<lparr>tty_queue_head := 0, tty_queue_tail := 0\<rparr>, k_machine := m\<rparr>"] by auto
  ultimately show ?thesis by (intro exI [of _ m']) simp
qed

lemma init_syscall_effect:
  "\<exists>m. init_syscall L k = Ret 1 (k\<lparr>k_interrupts := idt_set_gate 0x80 (sym_syscall_entry L) 0xef (k_interrupts k),
     k_syscalls := (k_syscalls k)[1 := Some Sys_exit, 3 := Some Sys_read, 4 := Some Sys_write, 59 := Some Sys_execve], k_machine := m\<rparr>)"
  by (simp add: init_syscall_def register_syscall_def on_machine_def Let_def) blast

lemma boot_tss_effect:
  assumes "length (k_gdt k) = 6"
  shows "\<exists>t g m. boot_tss L k = Ret () (k\<lparr>k_tss := t, k_gdt := g, k_machine := m\<rparr>) \<and> tss_esp0 t = sym_kernel_stack_top L"
proof -
  obtain t g m where "init_tss L (sym_kernel_stack_top L) (k_gdt k) (k_machine k) = Some (1, t, g, m)" "tss_esp0 t = sym_kernel_stack_top L"
    using assms by (simp add: init_tss_def gdt_set_tss_entry_def gdt_set_entry_def Let_def)
  then show ?thesis by (intro exI [of _ t] exI [of _ g] exI [of _ m]) (simp add: boot_tss_def)
qed

lemma init_disk_effect:
  assumes "init_disk E p d t m = (r, d', t', m')"
  shows "idt t' = idt t \<and> exception_handlers t' = exception_handlers t \<and> length (irq_handlers t') = length (irq_handlers t)
    \<and> (\<forall>n. n \<noteq> 14 \<longrightarrow> irq_handlers t' ! n = irq_handlers t ! n)"
  using assms by (auto simp: init_disk_def Let_def split_def register_irq_handler_def split: option.splits if_splits)

lemma boot_disk_effect:
  "\<exists>r d t m. boot_disk E k = Ret r (k\<lparr>k_disk := d, k_interrupts := t, k_machine := m\<rparr>) \<and> idt t = idt (k_interrupts k)
    \<and> exception_handlers t = exception_handlers (k_interrupts k) \<and> length (irq_handlers t) = length (irq_handlers (k_interrupts k))
    \<and> (\<forall>n. n \<noteq> 14 \<longrightarrow> irq_handlers t ! n = irq_handlers (k_interrupts k) ! n)"
proof -
  obtain r d t m where i: "init_disk E (k_pci k) (k_disk k) (k_interrupts k) (k_machine k) = (r, d, t, m)" by (metis prod_cases4)
  then show ?thesis using init_disk_effect [OF i] by (intro exI [of _ r] exI [of _ d] exI [of _ t] exI [of _ m]) (simp add: boot_disk_def)
qed

lemma boot_fs_effect:
  "(\<exists>r sb d m. boot_fs E L k = Ret r (k\<lparr>k_super := sb, k_disk := d, k_machine := m\<rparr>)) \<or> (\<exists>e k'. boot_fs E L k = Stop e k')"
  by (auto simp: boot_fs_def split: outcome.splits prod.splits)


text \<open>What the initialisations establish.\<close>

definition booted :: "symbols \<Rightarrow> kernel \<Rightarrow> bool" where
  "booted L k \<longleftrightarrow> heap_ok (sym_kernel_heap L) (k_heap k) \<and> allocated (k_heap k) = {} \<and> frames_ok (k_frames k) \<and> frames_used (k_frames k) = {}
     \<and> tss_esp0 (k_tss k) = sym_kernel_stack_top L
     \<and> sched_ring k [sym_idle_task L] \<and> current_task k = 0 \<and> dead_task k = 0 \<and> state_of k (sym_idle_task L) = TASK_READY
     \<and> irq_handlers (k_interrupts k) ! 0 = Some Timer_irq_handler \<and> irq_handlers (k_interrupts k) ! 1 = Some Keyboard_irq_handler
     \<and> exception_handlers (k_interrupts k) ! 14 = Some Page_fault_handler
     \<and> (\<forall>n < 32. idt (k_interrupts k) ! n = gate (sym_exception L n) 0x8e) \<and> (\<forall>n < 16. idt (k_interrupts k) ! (32 + n) = gate (sym_irq L n) 0x8e)
     \<and> idt (k_interrupts k) ! 0x80 = gate (sym_syscall_entry L) 0xef
     \<and> k_syscalls k = (replicate 256 None)[1 := Some Sys_exit, 3 := Some Sys_read, 4 := Some Sys_write, 59 := Some Sys_execve]
     \<and> tty_ok (k_tty k) \<and> tty_content (k_tty k) = []"

lemma init_idle_effect:
  assumes "sym_idle_task L \<noteq> 0" and "k_tasks k = Map.empty"
  shows "\<exists>k'. init_idle_task L k = Ret 1 k' \<and> sched_ring k' [sym_idle_task L] \<and> state_of k' (sym_idle_task L) = TASK_READY
    \<and> k' = k\<lparr>k_machine := k_machine k', k_paging := k_paging k', k_tasks := k_tasks k', task_ptr := sym_idle_task L\<rparr>"
  using assms by (auto simp: init_idle_task_def Let_def split_def put_task_def on_machine_def sched_ring_def ring_def edges_def)

lemma gates_keep_handlers:
  "irq_handlers (fold (\<lambda>n. idt_set_gate (g n) (h n) f) xs t) = irq_handlers t"
  "exception_handlers (fold (\<lambda>n. idt_set_gate (g n) (h n) f) xs t) = exception_handlers t"
  by (induction xs arbitrary: t) (simp_all add: idt_set_gate_def)

text \<open>The table of gates and handlers at the end.\<close>

lemma boot_tables:
  assumes "length (idt t) = IDT_ENTRIES" and "length (irq_handlers t) = 16" and "length (exception_handlers t) = 32"
    and "t1 = register_irq_handler 0 Timer_irq_handler (idt_set_gate 0x80 s 0xef (install_exception_gates L (install_irq_gates L (init_idt t))))"
    and "idt t2 = idt t1" "exception_handlers t2 = exception_handlers t1" "length (irq_handlers t2) = length (irq_handlers t1)"
    and "\<forall>n. n \<noteq> 14 \<longrightarrow> irq_handlers t2 ! n = irq_handlers t1 ! n"
    and "t3 = register_irq_handler 1 Keyboard_irq_handler (register_exception_handler 14 Page_fault_handler t2)"
  shows "irq_handlers t3 ! 0 = Some Timer_irq_handler" "irq_handlers t3 ! 1 = Some Keyboard_irq_handler"
    "exception_handlers t3 ! 14 = Some Page_fault_handler" "\<forall>n < 32. idt t3 ! n = gate (sym_exception L n) 0x8e"
    "\<forall>n < 16. idt t3 ! (32 + n) = gate (sym_irq L n) 0x8e" "idt t3 ! 0x80 = gate s 0xef"
proof -
  note lens = init_idt_nth(1) [OF assms(1)] install_gates_nth(1) [OF init_idt_nth(1) [OF assms(1)]]
  have h: "irq_handlers (install_exception_gates L (install_irq_gates L (init_idt t))) = irq_handlers t"
    "exception_handlers (install_exception_gates L (install_irq_gates L (init_idt t))) = exception_handlers t"
    by (simp_all only: install_irq_gates_def install_exception_gates_def gates_keep_handlers) (simp_all add: init_idt_def)
  have l1: "length (irq_handlers t1) = 16" "irq_handlers t1 ! 0 = Some Timer_irq_handler" "length (exception_handlers t1) = 32"
    using assms(2,3) by (simp_all add: assms(4) register_irq_handler_def idt_set_gate_def h)
  have i1: "idt t1 = (idt (install_exception_gates L (install_irq_gates L (init_idt t))))[0x80 := gate s 0xef]"
    by (simp add: assms(4) register_irq_handler_def idt_set_gate_gate)
  have i3: "idt t3 = idt t1" by (simp add: assms(9,5) register_irq_handler_def register_exception_handler_def)
  show "irq_handlers t3 ! 0 = Some Timer_irq_handler" "irq_handlers t3 ! 1 = Some Keyboard_irq_handler"
    "exception_handlers t3 ! 14 = Some Page_fault_handler"
    using l1 assms(6-8) by (simp_all add: assms(9) register_irq_handler_def register_exception_handler_def)
  show "\<forall>n < 32. idt t3 ! n = gate (sym_exception L n) 0x8e" "\<forall>n < 16. idt t3 ! (32 + n) = gate (sym_irq L n) 0x8e" "idt t3 ! 0x80 = gate s 0xef"
    unfolding i3 i1 using install_gates_nth [OF lens(1)] install_gates_nth [OF lens(2)] by simp_all
qed

text \<open>The parts of the state that do not change any more once the heap and the frames are set up.\<close>

definition same_memory :: "kernel \<Rightarrow> kernel \<Rightarrow> bool" where
  "same_memory k k' \<longleftrightarrow> k_heap k' = k_heap k \<and> k_frames k' = k_frames k \<and> k_tty k' = (k_tty k)\<lparr>tty_queue_head := 0, tty_queue_tail := 0\<rparr>
     \<and> dead_task k' = dead_task k"

lemma init_devices_effect:
  assumes "length (k_gdt k) = 6" and "length (idt (k_interrupts k)) = IDT_ENTRIES" and "length (irq_handlers (k_interrupts k)) = 16"
    and "length (exception_handlers (k_interrupts k)) = 32" and "sym_idle_task L \<noteq> 0" and "k_tasks k = Map.empty"
    and "k_syscalls k = replicate 256 None"
  shows "(\<exists>ready k' t2. init_devices E L k = Ret ready k' \<and> same_memory k k' \<and> tss_esp0 (k_tss k') = sym_kernel_stack_top L
      \<and> sched_ring k' [sym_idle_task L] \<and> current_task k' = 0 \<and> state_of k' (sym_idle_task L) = TASK_READY
      \<and> k_syscalls k' = (replicate 256 None)[1 := Some Sys_exit, 3 := Some Sys_read, 4 := Some Sys_write, 59 := Some Sys_execve]
      \<and> (let t1 = register_irq_handler 0 Timer_irq_handler (idt_set_gate 0x80 (sym_syscall_entry L) 0xef
             (install_exception_gates L (install_irq_gates L (init_idt (k_interrupts k)))))
         in idt t2 = idt t1 \<and> exception_handlers t2 = exception_handlers t1 \<and> length (irq_handlers t2) = length (irq_handlers t1)
          \<and> (\<forall>n. n \<noteq> 14 \<longrightarrow> irq_handlers t2 ! n = irq_handlers t1 ! n)
          \<and> k_interrupts k' = register_irq_handler 1 Keyboard_irq_handler (register_exception_handler 14 Page_fault_handler t2)))
    \<or> (\<exists>e k1 k'. init_devices E L k = Stop e k' \<and> boot_fs E L k1 = Stop e k')"
proof -
  define k1 where "k1 = on_interrupts (init_interrupts E L) k"
  define k2 where "k2 = on_interrupts (init_exceptions L) k1"
  obtain m1 where 1: "k1 = k\<lparr>k_interrupts := install_irq_gates L (init_idt (k_interrupts k)), k_machine := m1\<rparr>"
    unfolding k1_def using boot_interrupts_effect(1) by blast
  obtain m2 where 2: "k2 = k1\<lparr>k_interrupts := install_exception_gates L (k_interrupts k1), k_machine := m2\<rparr>"
    unfolding k2_def using boot_interrupts_effect(2) by blast
  obtain k3 m3 where 3: "init_syscall L k2 = Ret 1 k3" "k3 = k2\<lparr>k_interrupts := idt_set_gate 0x80 (sym_syscall_entry L) 0xef (k_interrupts k2),
     k_syscalls := (k_syscalls k2)[1 := Some Sys_exit, 3 := Some Sys_read, 4 := Some Sys_write, 59 := Some Sys_execve], k_machine := m3\<rparr>"
    using init_syscall_effect by blast
  have "length (k_gdt k3) = 6" using assms(1) by (simp add: 1 2 3(2))
  then obtain k4 t g m4 where 4: "boot_tss L k3 = Ret () k4" "k4 = k3\<lparr>k_tss := t, k_gdt := g, k_machine := m4\<rparr>" "tss_esp0 t = sym_kernel_stack_top L"
    using boot_tss_effect by blast
  obtain k5 m5 where 5: "init_scheduler k4 = Ret 1 k5" "k5 = k4\<lparr>task_ptr := 0, current_task := 0, k_machine := m5\<rparr>"
    by (simp add: init_scheduler_def on_machine_def)
  define k6 where "k6 = on_interrupts (init_timer E) k5"
  obtain m6 where 6: "k6 = k5\<lparr>k_interrupts := register_irq_handler 0 Timer_irq_handler (k_interrupts k5), k_machine := m6\<rparr>"
    unfolding k6_def using boot_interrupts_effect(3) by blast
  obtain k7 r d t2 m7 where 7: "boot_disk E k6 = Ret r k7" "k7 = k6\<lparr>k_disk := d, k_interrupts := t2, k_machine := m7\<rparr>"
    and t2: "idt t2 = idt (k_interrupts k6)" "exception_handlers t2 = exception_handlers (k_interrupts k6)"
      "length (irq_handlers t2) = length (irq_handlers (k_interrupts k6))" "\<forall>n. n \<noteq> 14 \<longrightarrow> irq_handlers t2 ! n = irq_handlers (k_interrupts k6) ! n"
    using boot_disk_effect by blast
  have e: "init_devices E L k = and_then (if r \<noteq> 0 then boot_fs E L k7 else Ret 0 k7) (\<lambda>f k.
      and_then (init_fault k) (\<lambda>h k. and_then (init_idle_task L (boot_terminal E k)) (\<lambda>_. Ret (f \<noteq> 0 \<and> h \<noteq> 0))))"
    using 3(1) 4(1) 5(1) 7(1) by (simp add: init_devices_def k1_def [symmetric] k2_def [symmetric] k6_def [symmetric])
  show ?thesis
  proof (cases "if r \<noteq> 0 then boot_fs E L k7 else Ret 0 k7")
    case (Stop x k')
    then show ?thesis unfolding e by (auto split: if_splits)
  next
    case (Ret f k8)
    obtain sb d' m8 where 8: "k8 = k7\<lparr>k_super := sb, k_disk := d', k_machine := m8\<rparr>"
    proof (cases "r = 0")
      case True
      then show ?thesis using Ret by (intro that [of "k_machine k7" "k_disk k7" "k_super k7"]) simp
    next
      case False
      then show ?thesis using Ret that by (auto simp: boot_fs_def split: outcome.splits prod.splits)
    qed
    obtain k9 m9 where 9: "init_fault k8 = Ret 1 k9" "k9 = k8\<lparr>k_interrupts := register_exception_handler 14 Page_fault_handler (k_interrupts k8), k_machine := m9\<rparr>"
      by (simp add: init_fault_def on_machine_def)
    define kt where "kt = boot_terminal E k9"
    obtain m10 where 10: "kt = k9\<lparr>k_tty := (k_tty k9)\<lparr>tty_queue_head := 0, tty_queue_tail := 0\<rparr>,
        k_interrupts := register_irq_handler 1 Keyboard_irq_handler (k_interrupts k9), k_machine := m10\<rparr>" 
      unfolding kt_def using boot_terminal_effect by blast
    note c = 10 9(2) 8 7(2) 6 5(2) 4(2) 3(2) 2 1
    have "k_tasks kt = Map.empty" using assms(6) by (simp add: c)
    then obtain k' where k': "init_idle_task L kt = Ret 1 k'" "sched_ring k' [sym_idle_task L]" "state_of k' (sym_idle_task L) = TASK_READY"
        "k' = kt\<lparr>k_machine := k_machine k', k_paging := k_paging k', k_tasks := k_tasks k', task_ptr := sym_idle_task L\<rparr>"
      using init_idle_effect [OF assms(5)] by blast
    have "init_devices E L k = Ret (f \<noteq> 0) k'" unfolding e using Ret 9(1) k'(1) by (simp add: kt_def)
    moreover have "k_heap k' = k_heap k" "k_frames k' = k_frames k" "k_tty k' = (k_tty k)\<lparr>tty_queue_head := 0, tty_queue_tail := 0\<rparr>"
        "dead_task k' = dead_task k" "k_tss k' = t" "current_task k' = 0"
        "k_syscalls k' = (k_syscalls k)[1 := Some Sys_exit, 3 := Some Sys_read, 4 := Some Sys_write, 59 := Some Sys_execve]"
        "k_interrupts k' = register_irq_handler 1 Keyboard_irq_handler (register_exception_handler 14 Page_fault_handler t2)"
      by (subst k'(4), simp add: c)+
    moreover have "k_interrupts k6 = register_irq_handler 0 Timer_irq_handler (idt_set_gate 0x80 (sym_syscall_entry L) 0xef
        (install_exception_gates L (install_irq_gates L (init_idt (k_interrupts k)))))" by (simp add: c)
    ultimately show ?thesis using k'(2,3) 4(3) t2 assms(7)
      by (intro disjI1 exI [of _ "f \<noteq> 0"] exI [of _ k'] exI [of _ t2]) (simp add: same_memory_def Let_def)
  qed
qed

section \<open>Properties\<close>



end
