(* ===== verification/User.thy ===== *)
theory User
  imports Syscall
begin

text \<open>
  User mode: the system call stubs of \<^verbatim>\<open>lib/\<close> and the two programs of \<^verbatim>\<open>programs/\<close>. A stub loads its arguments into registers and
  executes interrupt 0x80. The programs are modelled by the calls they make; what a read delivers is their input.
\<close>

section \<open>Library\<close>

text \<open>The value in \<^verbatim>\<open>eax\<close> when the caller is resumed; \<open>None\<close> if it is not.\<close>

definition int80 :: "call_env \<Rightarrow> syscall_registers_t \<Rightarrow> u32 option op" where
  "int80 C regs k = and_then (syscall_dispatch C regs k) (\<lambda>r. Ret (map_option eax r))"

definition read_call :: "call_env \<Rightarrow> u32 \<Rightarrow> u32 \<Rightarrow> u32 \<Rightarrow> syscall_registers_t \<Rightarrow> u32 option op" where
  "read_call C fd buf count regs = int80 C (regs\<lparr>eax := ucast SYS_READ, ebx := fd, ecx := buf, edx := count\<rparr>)"

definition write_call :: "call_env \<Rightarrow> u32 \<Rightarrow> u32 \<Rightarrow> u32 \<Rightarrow> syscall_registers_t \<Rightarrow> u32 option op" where
  "write_call C fd buf count regs = int80 C (regs\<lparr>eax := ucast SYS_WRITE, ebx := fd, ecx := buf, edx := count\<rparr>)"

definition open_call :: "call_env \<Rightarrow> u32 \<Rightarrow> u32 \<Rightarrow> syscall_registers_t \<Rightarrow> u32 option op" where
  "open_call C pathname flags regs = int80 C (regs\<lparr>eax := ucast SYS_OPEN, ebx := pathname, ecx := flags\<rparr>)"

definition close_call :: "call_env \<Rightarrow> u32 \<Rightarrow> syscall_registers_t \<Rightarrow> u32 option op" where
  "close_call C fd regs = int80 C (regs\<lparr>eax := ucast SYS_CLOSE, ebx := fd\<rparr>)"

definition execve_call :: "call_env \<Rightarrow> u32 \<Rightarrow> u32 \<Rightarrow> u32 \<Rightarrow> syscall_registers_t \<Rightarrow> u32 option op" where
  "execve_call C pathname argv envp regs = int80 C (regs\<lparr>eax := ucast SYS_EXECVE, ebx := pathname, ecx := argv, edx := envp\<rparr>)"

text \<open>\<^verbatim>\<open>_exit\<close> repeats its call for ever, should it return.\<close>

definition exit_call :: "call_env \<Rightarrow> u32 \<Rightarrow> syscall_registers_t \<Rightarrow> unit op" where
  "exit_call C status_code regs k =
     and_then (int80 C (regs\<lparr>eax := ucast SYS_EXIT, ebx := status_code\<rparr>) k) (\<lambda>r k. case r of None \<Rightarrow> Ret () k | Some _ \<Rightarrow> Stop Diverges k)"

section \<open>Programs\<close>

text \<open>The calls of a program with the bytes they refer to.\<close>

datatype program_call = Write_out "u8 list" | Run "u8 list" | Exit u32

definition hello_start :: "program_call list" where
  "hello_start = [Write_out (cstr ''|-| [- |_ |_ ()'' @ [0x0a]), Exit 0]"

abbreviation INPUT_MAX_LENGTH :: nat where "INPUT_MAX_LENGTH \<equiv> 256"

text \<open>
  The shell's variables. The path that \<open>run_command\<close> builds is the bytes before the first NUL; the array has room for all of them.
\<close>

record shell =
  sh_input :: "u8 list"
  input_char_count :: u8

abbreviation c_string :: "u8 list \<Rightarrow> u8 list" where
  "c_string bs \<equiv> takeWhile (\<lambda>c. c \<noteq> 0) bs"

text \<open>The command is found if \<open>found\<close> says that \<open>execve\<close> does not come back; the shell's program is gone then.\<close>

definition run_command :: "(u8 list \<Rightarrow> bool) \<Rightarrow> u8 list \<Rightarrow> program_call list \<times> bool" where
  "run_command found name =
     (let path = cstr ''/bin/'' @ c_string name in
      if found path then ([Run path], True)
      else ([Run path, Write_out (c_string name), Write_out (cstr '': command not found'' @ [0x0a])], False))"

abbreviation shell_prompt :: "u8 list" where
  "shell_prompt \<equiv> cstr ''potato$hell> ''"

definition shell_start :: "shell \<Rightarrow> program_call list \<times> shell" where
  "shell_start s = ([Write_out shell_prompt], s\<lparr>input_char_count := 0\<rparr>)"

text \<open>One turn of the loop in which \<^verbatim>\<open>read\<close> delivers \<open>c\<close>; \<open>None\<close> is the shell replaced by a command.\<close>

definition shell_step :: "(u8 list \<Rightarrow> bool) \<Rightarrow> u8 \<Rightarrow> shell \<Rightarrow> program_call list \<times> shell option" where
  "shell_step found c s =
     (let n = input_char_count s; s = s\<lparr>sh_input := (sh_input s)[unat n := c]\<rparr> in
      if c = 0x08 then
        if n = 0 then ([], Some s) else ([Write_out [c]], Some (s\<lparr>input_char_count := n - 1\<rparr>))
      else if c = 0x0a then
        let s = s\<lparr>sh_input := (sh_input s)[unat n := 0]\<rparr>;
            (calls, gone) = (if n > 0 then run_command found (sh_input s) else ([], False))
        in if gone then (Write_out [c] # calls, None)
           else (Write_out [c] # calls @ [Write_out shell_prompt], Some (s\<lparr>input_char_count := 0\<rparr>))
      else ([Write_out [c]], Some (s\<lparr>input_char_count := n + 1\<rparr>)))"

fun shell_run :: "(u8 list \<Rightarrow> bool) \<Rightarrow> u8 list \<Rightarrow> shell \<Rightarrow> program_call list \<times> shell option" where
  "shell_run found [] s = ([], Some s)"
| "shell_run found (c # cs) s =
     (case shell_step found c s of
        (calls, None) \<Rightarrow> (calls, None)
      | (calls, Some s) \<Rightarrow> apfst ((@) calls) (shell_run found cs s))"

section \<open>Line editing\<close>

text \<open>The line as it was meant: a backspace takes back the last character.\<close>

definition edit_key :: "u8 \<Rightarrow> u8 list \<Rightarrow> u8 list" where
  "edit_key c line = (if c = 0x08 then butlast line else line @ [c])"

definition editing :: "u8 list \<Rightarrow> u8 list \<Rightarrow> u8 list" where
  "editing cs line = fold edit_key cs line"

text \<open>The line never fills the input array.\<close>

definition fits_line :: "u8 list \<Rightarrow> u8 list \<Rightarrow> bool" where
  "fits_line cs line \<longleftrightarrow> list_all (\<lambda>n. length (editing (take n cs) line) < INPUT_MAX_LENGTH) [0..<Suc (length cs)]"

text \<open>The array holds the line.\<close>

definition shell_holds :: "shell \<Rightarrow> u8 list \<Rightarrow> bool" where
  "shell_holds s line \<longleftrightarrow> length (sh_input s) = INPUT_MAX_LENGTH \<and> length line = unat (input_char_count s)
     \<and> take (length line) (sh_input s) = line"

lemma shell_key:
  assumes "shell_holds s line" and "c \<noteq> 0x0a" and "length (edit_key c line) < INPUT_MAX_LENGTH"
  shows "\<exists>s'. shell_step found c s = (if c = 0x08 \<and> line = [] then [] else [Write_out [c]], Some s') \<and> shell_holds s' (edit_key c line)"
proof -
  let ?n = "input_char_count s"
  have h: "length (sh_input s) = 256" "length line = unat ?n" "take (length line) (sh_input s) = line"
    using assms(1) unfolding shell_holds_def by blast+
  have e: "line = [] \<longleftrightarrow> ?n = 0" using h(2) by (metis length_0_conv unat_eq_zero)
  show ?thesis
  proof (cases "c = 0x08")
    case True
    show ?thesis
    proof (cases "?n = 0")
      case True
      then show ?thesis using \<open>c = 0x08\<close> h e by (simp add: shell_step_def Let_def shell_holds_def edit_key_def)
    next
      case False
      have u: "unat (?n - 1) = unat ?n - 1" using False by (simp add: unat_minus_one)
      have "take (unat ?n - 1) ((sh_input s)[unat ?n := c]) = butlast line"
        using h(3) butlast_take [of "unat ?n" "sh_input s"] unat_u8_lt [of ?n] unfolding h(2) h(1) by simp
      then show ?thesis using True False h e u by (simp add: shell_step_def Let_def shell_holds_def edit_key_def)
    qed
  next
    case False
    then have l: "unat ?n + 1 < 256" using assms(3) h(2) by (simp add: edit_key_def)
    then have "unat (?n + 1) = unat ?n + 1" by (simp add: unat_word_ariths)
    moreover have "take (unat ?n + 1) ((sh_input s)[unat ?n := c]) = line @ [c]"
      using h l by (simp add: take_Suc_conv_app_nth)
    ultimately show ?thesis using False assms(2) h by (simp add: shell_step_def Let_def shell_holds_def edit_key_def)
  qed
qed


text \<open>What the shell prints while a line is typed.\<close>

fun echoes :: "u8 list \<Rightarrow> u8 list \<Rightarrow> program_call list" where
  "echoes [] line = []"
| "echoes (c # cs) line = (if c = 0x08 \<and> line = [] then [] else [Write_out [c]]) @ echoes cs (edit_key c line)"

lemma editing_Cons: "editing (c # cs) line = editing cs (edit_key c line)" "editing [] line = line"
  by (simp_all add: editing_def)

lemma fits_line_Cons: "fits_line (c # cs) line \<longleftrightarrow> length line < INPUT_MAX_LENGTH \<and> fits_line cs (edit_key c line)"
proof -
  have "[0..<Suc (length (c # cs))] = 0 # map Suc [0..<Suc (length cs)]" by (simp add: map_Suc_upt upt_conv_Cons del: upt_Suc)
  then show ?thesis unfolding fits_line_def by (simp only: list.pred_inject list.pred_map comp_def) (simp add: editing_Cons)
qed

lemma fits_line_start: "fits_line cs line \<Longrightarrow> length line < INPUT_MAX_LENGTH"
  by (cases cs) (simp_all add: fits_line_Cons, simp add: fits_line_def editing_Cons)

lemma shell_keys:
  assumes "shell_holds s line" and "0x0a \<notin> set cs" and "fits_line cs line"
  shows "\<exists>s'. shell_holds s' (editing cs line)
    \<and> shell_run found (cs @ ds) s = apfst ((@) (echoes cs line)) (shell_run found ds s')"
  using assms
proof (induction cs arbitrary: s line)
  case Nil
  then show ?case by (intro exI [of _ s]) (simp add: editing_Cons split_def apfst_def map_prod_def)
next
  case (Cons c cs)
  have f: "fits_line cs (edit_key c line)" using Cons.prems(3) by (simp add: fits_line_Cons)
  obtain s1 where s1: "shell_step found c s = (if c = 0x08 \<and> line = [] then [] else [Write_out [c]], Some s1)" "shell_holds s1 (edit_key c line)"
    using shell_key [OF Cons.prems(1) _ fits_line_start [OF f]] Cons.prems(2) by auto
  from Cons.IH [OF s1(2) _ f] Cons.prems(2) obtain s' where
    "shell_holds s' (editing cs (edit_key c line))" "shell_run found (cs @ ds) s1 = apfst ((@) (echoes cs (edit_key c line))) (shell_run found ds s')" by auto
  then show ?case using s1(1) by (intro exI [of _ s']) (simp add: editing_Cons split_def apfst_def map_prod_def)
qed

lemma editing_set: "set (editing cs line) \<subseteq> set cs \<union> set line"
proof (induction cs arbitrary: line)
  case (Cons c cs)
  have "set (edit_key c line) \<subseteq> insert c (set line)" by (auto simp: edit_key_def dest: in_set_butlastD)
  then show ?case using Cons.IH [of "edit_key c line"] by (auto simp: editing_Cons)
qed (simp add: editing_Cons)

lemma shell_newline:
  assumes "shell_holds s line" and "0 \<notin> set line"
  shows "\<exists>s'. shell_holds s' [] \<and> shell_step found 0x0a s =
    (let path = cstr ''/bin/'' @ line in
     if line = [] then ([Write_out [0x0a], Write_out shell_prompt], Some s')
     else if found path then ([Write_out [0x0a], Run path], None)
     else ([Write_out [0x0a], Run path, Write_out line, Write_out (cstr '': command not found'' @ [0x0a]), Write_out shell_prompt], Some s'))"
proof -
  let ?n = "unat (input_char_count s)"
  have h: "length (sh_input s) = 256" "length line = ?n" "take (length line) (sh_input s) = line"
    using assms(1) unfolding shell_holds_def by blast+
  have e: "line = [] \<longleftrightarrow> input_char_count s = 0" using h(2) by (metis length_0_conv unat_eq_zero)
  let ?in = "(sh_input s)[?n := 0]"
  have "?in = line @ 0 # drop (Suc ?n) (sh_input s)"
    using h unat_u8_lt [of "input_char_count s"] upd_conv_take_nth_drop [of ?n "sh_input s" 0] by simp
  moreover have "takeWhile (\<lambda>c. c \<noteq> 0) (line @ 0 # r) = line" for r
    using assms(2) by (induction line) auto
  ultimately have cs: "c_string ?in = line" by simp
  have "shell_holds (s\<lparr>sh_input := ?in, input_char_count := 0\<rparr>) []" using h(1) by (simp add: shell_holds_def)
  then show ?thesis using e cs
    by (intro exI [of _ "s\<lparr>sh_input := ?in, input_char_count := 0\<rparr>"]) (auto simp: shell_step_def Let_def run_command_def word_neq_0_conv)
qed

section \<open>Properties\<close>

text \<open>
  C36. The shell's line editing: whatever is typed, with backspaces anywhere, as long as the line never exceeds 255 characters, the shell echoes the
  keys, drops backspaces on an empty line, and on return runs exactly the command whose name is the edited line, or none if it is empty;
  an unknown command is reported by its name, and the shell is ready for the next line.
\<close>

theorem shell_runs_edited_line:
  fixes cs :: "u8 list"
  defines "line \<equiv> editing cs []"
  assumes "shell_holds s []" and "0x0a \<notin> set cs" and "0 \<notin> set cs" and "fits_line cs []"
  shows "\<exists>s'. shell_holds s' [] \<and> shell_run found (cs @ [0x0a]) s =
    (let path = cstr ''/bin/'' @ line in
     if line = [] then (echoes cs [] @ [Write_out [0x0a], Write_out shell_prompt], Some s')
     else if found path then (echoes cs [] @ [Write_out [0x0a], Run path], None)
     else (echoes cs [] @ [Write_out [0x0a], Run path, Write_out line, Write_out (cstr '': command not found'' @ [0x0a]),
             Write_out shell_prompt], Some s'))"
proof -
  from shell_keys [OF assms(2,3,5), of found "[0x0a]"] obtain s1 where
    s1: "shell_holds s1 line" "shell_run found (cs @ [0x0a]) s = apfst ((@) (echoes cs [])) (shell_run found [0x0a] s1)"
    by (auto simp: line_def)
  have "0 \<notin> set line" using editing_set [of cs "[]"] assms(4) by (auto simp: line_def)
  from shell_newline [OF s1(1) this, of found] obtain s' where "shell_holds s' []" "shell_step found 0x0a s1 =
    (let path = cstr ''/bin/'' @ line in
     if line = [] then ([Write_out [0x0a], Write_out shell_prompt], Some s')
     else if found path then ([Write_out [0x0a], Run path], None)
     else ([Write_out [0x0a], Run path, Write_out line, Write_out (cstr '': command not found'' @ [0x0a]), Write_out shell_prompt], Some s'))" by blast
  then show ?thesis unfolding s1(2) by (intro exI [of _ s']) (simp add: Let_def)
qed

theorem shell_runs_edited_line_witness:
  "\<exists>s'. shell_run (\<lambda>p. p = cstr ''/bin/ls'') (cstr ''lx'' @ [0x08] @ cstr ''s'' @ [0x0a]) \<lparr>sh_input = replicate 256 0, input_char_count = 0\<rparr>
     = ([Write_out [0x6c], Write_out [0x78], Write_out [0x08], Write_out [0x73], Write_out [0x0a], Run (cstr ''/bin/ls'')], s')"
proof -
  let ?cs = "[0x6c, 0x78, 0x08, 0x73] :: u8 list"
  have ks: "cstr ''lx'' @ [0x08] @ cstr ''s'' @ [0x0a] = ?cs @ [0x0a]" by (simp add: cstr_def)
  have "editing ?cs [] = cstr ''ls''" by (simp add: editing_def edit_key_def cstr_def)
  moreover have "fits_line ?cs []" by (simp add: fits_line_Cons edit_key_def) (simp add: fits_line_def editing_def)
  moreover have "echoes ?cs [] = [Write_out [0x6c], Write_out [0x78], Write_out [0x08], Write_out [0x73]]" by (simp add: edit_key_def)
  moreover have "shell_holds \<lparr>sh_input = replicate 256 0, input_char_count = 0\<rparr> []" by (simp add: shell_holds_def)
  moreover have "cstr ''ls'' \<noteq> []" "cstr ''/bin/'' @ cstr ''ls'' = cstr ''/bin/ls''" by (simp_all add: cstr_def)
  ultimately show ?thesis
    using shell_runs_edited_line [of "\<lparr>sh_input = replicate 256 0, input_char_count = 0\<rparr>" ?cs "\<lambda>p. p = cstr ''/bin/ls''"] unfolding ks by (simp add: Let_def)
qed

text \<open>The count of characters is a byte: the 256th character of a line makes the shell forget the line.\<close>

lemma shell_line_wraps:
  assumes "input_char_count s = 255" and "c \<noteq> 0x08" and "c \<noteq> 0x0a"
  shows "\<exists>s'. shell_step found c s = ([Write_out [c]], Some s') \<and> input_char_count s' = 0"
  using assms by (simp add: shell_step_def Let_def)

text \<open>Opening and closing are not among the registered calls: both stubs return -1.\<close>

lemma open_close_refused:
  assumes "k_syscalls k ! 5 = None" and "k_syscalls k ! 6 = None"
  shows "open_call C pathname flags regs k = Ret (Some 0xffffffff) k" "close_call C fd regs k = Ret (Some 0xffffffff) k"
  using assms by (simp_all add: open_call_def close_call_def int80_def syscall_dispatch_def Let_def)

end
