(* ===== verification/Teardown.thy ===== *)
theory Teardown
  imports Sched_Spec
begin

text \<open>
  The end of address spaces and tasks: what \<open>release_mm\<close> of \<^verbatim>\<open>kernel/process.c\<close> gives back, and how \<open>exit_task\<close> and
  \<open>reap_dead_task\<close> of \<^verbatim>\<open>kernel/sched.c\<close> remove a task. The definitions are those of \<open>Process\<close> and \<open>Sched\<close>.
\<close>

section \<open>Tables and frames\<close>

definition user_entry :: "u32 \<Rightarrow> bool" where
  "user_entry pde \<longleftrightarrow> pde AND PAGE_FLAG_PRESENT \<noteq> 0 \<and> pde AND PAGE_FLAG_USER \<noteq> 0"

text \<open>The tables of the first \<open>n\<close> entries of a directory that belong to the user, and the frames of the first \<open>n\<close> entries of a table.\<close>

definition user_tables :: "(u32 \<Rightarrow> u32) \<Rightarrow> u32 \<Rightarrow> nat \<Rightarrow> u32 set" where
  "user_tables mem pd n = {get_pd_vma (mem (slot pd (of_nat i))) | i. i < n \<and> user_entry (mem (slot pd (of_nat i)))}"

definition table_frames :: "(u32 \<Rightarrow> u32) \<Rightarrow> u32 \<Rightarrow> nat \<Rightarrow> u32 set" where
  "table_frames mem t n = {page_of (mem (slot t (of_nat j))) | j. j < n \<and> mem (slot t (of_nat j)) AND PAGE_FLAG_PRESENT \<noteq> 0}"

definition space_frames :: "(u32 \<Rightarrow> u32) \<Rightarrow> u32 \<Rightarrow> nat \<Rightarrow> u32 set" where
  "space_frames mem pd n = (\<Union>t \<in> user_tables mem pd n. table_frames mem t PAGE_TABLE_ENTRIES)"

lemma user_tables_Suc:
  "user_tables mem pd (Suc n) = (if user_entry (mem (slot pd (of_nat n))) then insert (get_pd_vma (mem (slot pd (of_nat n)))) (user_tables mem pd n)
     else user_tables mem pd n)"
  by (auto simp: user_tables_def less_Suc_eq)

lemma table_frames_Suc:
  "table_frames mem t (Suc n) = (if mem (slot t (of_nat n)) AND PAGE_FLAG_PRESENT \<noteq> 0 then insert (page_of (mem (slot t (of_nat n)))) (table_frames mem t n)
     else table_frames mem t n)"
  by (auto simp: table_frames_def less_Suc_eq)

lemma user_tables_mono: "user_tables mem pd n \<subseteq> user_tables mem pd (Suc n)"
  by (auto simp: user_tables_def)

lemma user_tables_0 [simp]: "user_tables mem pd 0 = {}" "table_frames mem t 0 = {}"
  by (simp_all add: user_tables_def table_frames_def)

lemma free_frame_page:
  assumes "frames_ok f" and "p \<in> user_frames"
  shows "\<exists>f'. free_phys_frame p f = Some (1, f') \<and> frames_ok f' \<and> frames_used f' = frames_used f - {p}"
proof -
  obtain i where i: "PAGE_TABLE_ENTRIES \<le> i" "i < PHYSICAL_FRAMES" "p = pool_page 0 i" using assms(2) by (auto simp: user_frames_def pool_pages_def)
  have "length f = PHYSICAL_FRAMES" using assms(1) by (simp add: frames_ok_def pool_ok_def)
  then have "free_phys_frame p f = Some (1, f[i := 0])" using i page_index [OF i(2)] by (simp add: free_phys_frame_def Let_def)
  then show ?thesis using pool_release [OF frames_pool_at _ i(1,2), of f] assms(1) i(3) by (simp add: frames_defs)
qed

lemma free_pt_page:
  assumes "pt_ok L pg" and "t \<in> pt_pages L"
  shows "\<exists>flags. free_pt L t pg = (1, pg\<lparr>pt_in_use := flags\<rparr>) \<and> pt_ok L (pg\<lparr>pt_in_use := flags\<rparr>)
    \<and> pt_used L (pg\<lparr>pt_in_use := flags\<rparr>) = pt_used L pg - {t}"
proof -
  have at: "pool_at (sym_pt_pool L) 0 PAGING_TABLE_POOL_SIZE" "pool_ok 0 PAGING_TABLE_POOL_SIZE (pt_in_use pg)"
    using assms(1) by (simp_all add: pt_ok_def symbols_okD)
  obtain i where i: "i < PAGING_TABLE_POOL_SIZE" "t = pool_page (sym_pt_pool L) i" using assms(2) by (auto simp: pt_pages_def pool_pages_def)
  then show ?thesis using pool_release [OF at le0 i(1)] assms(1)
    by (intro exI [of _ "(pt_in_use pg)[i := 0]"]) (simp add: free_pt_def pool_index_page [OF at(1)] pt_ok_def pt_used_def)
qed

lemma free_ptes:
  assumes "frames_ok (k_frames k)" and "table_frames (kmem (k_paging k)) t n \<subseteq> user_frames"
  shows "\<exists>f. each (free_pte t) [0..<n] k = Ret () (k\<lparr>k_frames := f\<rparr>) \<and> frames_ok f
    \<and> frames_used f = frames_used (k_frames k) - table_frames (kmem (k_paging k)) t n"
  using assms(2)
proof (induction n)
  case 0
  then show ?case using assms(1) by (intro exI [of _ "k_frames k"]) simp
next
  case (Suc n)
  let ?mem = "kmem (k_paging k)" and ?pte = "kmem (k_paging k) (slot t (of_nat n))"
  obtain f where f: "each (free_pte t) [0..<n] k = Ret () (k\<lparr>k_frames := f\<rparr>)" "frames_ok f"
    "frames_used f = frames_used (k_frames k) - table_frames ?mem t n"
    using Suc by (auto simp: table_frames_Suc split: if_splits)
  show ?case
  proof (cases "?pte AND PAGE_FLAG_PRESENT = 0")
    case True
    then show ?thesis using f by (intro exI [of _ f]) (simp add: each_append free_pte_def [of t n] table_frames_Suc)
  next
    case False
    then have "page_of ?pte \<in> user_frames" using Suc.prems by (simp add: table_frames_Suc)
    from free_frame_page [OF f(2) this] obtain f' where "free_phys_frame (page_of ?pte) f = Some (1, f')" "frames_ok f'"
      "frames_used f' = frames_used f - {page_of ?pte}" by blast
    then show ?thesis using f False
      by (intro exI [of _ f']) (auto simp: each_append free_pte_def [of t n] table_frames_Suc page_of_def)
  qed
qed

text \<open>Clearing the entries of the user in a directory.\<close>

definition cleared :: "u32 \<Rightarrow> nat \<Rightarrow> (u32 \<Rightarrow> u32) \<Rightarrow> u32 \<Rightarrow> u32" where
  "cleared pd n mem a = (if \<exists>i < n. a = slot pd (of_nat i) \<and> user_entry (mem a) then 0 else mem a)"

lemma cleared_other:
  assumes "page_aligned pd" and "page_aligned t" and "t \<noteq> pd" and "n \<le> 1024" and "j < 1024"
  shows "cleared pd n mem (slot t (of_nat j)) = mem (slot t (of_nat j))"
  using assms by (auto simp: cleared_def slot_eq_iff)

lemma cleared_at:
  assumes "page_aligned pd" and "n < 1024"
  shows "cleared pd n mem (slot pd (of_nat n)) = mem (slot pd (of_nat n))"
proof -
  have "slot pd (of_nat n) \<noteq> slot pd (of_nat i)" if "i < n" for i
  proof -
    have "unat (of_nat n :: u32) = n" "unat (of_nat i :: u32) = i" using that assms(2) by simp_all
    then have "(of_nat n :: u32) \<noteq> of_nat i" using that by (metis less_irrefl)
    then show ?thesis using that assms by (simp add: slot_eq_iff)
  qed
  then show ?thesis by (auto simp: cleared_def)
qed

lemma cleared_Suc:
  "cleared pd (Suc n) mem = (if user_entry (mem (slot pd (of_nat n))) then (cleared pd n mem)(slot pd (of_nat n) := 0) else cleared pd n mem)"
  by (rule ext) (auto simp: cleared_def less_Suc_eq)

lemma free_pdes:
  assumes "page_aligned pd" and "pt_ok L (k_paging k)" and "frames_ok (k_frames k)" and "n \<le> 1024"
    and "user_tables (kmem (k_paging k)) pd n \<subseteq> pt_pages L" and "pd \<notin> pt_pages L" and "space_frames (kmem (k_paging k)) pd n \<subseteq> user_frames"
  shows "\<exists>flags f. each (free_pde L pd) [0..<n] k
      = Ret () (k\<lparr>k_paging := (k_paging k)\<lparr>pt_in_use := flags, kmem := cleared pd n (kmem (k_paging k))\<rparr>, k_frames := f\<rparr>)
    \<and> pt_ok L ((k_paging k)\<lparr>pt_in_use := flags\<rparr>) \<and> pt_used L ((k_paging k)\<lparr>pt_in_use := flags\<rparr>) = pt_used L (k_paging k) - user_tables (kmem (k_paging k)) pd n
    \<and> frames_ok f \<and> frames_used f = frames_used (k_frames k) - space_frames (kmem (k_paging k)) pd n"
  using assms(4,5,7)
proof (induction n)
  case 0
  have "cleared pd 0 (kmem (k_paging k)) = kmem (k_paging k)" by (rule ext) (simp add: cleared_def)
  then show ?case using assms(2,3) by (intro exI [of _ "pt_in_use (k_paging k)"] exI [of _ "k_frames k"]) (simp add: space_frames_def)
next
  case (Suc n)
  let ?mem = "kmem (k_paging k)" and ?pde = "kmem (k_paging k) (slot pd (of_nat n))"
  let ?t = "get_pd_vma ?pde"
  have sub: "user_tables ?mem pd n \<subseteq> pt_pages L" "space_frames ?mem pd n \<subseteq> user_frames"
    using Suc.prems(2,3) user_tables_mono [of ?mem pd n] by (auto simp: space_frames_def)
  obtain flags f where ih: "each (free_pde L pd) [0..<n] k
      = Ret () (k\<lparr>k_paging := (k_paging k)\<lparr>pt_in_use := flags, kmem := cleared pd n ?mem\<rparr>, k_frames := f\<rparr>)"
    "pt_ok L ((k_paging k)\<lparr>pt_in_use := flags\<rparr>)" "pt_used L ((k_paging k)\<lparr>pt_in_use := flags\<rparr>) = pt_used L (k_paging k) - user_tables ?mem pd n"
    "frames_ok f" "frames_used f = frames_used (k_frames k) - space_frames ?mem pd n"
    using Suc.IH [OF Suc_leD [OF Suc.prems(1)] sub] by blast
  define k1 where "k1 = k\<lparr>k_paging := (k_paging k)\<lparr>pt_in_use := flags, kmem := cleared pd n ?mem\<rparr>, k_frames := f\<rparr>"
  have at: "kmem (k_paging k1) (slot pd (of_nat n)) = ?pde" using cleared_at [OF assms(1)] Suc.prems(1) by (simp add: k1_def)
  show ?case
  proof (cases "user_entry ?pde")
    case False
    then have "free_pde L pd n k1 = Ret () k1" using at by (auto simp: free_pde_def Let_def user_entry_def)
    then show ?thesis using ih False by (intro exI [of _ flags] exI [of _ f]) (simp add: each_append k1_def cleared_Suc user_tables_Suc space_frames_def)
  next
    case True
    have t: "?t \<in> pt_pages L" "?t \<noteq> pd" using Suc.prems(2) True assms(6) by (auto simp: user_tables_Suc)
    have same: "cleared pd n ?mem (slot ?t (of_nat j)) = ?mem (slot ?t (of_nat j))" if "j < 1024" for j
      using cleared_other [OF assms(1) _ t(2) _ that] Suc.prems(1) by simp
    then have tf: "table_frames (kmem (k_paging k1)) ?t 1024 = table_frames ?mem ?t 1024"
      unfolding table_frames_def by (intro Collect_cong ex_cong1) (auto simp: k1_def)
    have "table_frames ?mem ?t 1024 \<subseteq> user_frames" using Suc.prems(3) True by (simp add: space_frames_def user_tables_Suc)
    then obtain f' where f': "each (free_pte ?t) [0..<1024] k1 = Ret () (k1\<lparr>k_frames := f'\<rparr>)" "frames_ok f'"
      "frames_used f' = frames_used f - table_frames ?mem ?t 1024"
      using free_ptes [of k1 ?t 1024] ih(4) tf by (auto simp: k1_def simp del: upt_rec_numeral)
    have "pt_ok L (k_paging k1)" using ih(2) by (simp add: k1_def pt_ok_def)
    from free_pt_page [OF this t(1)] obtain fl where fl: "free_pt L ?t (k_paging k1) = (1, (k_paging k1)\<lparr>pt_in_use := fl\<rparr>)"
      "pt_ok L ((k_paging k)\<lparr>pt_in_use := fl\<rparr>)" "pt_used L ((k_paging k)\<lparr>pt_in_use := fl\<rparr>) = pt_used L ((k_paging k)\<lparr>pt_in_use := flags\<rparr>) - {?t}"
      by (auto simp: k1_def pt_ok_def pt_used_def)
    have "free_pde L pd n k1 = Ret () (k1\<lparr>k_paging := (k_paging k1)\<lparr>pt_in_use := fl, kmem := (kmem (k_paging k1))(slot pd (of_nat n) := 0)\<rparr>,
        k_frames := f'\<rparr>)"
      using True f'(1) fl(1) at by (simp add: free_pde_def Let_def user_entry_def del: upt_rec_numeral)
    then have "each (free_pde L pd) [0..<Suc n] k
        = Ret () (k\<lparr>k_paging := (k_paging k)\<lparr>pt_in_use := fl, kmem := cleared pd (Suc n) ?mem\<rparr>, k_frames := f'\<rparr>)"
      using ih(1) True by (simp add: each_append k1_def cleared_Suc del: fun_upd_apply)
    moreover have "pt_used L ((k_paging k)\<lparr>pt_in_use := fl\<rparr>) = pt_used L (k_paging k) - user_tables ?mem pd (Suc n)"
      unfolding fl(3) ih(3) using True by (auto simp: user_tables_Suc)
    moreover have "frames_used f' = frames_used (k_frames k) - space_frames ?mem pd (Suc n)"
      unfolding f'(3) ih(5) using True by (auto simp: user_tables_Suc space_frames_def)
    ultimately show ?thesis using fl(2) f'(2) by blast
  qed
qed

text \<open>
  What \<open>free_tables\<close> gives back: the directory, the tables of its user entries and the frames these map.
\<close>

lemma free_tables_returns:
  assumes "pd_ok L (k_paging k)" and "pt_ok L (k_paging k)" and "frames_ok (k_frames k)" and "pd \<in> pd_used L (k_paging k)"
    and "user_tables (kmem (k_paging k)) pd 1024 \<subseteq> pt_pages L" and "space_frames (kmem (k_paging k)) pd 1024 \<subseteq> user_frames"
  shows "\<exists>pg f. free_tables L pd k = Ret () (k\<lparr>k_paging := pg, k_frames := f\<rparr>) \<and> pd_ok L pg \<and> pt_ok L pg \<and> frames_ok f
    \<and> pd_used L pg = pd_used L (k_paging k) - {pd} \<and> pt_used L pg = pt_used L (k_paging k) - user_tables (kmem (k_paging k)) pd 1024
    \<and> frames_used f = frames_used (k_frames k) - space_frames (kmem (k_paging k)) pd 1024
    \<and> kmem pg = cleared pd 1024 (kmem (k_paging k))"
proof -
  let ?mem = "kmem (k_paging k)"
  have p: "pd \<in> pd_pages L" "pd \<noteq> 0" using pd_pool.used_pages [OF assms(1)] pd_pool.null_not_page [OF assms(1)] assms(4) by auto
  have so: "symbols_ok L" using assms(1) by (simp add: pd_ok_def)
  then have al: "page_aligned pd" "pd \<notin> pt_pages L"
    using p(1) page_aligned_pool_page by (auto simp: symbols_ok_def pd_pages_def pt_pages_def pool_pages_def)
  from free_pdes [OF al(1) assms(2,3) order_refl assms(5) al(2) assms(6)] obtain flags f where f:
    "each (free_pde L pd) [0..<1024] k = Ret () (k\<lparr>k_paging := (k_paging k)\<lparr>pt_in_use := flags, kmem := cleared pd 1024 ?mem\<rparr>, k_frames := f\<rparr>)"
    "pt_ok L ((k_paging k)\<lparr>pt_in_use := flags\<rparr>)"
    "pt_used L ((k_paging k)\<lparr>pt_in_use := flags\<rparr>) = pt_used L (k_paging k) - user_tables ?mem pd 1024"
    "frames_ok f" "frames_used f = frames_used (k_frames k) - space_frames ?mem pd 1024" by blast
  define pg1 where "pg1 = (k_paging k)\<lparr>pt_in_use := flags, kmem := cleared pd 1024 ?mem\<rparr>"
  have "pd_ok L pg1" "pd \<in> pd_used L pg1" "pd_used L pg1 = pd_used L (k_paging k)" using assms(1,4) by (simp_all add: pg1_def pd_ok_def pd_used_def)
  with pd_pool.free_page [of L pg1 pd] obtain pg where pg: "free_pd L pd pg1 = (1, pg)" "pd_ok L pg" "pd_used L pg = pd_used L (k_paging k) - {pd}" by auto
  have same: "pt_in_use pg = flags" "kmem pg = cleared pd 1024 ?mem" using pg(1) by (auto simp: free_pd_def pg1_def split: option.splits)
  have "free_tables L pd k = Ret () (k\<lparr>k_paging := pg, k_frames := f\<rparr>)"
    using p(2) f(1) pg(1) by (simp add: free_tables_def pg1_def del: upt_rec_numeral)
  then show ?thesis using pg f(2-5) same by (intro exI [of _ pg] exI [of _ f]) (simp add: pt_ok_def pt_used_def)
qed

section \<open>Objects that are given back\<close>

definition without :: "'a set \<Rightarrow> ('a \<rightharpoonup> 'b) \<Rightarrow> 'a \<rightharpoonup> 'b" where
  "without D m a = (if a \<in> D then None else m a)"

lemma without_empty [simp]: "without {} m = m"
  by (rule ext) (simp add: without_def)

lemma without_insert: "(without D m)(p := None) = without (insert p D) m"
  by (rule ext) (simp add: without_def)

text \<open>
  \<open>shrunk base D k k'\<close>: since \<open>k\<close> the regions that start in \<open>D\<close> have been given back to the heap and the objects in
  them are gone; all else is as before.
\<close>

definition shrunk :: "u32 \<Rightarrow> u32 set \<Rightarrow> kernel \<Rightarrow> kernel \<Rightarrow> bool" where
  "shrunk base D k k' \<longleftrightarrow> heap_ok base (k_heap k') \<and> allocated (k_heap k') = {r \<in> allocated (k_heap k). fst r \<notin> D}
     \<and> k' = k\<lparr>k_heap := k_heap k', k_tasks := without D (k_tasks k), k_mms := without D (k_mms k), k_vmas := without D (k_vmas k),
          k_files := without D (k_files k), k_inodes := without D (k_inodes k)\<rparr>"

lemma shrunk_refl: "heap_ok base (k_heap k) \<Longrightarrow> shrunk base {} k k"
  by (simp add: shrunk_def)

lemma shrunk_dispose:
  assumes "shrunk base D k k'" and "p \<in> fst ` allocated (k_heap k)" and "p \<notin> D"
  shows "\<exists>k''. dispose p k' = Ret () k'' \<and> shrunk base (insert p D) k k''"
proof -
  obtain m where m: "(p, m) \<in> allocated (k_heap k')" using assms by (auto simp: shrunk_def)
  have "heap_ok base (k_heap k')" using assms(1) by (simp add: shrunk_def)
  from dispose_region [OF this m] obtain h where h: "dispose p k' = Ret () (forget p (k'\<lparr>k_heap := h\<rparr>))" "heap_ok base h"
    "allocated h = allocated (k_heap k') - {(p, m)}" .
  have u: "n = m" if "(p, n) \<in> allocated (k_heap k')" for n using that m by (auto simp: allocated_def)
  have "allocated h = {r \<in> allocated (k_heap k). fst r \<notin> insert p D}"
    unfolding h(3) using assms(1) u by (auto simp: shrunk_def)
  moreover have "forget p (k'\<lparr>k_heap := h\<rparr>) = k\<lparr>k_heap := h, k_tasks := without (insert p D) (k_tasks k), k_mms := without (insert p D) (k_mms k),
      k_vmas := without (insert p D) (k_vmas k), k_files := without (insert p D) (k_files k), k_inodes := without (insert p D) (k_inodes k)\<rparr>"
    by (subst shrunk_def [THEN iffD1, OF assms(1), THEN conjunct2, THEN conjunct2]) (simp add: forget_def without_insert)
  ultimately show ?thesis using h(1,2) by (simp add: shrunk_def)
qed

text \<open>An address holds one object at most.\<close>

definition typed_stores :: "kernel \<Rightarrow> bool" where
  "typed_stores k \<longleftrightarrow> dom (k_tasks k) \<inter> (dom (k_mms k) \<union> dom (k_vmas k) \<union> dom (k_files k) \<union> dom (k_inodes k)) = {}
     \<and> dom (k_mms k) \<inter> (dom (k_vmas k) \<union> dom (k_files k) \<union> dom (k_inodes k)) = {}
     \<and> dom (k_vmas k) \<inter> (dom (k_files k) \<union> dom (k_inodes k)) = {} \<and> dom (k_files k) \<inter> dom (k_inodes k) = {}"

text \<open>A file structure and its inode.\<close>

definition file_parts :: "kernel \<Rightarrow> u32 \<Rightarrow> u32 set" where
  "file_parts k f = insert f ({f_inode (the (k_files k f))} - {0})"

definition file_ok :: "kernel \<Rightarrow> u32 \<Rightarrow> bool" where
  "file_ok k f \<longleftrightarrow> f \<in> dom (k_files k) \<and> {f_inode (the (k_files k f))} - {0} \<subseteq> dom (k_inodes k) \<and> file_parts k f \<subseteq> fst ` allocated (k_heap k)"

lemma shrunk_sel:
  assumes "shrunk base D k k'"
  shows "k_tasks k' = without D (k_tasks k)" "k_mms k' = without D (k_mms k)" "k_vmas k' = without D (k_vmas k)"
    "k_files k' = without D (k_files k)" "k_inodes k' = without D (k_inodes k)" "k_paging k' = k_paging k" "k_frames k' = k_frames k"
    "k_machine k' = k_machine k" "current_task k' = current_task k" "task_ptr k' = task_ptr k" "dead_task k' = dead_task k"
    "k_phys k' = k_phys k" "k_cpu k' = k_cpu k" "k_tss k' = k_tss k"
  by (subst shrunk_def [THEN iffD1, OF assms, THEN conjunct2, THEN conjunct2], simp)+

lemma dispose_put_file: "dispose f k = Ret () k'' \<Longrightarrow> dispose f (put_file f x k) = Ret () k''"
  by (auto simp: dispose_def put_file_def forget_def split: option.splits)

lemma shrunk_close:
  assumes "shrunk base D k k'" and "typed_stores k" and "file_ok k f" and "file_parts k f \<inter> D = {}"
  shows "\<exists>k''. and_then (close_file f k') (\<lambda>_. dispose f) = Ret () k'' \<and> shrunk base (file_parts k f \<union> D) k k''"
proof -
  obtain fl where fl: "k_files k f = Some fl" using assms(3) by (auto simp: file_ok_def)
  have fp: "file_parts k f = insert f ({f_inode fl} - {0})" using fl by (simp add: file_parts_def)
  have f: "f \<in> fst ` allocated (k_heap k)" "f \<notin> D" "k_files k' f = Some fl"
    using assms fl shrunk_sel(4) [OF assms(1)] by (auto simp: file_ok_def fp without_def)
  show ?thesis
  proof (cases "f_inode fl = 0")
    case True
    from shrunk_dispose [OF assms(1) f(1,2)] obtain k'' where k'': "dispose f k' = Ret () k''" "shrunk base (insert f D) k k''" by blast
    have "close_file f k' = Ret () (put_file f \<lparr>f_inode = 0, f_pos = 0\<rparr> k')"
      using True f(3) by (simp add: close_file_def with_file_def on_fs_def vfs_close_def put_fs_def fs_of_def)
    then show ?thesis using dispose_put_file [OF k''(1)] k''(2) True by (auto simp: fp)
  next
    case False
    let ?i = "f_inode fl"
    have i: "?i \<in> dom (k_inodes k)" "?i \<in> fst ` allocated (k_heap k)" "?i \<notin> D" "?i \<noteq> f"
      using assms(2,3,4) fl False by (auto simp: file_ok_def fp typed_stores_def)
    from shrunk_dispose [OF assms(1) i(2,3)] obtain k1 where k1: "dispose ?i k' = Ret () k1" "shrunk base (insert ?i D) k k1" by blast
    from shrunk_dispose [OF k1(2), of f] f i(4) obtain k'' where k'': "dispose f k1 = Ret () k''" "shrunk base (insert f (insert ?i D)) k k''" by auto
    obtain h where h: "kfree ?i (k_heap k') = Some h" "k1 = forget ?i (k'\<lparr>k_heap := h\<rparr>)"
      using k1(1) by (auto simp: dispose_def split: option.splits)
    have none: "k_tasks k' ?i = None" "k_mms k' ?i = None" "k_vmas k' ?i = None" "k_files k' ?i = None"
      using assms(2) i(1) unfolding shrunk_sel [OF assms(1)] typed_stores_def without_def by (auto simp: domIff)
    have "(k_tasks k')(?i := None) = k_tasks k'" "(k_mms k')(?i := None) = k_mms k'" "(k_vmas k')(?i := None) = k_vmas k'"
      "(k_files k')(?i := None) = k_files k'" using none by (simp_all add: fun_upd_idem)
    then have "k1 = k'\<lparr>k_heap := h, k_inodes := (k_inodes k')(?i := None)\<rparr>" by (simp add: h(2) forget_def)
    then have "close_file f k' = Ret () (put_file f \<lparr>f_inode = 0, f_pos = 0\<rparr> k1)"
      using False f(3) h(1) by (simp add: close_file_def with_file_def on_fs_def vfs_close_def put_fs_def fs_of_def)
    then show ?thesis using dispose_put_file [OF k''(1)] k''(2) False by (auto simp: fp insert_commute)
  qed
qed

section \<open>An address space is released\<close>

definition area_files :: "(u32 \<rightharpoonup> vm_area_t) \<Rightarrow> u32 list \<Rightarrow> u32 set" where
  "area_files vmas xs = (\<lambda>x. vm_file (vma_at vmas x)) ` set xs - {0}"

definition files_parts :: "kernel \<Rightarrow> u32 set \<Rightarrow> u32 set" where
  "files_parts k F = (\<Union>f \<in> F. file_parts k f)"

text \<open>Files that are in order and share no inode.\<close>

definition files_ok :: "kernel \<Rightarrow> u32 set \<Rightarrow> bool" where
  "files_ok k F \<longleftrightarrow> (\<forall>f \<in> F. file_ok k f) \<and> (\<forall>f \<in> F. \<forall>g \<in> F. f \<noteq> g \<longrightarrow> file_parts k f \<inter> file_parts k g = {})"

lemma vma_file_seen_prefix:
  "vma_seg vmas p a xs q b \<Longrightarrow> b \<notin> set xs \<Longrightarrow>
   vma_file_seen vmas a b file = Some (\<exists>x \<in> set xs. vm_file (vma_at vmas x) = file)"
proof (induction xs arbitrary: p a)
  case Nil
  then show ?case by (simp add: vma_file_seen.simps)
next
  case (Cons x xs)
  then obtain v where v: "a = x" "vmas x = Some v" "vma_seg vmas x (vm_next v) xs q b" by auto
  then show ?case using Cons.IH [OF v(3)] Cons.prems(2) by (subst vma_file_seen.simps) (auto simp: vma_at_def)
qed

lemma subset_disjoint: "A \<subseteq> B \<Longrightarrow> B \<inter> C = {} \<Longrightarrow> A \<inter> C = {}"
  by blast

lemma files_apart:
  assumes "typed_stores k" and "files_ok k F"
  shows "files_parts k F \<inter> dom (k_vmas k) = {}" "files_parts k F \<inter> dom (k_mms k) = {}" "files_parts k F \<inter> dom (k_tasks k) = {}"
    "files_parts k F \<subseteq> fst ` allocated (k_heap k)"
proof -
  have mem: "x \<in> dom (k_files k) \<union> dom (k_inodes k)" "x \<in> fst ` allocated (k_heap k)" if x: "x \<in> files_parts k F" for x
  proof -
    obtain f where f: "f \<in> F" "x \<in> file_parts k f" using x by (auto simp: files_parts_def)
    then have ok: "f \<in> dom (k_files k)" "{f_inode (the (k_files k f))} - {0} \<subseteq> dom (k_inodes k)" "file_parts k f \<subseteq> fst ` allocated (k_heap k)"
      using assms(2) by (simp_all add: files_ok_def file_ok_def)
    show "x \<in> fst ` allocated (k_heap k)" using f(2) ok(3) by (rule subsetD [rotated])
    show "x \<in> dom (k_files k) \<union> dom (k_inodes k)" using f(2) ok(1,2) unfolding file_parts_def by blast
  qed
  have sub: "files_parts k F \<subseteq> dom (k_files k) \<union> dom (k_inodes k)" using mem(1) by (rule subsetI)
  have "(dom (k_files k) \<union> dom (k_inodes k)) \<inter> dom (k_vmas k) = {}" "(dom (k_files k) \<union> dom (k_inodes k)) \<inter> dom (k_mms k) = {}"
    "(dom (k_files k) \<union> dom (k_inodes k)) \<inter> dom (k_tasks k) = {}" using assms(1) by (simp_all add: typed_stores_def Int_Un_distrib Int_Un_distrib2 Int_commute)
  note apart = this [THEN subset_disjoint [OF sub]]
  show "files_parts k F \<inter> dom (k_vmas k) = {}" "files_parts k F \<inter> dom (k_mms k) = {}" "files_parts k F \<inter> dom (k_tasks k) = {}"
    by (rule apart)+
  show "files_parts k F \<subseteq> fst ` allocated (k_heap k)" using mem(2) by (rule subsetI)
qed

lemma without_disjoint: "D \<inter> dom m = {} \<Longrightarrow> without D m = m"
  by (rule ext) (auto simp: without_def disjoint_iff domIff)

lemma files_ok_mono: "files_ok k G \<Longrightarrow> F \<subseteq> G \<Longrightarrow> files_ok k F"
  unfolding files_ok_def by blast

lemma area_files_snoc: "area_files vmas (xs @ [x]) = insert (vm_file (vma_at vmas x)) (area_files vmas xs) - {0}"
  by (auto simp: area_files_def)

lemma close_files_returns:
  assumes "typed_stores k" and "vma_seg (k_vmas k) 0 head (ds @ ys) q 0" and "distinct (ds @ ys)"
    and "files_ok k (area_files (k_vmas k) (ds @ ys))" and "shrunk base (files_parts k (area_files (k_vmas k) ds)) k k'"
    and "vma_seg (k_vmas k) p a ys q 0"
  shows "\<exists>k''. close_files head a k' = Some (Ret () k'') \<and> shrunk base (files_parts k (area_files (k_vmas k) (ds @ ys))) k k''"
  using assms(2-6)
proof (induction ys arbitrary: ds k' p a)
  case Nil
  then show ?case by (intro exI [of _ k']) (simp add: close_files.simps)
next
  case (Cons x ys)
  let ?V = "k_vmas k"
  obtain v where v: "a = x" "x \<noteq> 0" "?V x = Some v" "vma_seg ?V x (vm_next v) ys q 0" using Cons.prems(5) by auto
  have vx: "vma_at ?V x = v" using v(3) by (simp add: vma_at_def)
  have ih: "\<exists>k''. close_files head (vm_next v) k1 = Some (Ret () k'') \<and> shrunk base (files_parts k (area_files ?V (ds @ x # ys))) k k''"
    if "shrunk base (files_parts k (area_files ?V (ds @ [x]))) k k1" for k1
    using Cons.IH [of "ds @ [x]" k1 x "vm_next v"] Cons.prems(1-3) v(4) that by simp
  have F: "files_ok k (area_files ?V ds)" "files_ok k (area_files ?V (ds @ [x]))"
    by (rule files_ok_mono [OF Cons.prems(3)]; auto simp: area_files_def)+
  have kv: "k_vmas k' = ?V" using shrunk_sel(3) [OF Cons.prems(4)] without_disjoint [OF files_apart(1) [OF assms(1) F(1)]] by simp
  obtain r where r: "vma_seg ?V 0 head ds r x" using Cons.prems(1) by (auto simp: vma_seg_append)
  have seen: "vma_file_seen ?V head x (vm_file v) = Some (\<exists>y \<in> set ds. vm_file (vma_at ?V y) = vm_file v)"
    using vma_file_seen_prefix [OF r] Cons.prems(2) by simp
  show ?case
  proof (cases "vm_file v = 0 \<or> (\<exists>y \<in> set ds. vm_file (vma_at ?V y) = vm_file v)")
    case True
    then have "area_files ?V (ds @ [x]) = area_files ?V ds" unfolding area_files_snoc vx by (auto simp: area_files_def image_iff) metis
    then show ?thesis using ih [of k'] Cons.prems(4) True v kv seen by (subst close_files.simps) auto
  next
    case False
    have new: "vm_file v \<notin> area_files ?V ds" "area_files ?V (ds @ [x]) = insert (vm_file v) (area_files ?V ds)"
      using False unfolding area_files_snoc vx by (auto simp: area_files_def)
    have "file_parts k (vm_file v) \<inter> file_parts k g = {}" if "g \<in> area_files ?V ds" for g
      using F(2) new that unfolding files_ok_def by (metis insertI1 insertI2)
    then have fo: "file_ok k (vm_file v)" "file_parts k (vm_file v) \<inter> files_parts k (area_files ?V ds) = {}"
      using F(2) by (simp_all add: files_ok_def new(2) files_parts_def Int_UN_distrib)
    from shrunk_close [OF Cons.prems(4) assms(1) fo] obtain k1 where k1: "and_then (close_file (vm_file v) k') (\<lambda>_. dispose (vm_file v)) = Ret () k1"
      "shrunk base (files_parts k (area_files ?V (ds @ [x]))) k k1" by (auto simp: new(2) files_parts_def)
    have "k_vmas k1 = ?V" using shrunk_sel(3) [OF k1(2)] without_disjoint [OF files_apart(1) [OF assms(1) F(2)]] by simp
    then show ?thesis using ih [OF k1(2)] False v kv seen k1(1) by (subst close_files.simps) auto
  qed
qed

lemma free_vmas_returns:
  assumes "shrunk base D k k'" and "vma_seg (k_vmas k) p a xs q 0" and "distinct xs" and "set xs \<inter> D = {}"
    and "set xs \<subseteq> fst ` allocated (k_heap k)"
  shows "\<exists>k''. free_vmas a k' = Some (Ret () k'') \<and> shrunk base (set xs \<union> D) k k''"
  using assms
proof (induction xs arbitrary: D k' p a)
  case Nil
  then show ?case by (intro exI [of _ k']) (simp add: free_vmas.simps)
next
  case (Cons x xs)
  obtain v where v: "a = x" "x \<noteq> 0" "k_vmas k x = Some v" "vma_seg (k_vmas k) x (vm_next v) xs q 0" using Cons.prems(2) by auto
  have x: "x \<in> fst ` allocated (k_heap k)" "x \<notin> D" using Cons.prems(4,5) by auto
  from shrunk_dispose [OF Cons.prems(1) x] obtain k1 where k1: "dispose x k' = Ret () k1" "shrunk base (insert x D) k k1" by blast
  have "set xs \<inter> insert x D = {}" using Cons.prems(3,4) by auto
  from Cons.IH [OF k1(2) v(4) _ this] Cons.prems(3,5) obtain k'' where
    "free_vmas (vm_next v) k1 = Some (Ret () k'')" "shrunk base (set (x # xs) \<union> D) k k''" by auto
  moreover have "k_vmas k' x = Some v" using shrunk_sel(3) [OF Cons.prems(1)] x(2) v(3) by (simp add: without_def)
  ultimately show ?case using v(1,2) k1(1) by (subst free_vmas.simps) auto
qed

text \<open>
  An address space in order: its areas form a list, the areas and files are objects of their own on the heap, and the directory's user
  entries name tables of the pool that map user frames.
\<close>

definition space_owned :: "symbols \<Rightarrow> u32 \<Rightarrow> kernel \<Rightarrow> u32 \<Rightarrow> u32 list \<Rightarrow> u32 \<Rightarrow> bool" where
  "space_owned L base k mm xs pd \<longleftrightarrow> heap_ok base (k_heap k) \<and> typed_stores k \<and> mm \<noteq> 0
     \<and> (\<exists>m. k_mms k mm = Some m \<and> mm_pgd m = pd \<and> vma_chain (k_vmas k) (mm_mmap m) xs)
     \<and> distinct xs \<and> files_ok k (area_files (k_vmas k) xs) \<and> insert mm (set xs) \<subseteq> fst ` allocated (k_heap k)
     \<and> pd_ok L (k_paging k) \<and> pt_ok L (k_paging k) \<and> frames_ok (k_frames k) \<and> pd \<in> pd_used L (k_paging k)
     \<and> user_tables (kmem (k_paging k)) pd 1024 \<subseteq> pt_pages L \<and> space_frames (kmem (k_paging k)) pd 1024 \<subseteq> user_frames"

definition space_parts :: "kernel \<Rightarrow> u32 \<Rightarrow> u32 list \<Rightarrow> u32 set" where
  "space_parts k mm xs = insert mm (set xs \<union> files_parts k (area_files (k_vmas k) xs))"

text \<open>The objects \<open>D\<close>, the directory \<open>pd\<close>, its tables and their frames have been given back, and nothing else has changed.\<close>

definition released :: "symbols \<Rightarrow> u32 \<Rightarrow> u32 set \<Rightarrow> u32 \<Rightarrow> kernel \<Rightarrow> kernel \<Rightarrow> bool" where
  "released L base D pd k k' \<longleftrightarrow> (\<exists>k1. shrunk base D k k1 \<and> k' = k1\<lparr>k_paging := k_paging k', k_frames := k_frames k'\<rparr>)
     \<and> pd_ok L (k_paging k') \<and> pt_ok L (k_paging k') \<and> frames_ok (k_frames k')
     \<and> pd_used L (k_paging k') = pd_used L (k_paging k) - {pd}
     \<and> pt_used L (k_paging k') = pt_used L (k_paging k) - user_tables (kmem (k_paging k)) pd 1024
     \<and> frames_used (k_frames k') = frames_used (k_frames k) - space_frames (kmem (k_paging k)) pd 1024
     \<and> kmem (k_paging k') = cleared pd 1024 (kmem (k_paging k))"

lemma dispose_outside: "dispose p k = Ret () k' \<Longrightarrow> dispose p (k\<lparr>k_paging := pg, k_frames := f\<rparr>) = Ret () (k'\<lparr>k_paging := pg, k_frames := f\<rparr>)"
  by (auto simp: dispose_def forget_def split: option.splits)

lemma release_mm_releases:
  assumes "space_owned L base k mm xs pd"
  shows "\<exists>k'. release_mm L mm k = Ret () k' \<and> released L base (space_parts k mm xs) pd k k'"
proof -
  let ?V = "k_vmas k" and ?F = "area_files (k_vmas k) xs"
  obtain m q where m: "k_mms k mm = Some m" "mm_pgd m = pd" "vma_seg ?V 0 (mm_mmap m) xs q 0"
    using assms by (auto simp: space_owned_def vma_chain_def)
  have ok: "heap_ok base (k_heap k)" "typed_stores k" "mm \<noteq> 0" "distinct xs" "files_ok k ?F" "insert mm (set xs) \<subseteq> fst ` allocated (k_heap k)"
    "pd_ok L (k_paging k)" "pt_ok L (k_paging k)" "frames_ok (k_frames k)" "pd \<in> pd_used L (k_paging k)"
    "user_tables (kmem (k_paging k)) pd 1024 \<subseteq> pt_pages L" "space_frames (kmem (k_paging k)) pd 1024 \<subseteq> user_frames"
    using assms by (simp_all add: space_owned_def)
  have "files_parts k (area_files ?V []) = {}" by (simp add: files_parts_def area_files_def)
  then have "shrunk base (files_parts k (area_files ?V [])) k k" using shrunk_refl [OF ok(1)] by simp
  with close_files_returns [of k "mm_mmap m" "[]" xs q base k 0 "mm_mmap m"] m(3) ok(2,4,5) obtain k1 where
    k1: "close_files (mm_mmap m) (mm_mmap m) k = Some (Ret () k1)" "shrunk base (files_parts k ?F) k k1" by auto
  have xs: "set xs \<subseteq> dom ?V" using vma_seg_dom [OF m(3)] by blast
  have "set xs \<inter> files_parts k ?F = {}" using files_apart(1) [OF ok(2,5)] xs by blast
  with free_vmas_returns [OF k1(2) m(3) ok(4)] ok(6) obtain k2 where
    k2: "free_vmas (mm_mmap m) k1 = Some (Ret () k2)" "shrunk base (set xs \<union> files_parts k ?F) k k2" by auto
  have mm: "mm \<in> dom (k_mms k)" using m(1) by blast
  have "dom (k_mms k) \<inter> dom ?V = {}" using ok(2) by (simp add: typed_stores_def Int_Un_distrib)
  then have "mm \<notin> set xs \<union> files_parts k ?F" using xs mm files_apart(2) [OF ok(2,5)] by blast
  with shrunk_dispose [OF k2(2), of mm] ok(6) obtain k3 where k3: "dispose mm k2 = Ret () k3" "shrunk base (space_parts k mm xs) k k3"
    by (auto simp: space_parts_def)
  have same: "k_paging k2 = k_paging k" "k_frames k2 = k_frames k" using shrunk_sel(6,7) [OF k2(2)] by simp_all
  with free_tables_returns [of L k2 pd] ok(7-12) obtain pg f where t: "free_tables L pd k2 = Ret () (k2\<lparr>k_paging := pg, k_frames := f\<rparr>)"
    "pd_ok L pg" "pt_ok L pg" "frames_ok f" "pd_used L pg = pd_used L (k_paging k) - {pd}"
    "pt_used L pg = pt_used L (k_paging k) - user_tables (kmem (k_paging k)) pd 1024"
    "frames_used f = frames_used (k_frames k) - space_frames (kmem (k_paging k)) pd 1024"
    "kmem pg = cleared pd 1024 (kmem (k_paging k))" by auto
  let ?k = "k3\<lparr>k_paging := pg, k_frames := f\<rparr>"
  have "release_mm L mm k = Ret () ?k"
    using ok(3) m(1,2) k1(1) k2(1) t(1) dispose_outside [OF k3(1)] by (simp add: release_mm_def with_mm_def ended_def)
  moreover have "released L base (space_parts k mm xs) pd k ?k"
    unfolding released_def using k3(2) t(2-8) by (intro conjI exI [of _ k3]) simp_all
  ultimately show ?thesis by blast
qed

section \<open>What a switch keeps\<close>

definition same_holdings :: "kernel \<Rightarrow> kernel \<Rightarrow> bool" where
  "same_holdings k k' \<longleftrightarrow> k_heap k' = k_heap k \<and> k_mms k' = k_mms k \<and> k_vmas k' = k_vmas k \<and> k_files k' = k_files k \<and> k_inodes k' = k_inodes k
     \<and> k_frames k' = k_frames k \<and> pd_in_use (k_paging k') = pd_in_use (k_paging k) \<and> pt_in_use (k_paging k') = pt_in_use (k_paging k)
     \<and> (\<forall>a. map_option (\<lambda>t. (t_kernel_stack_base t, t_exit_code t, t_mm t)) (k_tasks k' a)
           = map_option (\<lambda>t. (t_kernel_stack_base t, t_exit_code t, t_mm t)) (k_tasks k a))"

lemma holdings_refl [simp]: "same_holdings k k"
  by (simp add: same_holdings_def)

lemma holdings_trans: "same_holdings k k' \<Longrightarrow> same_holdings k' k'' \<Longrightarrow> same_holdings k k''"
  by (simp add: same_holdings_def)

lemma holdings_dom: "same_holdings k k' \<Longrightarrow> dom (k_tasks k') = dom (k_tasks k)"
proof -
  assume k: "same_holdings k k'"
  have "k_tasks k' a = None \<longleftrightarrow> k_tasks k a = None" for a
  proof -
    have "map_option (\<lambda>t. (t_kernel_stack_base t, t_exit_code t, t_mm t)) (k_tasks k' a)
        = map_option (\<lambda>t. (t_kernel_stack_base t, t_exit_code t, t_mm t)) (k_tasks k a)" using k by (simp add: same_holdings_def)
    then show ?thesis by (cases "k_tasks k' a"; cases "k_tasks k a") simp_all
  qed
  then show ?thesis unfolding dom_def by simp
qed

lemma holdings_updates [simp]:
  "same_holdings k (push_word v k') = same_holdings k k'" "same_holdings k (snd (pop_word k')) = same_holdings k k'" "same_holdings k (k'\<lparr>k_cpu := c\<rparr>) = same_holdings k k'"
  "same_holdings k (k'\<lparr>k_tss := ts\<rparr>) = same_holdings k k'" "same_holdings k (on_machine f k') = same_holdings k k'" "same_holdings k (set_current_task a k') = same_holdings k k'"
  by (simp_all add: same_holdings_def push_word_def pop_word_def Let_def on_machine_def set_current_task_def)

lemma set_task_keeps:
  assumes "set_task a f k = Ret u k'" and "\<And>t. t_kernel_stack_base (f t) = t_kernel_stack_base t \<and> t_exit_code (f t) = t_exit_code t \<and> t_mm (f t) = t_mm t"
  shows "same_holdings k k'"
  using assms by (auto simp: set_task_def with_task_def put_task_def same_holdings_def split: option.splits)

lemma switch_to_keeps: "switch_to prev next k = Ret u k' \<Longrightarrow> same_holdings k k'"
proof -
  assume s: "switch_to prev next k = Ret u k'"
  let ?c = "k_cpu k"
  define ka where "ka = push_word (r_edi ?c) (push_word (r_esi ?c) (push_word (r_ebx ?c) (push_word (r_ebp ?c) k)))"
  obtain kb where kb: "set_task prev (\<lambda>t. t\<lparr>t_kernel_esp := r_esp (k_cpu ka)\<rparr>) ka = Ret () kb" "k_tasks kb next \<noteq> None"
    "same_holdings kb k'"
    using s by (auto simp: switch_to_def Let_def ka_def and_then_Ret_iff with_task_def split_def split: option.splits)
  have "same_holdings k ka" by (simp add: ka_def)
  moreover have "same_holdings ka kb" using kb(1) by (rule set_task_keeps) simp
  ultimately show ?thesis using kb(3) holdings_trans by blast
qed

lemma context_switch_keeps:
  assumes "context_switch L prev next k = Ret r k'" and "dead_task k = 0 \<or> dead_task k = prev"
  shows "same_holdings k k'"
proof (cases "prev = 0 \<or> next = 0 \<or> prev = next")
  case True
  then show ?thesis using assms by (auto simp: context_switch_def reap_dead_task_def)
next
  case False
  then obtain k1 t where k1: "set_task next (\<lambda>t. t\<lparr>t_state := TASK_RUNNING\<rparr>) (set_current_task next k) = Ret () k1" "k_tasks k1 next = Some t"
    using assms by (cases "k_tasks k next") (auto simp: context_switch_def reap_dead_task_def set_task_def with_task_def put_task_def set_current_task_def)
  define ka where "ka = k1\<lparr>k_tss := tss_set_kernel_stack (t_kernel_stack_top t) (k_tss k1)\<rparr>"
  define kb where "kb = (if get_cr3 (k_machine ka) \<noteq> t_cr3 t then on_machine (set_cr3 (t_cr3 t)) ka else ka)"
  define k2 where "k2 = push_word (sym_switch_return L) (push_word prev (push_word next kb))"
  have "same_holdings k1 k2" by (simp add: k2_def kb_def ka_def)
  moreover have "switch_to prev next k2 = Ret () k'"
    using assms False k1 by (auto simp: context_switch_def reap_dead_task_def with_task_def Let_def and_then_Ret_iff k2_def kb_def ka_def)
  ultimately have k12: "set_task next (\<lambda>t. t\<lparr>t_state := TASK_RUNNING\<rparr>) (set_current_task next k) = Ret () k1"
    "same_holdings k1 k2" "switch_to prev next k2 = Ret () k'" using k1(1) by simp_all
  have "same_holdings (set_current_task next k) k1" using k12(1) by (rule set_task_keeps) simp
  moreover have "same_holdings k (set_current_task next k)" by simp
  ultimately show ?thesis using k12(2) switch_to_keeps [OF k12(3)] holdings_trans by blast
qed

lemma schedule_keeps:
  assumes "schedule L k = Ret r k'" and "dead_task k = 0"
  shows "same_holdings k k'"
proof (cases "k' = k")
  case False
  then obtain n k1 k2 r1 where n: "set_task (current_task k) (\<lambda>t. t\<lparr>t_state := TASK_READY\<rparr>) k = Ret () k1" 
    "context_switch L (current_task k) n k1 = Ret r1 k2" "after_switch (current_task k) r1 k2 = Ret r k'" "dead_task k1 = 0"
    using assms by (auto simp: schedule_def reap_dead_task_def and_then_Ret_iff Let_def get_current_task_def next_task_def with_task_def
        set_task_def put_task_def split: if_splits option.splits)
  have "same_holdings k k1" using n(1) by (rule set_task_keeps) simp
  moreover have "same_holdings k1 k2" using context_switch_keeps n(2,4) by blast
  moreover have "same_holdings k2 k'" using n(3) 
    by (auto simp: after_switch_def resume_task_def and_then_Ret_iff split: switched.splits intro: set_task_keeps)
  ultimately show ?thesis using holdings_trans by blast
qed simp

section \<open>The descriptors of a task\<close>

lemma put_task_close:
  assumes "and_then (close_file f k) (\<lambda>_. dispose f) = Ret () k'" and "f \<noteq> c"
  shows "and_then (close_file f (put_task c t k)) (\<lambda>_. dispose f) = Ret () (put_task c t k')"
  using assms
  by (auto simp: close_file_def with_file_def on_fs_def fs_of_def put_fs_def vfs_close_def dispose_def forget_def put_task_def put_file_def
      fun_upd_twist split: option.splits if_splits)

text \<open>The files of the first \<open>n\<close> descriptors.\<close>

definition fd_files :: "nat \<Rightarrow> task_t \<Rightarrow> u32 set" where
  "fd_files n t = set (take n (t_file t)) - {0}"

lemma distinct_fds:
  assumes "distinct (filter (\<lambda>f. f \<noteq> 0) xs)" and "n < length xs" and "xs ! n \<noteq> 0"
  shows "xs ! n \<notin> set (take n xs)"
proof -
  have "filter (\<lambda>f. f \<noteq> 0) xs = filter (\<lambda>f. f \<noteq> 0) (take n xs @ xs ! n # drop (Suc n) xs)" using assms(2) by (simp add: id_take_nth_drop [symmetric])
  then show ?thesis using assms(1,3) by auto
qed

lemma close_fds_returns:
  assumes "heap_ok base (k_heap k)" and "typed_stores k" and "k_tasks k c = Some t"
    and "distinct (filter (\<lambda>f. f \<noteq> 0) (t_file t))" and "files_ok k (fd_files n t)" and "n \<le> length (t_file t)"
  shows "\<exists>k'. each (close_fd c) [0..<n] k = Ret () (put_task c (t\<lparr>t_file := replicate n 0 @ drop n (t_file t)\<rparr>) k')
    \<and> shrunk base (files_parts k (fd_files n t)) k k'"
  using assms(5,6)
proof (induction n)
  case 0
  have "put_task c (t\<lparr>t_file := t_file t\<rparr>) k = k" using assms(3) by (simp add: put_task_def fun_upd_idem)
  then show ?case using shrunk_refl [OF assms(1)] by (intro exI [of _ k]) (simp add: fd_files_def files_parts_def)
next
  case (Suc n)
  let ?f = "t_file t ! n" and ?t = "\<lambda>n. t\<lparr>t_file := replicate n 0 @ drop n (t_file t)\<rparr>"
  have n: "n < length (t_file t)" using Suc.prems(2) by simp
  have F: "files_ok k (fd_files n t)" by (rule files_ok_mono [OF Suc.prems(1)]) (auto simp: fd_files_def take_Suc_conv_app_nth [OF n])
  from Suc.IH [OF F] n obtain k1 where k1: "each (close_fd c) [0..<n] k = Ret () (put_task c (?t n) k1)"
    "shrunk base (files_parts k (fd_files n t)) k k1" by auto
  have dr: "drop n (t_file t) = ?f # drop (Suc n) (t_file t)" using n by (simp add: Cons_nth_drop_Suc)
  have at: "t_file (?t n) ! n = ?f" by (simp add: nth_append dr)
  have upd: "(?t n)\<lparr>t_file := (t_file (?t n))[n := 0]\<rparr> = ?t (Suc n)" by (simp add: dr list_update_append replicate_append_same)
  have kc: "k_tasks (put_task c (?t n) k1) c = Some (?t n)" by (simp add: put_task_def)
  show ?case
  proof (cases "?f = 0")
    case True
    then have "?t (Suc n) = ?t n" using dr by (simp add: replicate_append_same)
    moreover have "fd_files (Suc n) t = fd_files n t" using True by (auto simp: fd_files_def take_Suc_conv_app_nth [OF n])
    ultimately show ?thesis using k1 True at kc
      by (intro exI [of _ k1]) (simp add: each_append close_fd_def [of c n] with_task_def)
  next
    case False
    have new: "?f \<notin> fd_files n t" using distinct_fds [OF assms(4) n False] by (simp add: fd_files_def)
    have F': "fd_files (Suc n) t = insert ?f (fd_files n t)" using False by (auto simp: fd_files_def take_Suc_conv_app_nth [OF n])
    have "file_parts k ?f \<inter> file_parts k g = {}" if "g \<in> fd_files n t" for g
      using Suc.prems(1) F' new that unfolding files_ok_def by (metis insertI1 insertI2)
    then have fo: "file_ok k ?f" "file_parts k ?f \<inter> files_parts k (fd_files n t) = {}"
      using Suc.prems(1) by (simp_all add: files_ok_def F' files_parts_def Int_UN_distrib)
    from shrunk_close [OF k1(2) assms(2) fo] obtain k2 where k2: "and_then (close_file ?f k1) (\<lambda>_. dispose ?f) = Ret () k2"
      "shrunk base (files_parts k (fd_files (Suc n) t)) k k2" by (auto simp: F' files_parts_def)
    have "?f \<in> dom (k_files k)" using fo(1) by (simp add: file_ok_def)
    then have "?f \<noteq> c" using assms(2,3) unfolding typed_stores_def by blast
    from put_task_close [OF k2(1) this, of "?t n"] have
      cl: "and_then (close_file ?f (put_task c (?t n) k1)) (\<lambda>_. dispose ?f) = Ret () (put_task c (?t n) k2)" .
    have "close_fd c n (put_task c (?t n) k1) = Ret () (put_task c (?t (Suc n)) k2)"
      using False kc at cl upd by (simp add: close_fd_def with_task_def set_task_def and_then_assoc [symmetric])
    then show ?thesis using k1(1) k2(2) by (intro exI [of _ k2]) (simp add: each_append)
  qed
qed

section \<open>The end of a task\<close>

lemma vma_seg_without: "set xs \<inter> D = {} \<Longrightarrow> vma_seg (without D V) p a xs q b = vma_seg V p a xs q b"
  by (induction xs arbitrary: p a) (auto simp: without_def)

lemma space_owned_shrunk:
  assumes "space_owned L base k mm xs pd" and "shrunk base D k k'" and "D \<inter> space_parts k mm xs = {}"
  shows "space_owned L base k' mm xs pd" "space_parts k' mm xs = space_parts k mm xs"
proof -
  note sel = shrunk_sel [OF assms(2)]
  let ?F = "area_files (k_vmas k) xs"
  have d: "set xs \<inter> D = {}" "mm \<notin> D" "files_parts k ?F \<inter> D = {}" using assms(3) by (auto simp: space_parts_def)
  have F: "area_files (k_vmas k') xs = ?F" using d(1) unfolding sel area_files_def
    by (intro arg_cong2 [where f = minus] image_cong refl) (auto simp: vma_at_def without_def)
  have fp: "file_parts k' f = file_parts k f" "f \<notin> D" "f_inode (the (k_files k f)) \<noteq> 0 \<Longrightarrow> f_inode (the (k_files k f)) \<notin> D" if "f \<in> ?F" for f
  proof -
    have "file_parts k f \<inter> D = {}" using d(3) that by (auto simp: files_parts_def)
    then show "f \<notin> D" "f_inode (the (k_files k f)) \<noteq> 0 \<Longrightarrow> f_inode (the (k_files k f)) \<notin> D" by (auto simp: file_parts_def)
    then show "file_parts k' f = file_parts k f" unfolding sel file_parts_def by (simp add: without_def)
  qed
  then show sp: "space_parts k' mm xs = space_parts k mm xs" unfolding space_parts_def files_parts_def F by simp
  have al: "p \<in> fst ` allocated (k_heap k')" if p: "p \<in> fst ` allocated (k_heap k)" "p \<notin> D" for p
    using p assms(2) by (force simp: shrunk_def)
  have "file_ok k' f" if f: "f \<in> ?F" for f
  proof -
    have ok: "f \<in> dom (k_files k)" "{f_inode (the (k_files k f))} - {0} \<subseteq> dom (k_inodes k)" "file_parts k f \<subseteq> fst ` allocated (k_heap k)"
      using assms(1) f by (simp_all add: space_owned_def files_ok_def file_ok_def)
    have kf: "k_files k' f = k_files k f" using fp(2) [OF f] by (simp add: sel without_def)
    have "f \<in> dom (k_files k')" using ok(1) kf by auto
    moreover have "{f_inode (the (k_files k' f))} - {0} \<subseteq> dom (k_inodes k')" using ok(2) fp(3) [OF f] unfolding kf
      by (cases "f_inode (the (k_files k f)) = 0") (simp_all add: sel without_def domIff)
    moreover have "file_parts k' f \<subseteq> fst ` allocated (k_heap k')"
    proof
      fix p assume "p \<in> file_parts k' f"
      then have "p \<in> file_parts k f" by (simp add: fp(1) [OF f])
      moreover from this have "p \<notin> D" using fp(2,3) [OF f] by (auto simp: file_parts_def)
      ultimately show "p \<in> fst ` allocated (k_heap k')" using al ok(3) by blast
    qed
    ultimately show ?thesis by (simp add: file_ok_def)
  qed
  moreover have "\<forall>f \<in> ?F. \<forall>g \<in> ?F. f \<noteq> g \<longrightarrow> file_parts k' f \<inter> file_parts k' g = {}"
    using assms(1) fp(1) by (simp add: space_owned_def files_ok_def)
  ultimately have "files_ok k' (area_files (k_vmas k') xs)" unfolding F files_ok_def by blast
  moreover have "typed_stores k'" using assms(1) unfolding space_owned_def typed_stores_def sel by (auto simp: without_def disjoint_iff dom_def split: if_splits)
  moreover have "insert mm (set xs) \<subseteq> fst ` allocated (k_heap k')" using assms(1) d al unfolding space_owned_def by blast
  moreover have "heap_ok base (k_heap k')" using assms(2) by (simp add: shrunk_def)
  moreover have "\<exists>m. k_mms k' mm = Some m \<and> mm_pgd m = pd \<and> vma_chain (k_vmas k') (mm_mmap m) xs"
    using assms(1) d(2) unfolding space_owned_def vma_chain_def sel vma_seg_without [OF d(1)] by (simp add: without_def)
  ultimately show "space_owned L base k' mm xs pd" using assms(1) unfolding space_owned_def sel(6,7) by blast
qed

lemma space_owned_cong:
  assumes "k_heap k' = k_heap k" "k_mms k' = k_mms k" "k_vmas k' = k_vmas k" "k_files k' = k_files k" "k_inodes k' = k_inodes k"
    "k_paging k' = k_paging k" "k_frames k' = k_frames k" "dom (k_tasks k') = dom (k_tasks k)"
  shows "space_owned L base k' mm xs pd = space_owned L base k mm xs pd" "space_parts k' mm xs = space_parts k mm xs"
    "files_ok k' F = files_ok k F" "files_parts k' F = files_parts k F" "typed_stores k' = typed_stores k"
  unfolding space_owned_def space_parts_def files_ok_def file_ok_def file_parts_def files_parts_def typed_stores_def assms by (rule refl)+

text \<open>
  \<open>torn_down L base D pd k k'\<close>: the objects \<open>D\<close> and the directory \<open>pd\<close> with its tables and frames, and nothing else, have been given back.
\<close>

definition torn_down :: "symbols \<Rightarrow> u32 \<Rightarrow> u32 set \<Rightarrow> u32 \<Rightarrow> kernel \<Rightarrow> kernel \<Rightarrow> bool" where
  "torn_down L base D pd k k' \<longleftrightarrow> heap_ok base (k_heap k') \<and> allocated (k_heap k') = {r \<in> allocated (k_heap k). fst r \<notin> D}
     \<and> dom (k_tasks k') = dom (k_tasks k) - D \<and> k_mms k' = without D (k_mms k) \<and> k_vmas k' = without D (k_vmas k)
     \<and> k_files k' = without D (k_files k) \<and> k_inodes k' = without D (k_inodes k)
     \<and> pd_ok L (k_paging k') \<and> pt_ok L (k_paging k') \<and> frames_ok (k_frames k')
     \<and> pd_used L (k_paging k') = pd_used L (k_paging k) - {pd}
     \<and> pt_used L (k_paging k') = pt_used L (k_paging k) - user_tables (kmem (k_paging k)) pd 1024
     \<and> frames_used (k_frames k') = frames_used (k_frames k) - space_frames (kmem (k_paging k)) pd 1024"

lemma torn_down_keeps: "torn_down L base D pd k k' \<Longrightarrow> same_holdings k' k'' \<Longrightarrow> torn_down L base D pd k k''"
  using holdings_dom [of k' k''] by (simp add: torn_down_def same_holdings_def pd_ok_def pt_ok_def pd_used_def pt_used_def)

lemma torn_down_dispose:
  assumes "torn_down L base D pd k k'" and "p \<in> fst ` allocated (k_heap k)" and "p \<notin> D"
  shows "\<exists>h. dispose p k' = Ret () (forget p (k'\<lparr>k_heap := h\<rparr>)) \<and> torn_down L base (insert p D) pd k (forget p (k'\<lparr>k_heap := h\<rparr>))"
proof -
  obtain m where m: "(p, m) \<in> allocated (k_heap k')" using assms by (auto simp: torn_down_def)
  have "heap_ok base (k_heap k')" using assms(1) by (simp add: torn_down_def)
  from dispose_region [OF this m] obtain h where h: "dispose p k' = Ret () (forget p (k'\<lparr>k_heap := h\<rparr>))" "heap_ok base h"
    "allocated h = allocated (k_heap k') - {(p, m)}" .
  have u: "n = m" if "(p, n) \<in> allocated (k_heap k')" for n using that m by (auto simp: allocated_def)
  have "allocated h = {r \<in> allocated (k_heap k). fst r \<notin> insert p D}"
    unfolding h(3) using assms(1) u by (auto simp: torn_down_def)
  then show ?thesis using h(1,2) assms(1) by (intro exI [of _ h]) (simp add: torn_down_def without_insert, auto)
qed

lemma space_apart:
  assumes "space_owned L base k mm xs pd"
  shows "space_parts k mm xs \<inter> dom (k_tasks k) = {}"
proof -
  obtain m q where m: "k_mms k mm = Some m" "vma_seg (k_vmas k) 0 (mm_mmap m) xs q 0" using assms by (auto simp: space_owned_def vma_chain_def)
  have ok: "typed_stores k" "files_ok k (area_files (k_vmas k) xs)" using assms by (simp_all add: space_owned_def)
  have d: "dom (k_mms k) \<inter> dom (k_tasks k) = {}" "dom (k_vmas k) \<inter> dom (k_tasks k) = {}"
    using ok(1) by (simp_all add: typed_stores_def Int_Un_distrib Int_commute)
  have "mm \<in> dom (k_mms k)" "set xs \<subseteq> dom (k_vmas k)" using m(1) vma_seg_dom [OF m(2)] by blast+
  then show ?thesis using d files_apart(3) [OF ok] unfolding space_parts_def by blast
qed

lemma without_twice: "without D (without E m) = without (E \<union> D) m"
  by (rule ext) (simp add: without_def)

text \<open>What \<open>exit_task\<close> has done when it looks for the next task.\<close>

lemma exit_prepares:
  assumes "current_task k = c" and "k_tasks k c = Some t" and "k_tasks k (sym_idle_task L) = Some idle" and "space_owned L base k (t_mm t) xs pd"
    and "length (t_file t) = 32" and "distinct (filter (\<lambda>f. f \<noteq> 0) (t_file t))" and "files_ok k (fd_files 32 t)"
    and "files_parts k (fd_files 32 t) \<inter> space_parts k (t_mm t) xs = {}" and "c \<noteq> sym_idle_task L"
  defines "D \<equiv> files_parts k (fd_files 32 t) \<union> space_parts k (t_mm t) xs"
  shows "\<exists>k' t'. exit_task L code k = and_then (next_task L k') (\<lambda>n k. and_then (context_switch L c n k) (\<lambda>r k.
      case r of Switched \<Rightarrow> Ret Switched k | Returned \<Rightarrow> spin_forever k))
    \<and> k_tasks k' = (k_tasks k)(c \<mapsto> t') \<and> t_state t' = TASK_ZOMBIE \<and> t_exit_code t' = code \<and> t_mm t' = 0 \<and> t_prev t' = t_prev t \<and> t_next t' = t_next t
    \<and> t_kernel_stack_base t' = t_kernel_stack_base t
    \<and> current_task k' = c \<and> task_ptr k' = task_ptr k \<and> dead_task k' = c \<and> torn_down L base D pd k k'"
proof -
  have sp: "heap_ok base (k_heap k)" "typed_stores k" using assms(4) by (simp_all add: space_owned_def)
  define t1 where "t1 = t\<lparr>t_exit_code := code, t_state := TASK_ZOMBIE\<rparr>"
  define mach where "mach = snd (console_putc 0x0a (snd (console_put_dec32 (t_pid t) (print ''[Done] '' (snd (irq_save (k_machine k)))))))"
  define k1 where "k1 = put_task c t1 (k\<lparr>k_machine := mach\<rparr>)"
  have dom1: "dom (k_tasks k1) = dom (k_tasks k)" using assms(2) by (auto simp: k1_def put_task_def)
  have c1: "space_owned L base k1 (t_mm t) xs pd" "space_parts k1 (t_mm t) xs = space_parts k (t_mm t) xs"
      "files_ok k1 (fd_files 32 t1)" "files_parts k1 (fd_files 32 t1) = files_parts k (fd_files 32 t)" "typed_stores k1"
    using space_owned_cong [of k1 k, OF _ _ _ _ _ _ _ dom1] assms(4,7) sp(2) by (simp_all add: k1_def put_task_def t1_def fd_files_def)
  have "heap_ok base (k_heap k1)" "k_tasks k1 c = Some t1" "distinct (filter (\<lambda>f. f \<noteq> 0) (t_file t1))" "length (t_file t1) = 32"
    using sp(1) assms(5,6) by (simp_all add: k1_def put_task_def t1_def)
  with close_fds_returns [of base k1 c t1 32] c1(3,5) obtain k2 where k2:
    "each (close_fd c) [0..<32] k1 = Ret () (put_task c (t1\<lparr>t_file := replicate 32 0\<rparr>) k2)"
    "shrunk base (files_parts k (fd_files 32 t)) k1 k2" by (auto simp: c1(4))
  note sel2 = shrunk_sel [OF k2(2)]
  have dt: "files_parts k (fd_files 32 t) \<inter> dom (k_tasks k) = {}" using files_apart(3) [OF sp(2) assms(7)] .
  have kt2: "k_tasks k2 = k_tasks k1" using sel2(1) dt dom1 by (simp add: without_disjoint)
  define t3 where "t3 = t1\<lparr>t_file := replicate 32 0, t_cr3 := t_cr3 idle\<rparr>"
  define k3 where "k3 = put_task c t3 (on_machine (set_cr3 (t_cr3 idle)) k2)"
  have kt3: "k_tasks k3 = (k_tasks k)(c \<mapsto> t3)" by (simp add: k3_def put_task_def on_machine_def kt2 k1_def)
  have dom3: "dom (k_tasks k3) = dom (k_tasks k2)" unfolding kt2 dom1 kt3 using assms(2) by auto
  have s2: "space_owned L base k2 (t_mm t) xs pd" "space_parts k2 (t_mm t) xs = space_parts k (t_mm t) xs"
    using space_owned_shrunk [OF c1(1) k2(2)] assms(8) c1(2) by simp_all
  have s3: "space_owned L base k3 (t_mm t) xs pd" "space_parts k3 (t_mm t) xs = space_parts k (t_mm t) xs"
    using space_owned_cong [of k3 k2, OF _ _ _ _ _ _ _ dom3] s2 by (simp_all add: k3_def put_task_def on_machine_def)
  obtain k4 where k4: "release_mm L (t_mm t) k3 = Ret () k4" "released L base (space_parts k (t_mm t) xs) pd k3 k4"
    using release_mm_releases [OF s3(1)] s3(2) by auto
  obtain k4' where k4': "shrunk base (space_parts k (t_mm t) xs) k3 k4'" "k4 = k4'\<lparr>k_paging := k_paging k4, k_frames := k_frames k4\<rparr>"
    using k4(2) unfolding released_def by blast
  note sel4 = shrunk_sel [OF k4'(1)]
  have kt4: "k_tasks k4 = (k_tasks k)(c \<mapsto> t3)"
    using sel4(1) space_apart [OF s3(1)] kt3 by (subst k4'(2)) (simp add: without_disjoint s3(2))
  define k5 where "k5 = (put_task c (t3\<lparr>t_mm := 0\<rparr>) k4)\<lparr>dead_task := c\<rparr>"
  have e: "exit_task L code k = and_then (next_task L k5) (\<lambda>n k. and_then (context_switch L c n k) (\<lambda>r k.
      case r of Switched \<Rightarrow> Ret Switched k | Returned \<Rightarrow> spin_forever k))"
  proof -
    have tasks: "k_tasks (put_task x u k) y = (if y = x then Some u else k_tasks k y)" "k_tasks (on_machine f k) = k_tasks k"
      "current_task (on_machine f k) = current_task k" for x y u k f by (simp_all add: put_task_def on_machine_def)
    have start: "on_machine (\<lambda>m. snd (console_putc 0x0a m)) (on_machine (\<lambda>m. snd (console_put_dec32 (t_pid t1) m)) (on_machine (print ''[Done] '')
        (put_task c t1 (on_machine (\<lambda>m. snd (irq_save m)) k)))) = k1"
      by (simp add: k1_def mach_def on_machine_def put_task_def t1_def)
    have end3: "on_machine (set_cr3 (t_cr3 t3)) (put_task c t3 k2) = k3"
      by (simp add: k3_def on_machine_def put_task_def t3_def)
    have upd: "t\<lparr>t_exit_code := code, t_state := TASK_ZOMBIE\<rparr> = t1" "t1\<lparr>t_file := replicate 32 0, t_cr3 := t_cr3 idle\<rparr> = t3" "t_mm t3 = t_mm t"
      by (simp_all add: t1_def t3_def)
    have i: "k_tasks k2 (sym_idle_task L) = Some idle" using assms(3,9) by (simp add: kt2 k1_def put_task_def)
    have t4: "k_tasks k4 c = Some t3" by (simp add: kt4)
    show ?thesis
      using assms(1,2,9) k2(1) k4(1) i t4
      by (simp add: exit_task_def Let_def get_current_task_def tasks set_task_def [of c] with_task_def upd start end3 k5_def
          del: upt_rec_numeral)
  qed
  have stores: "k_heap k1 = k_heap k" "k_mms k1 = k_mms k" "k_vmas k1 = k_vmas k" "k_files k1 = k_files k" "k_inodes k1 = k_inodes k"
      "k_paging k1 = k_paging k" "k_frames k1 = k_frames k" "current_task k1 = current_task k" "task_ptr k1 = task_ptr k"
      "k_heap k3 = k_heap k2" "k_mms k3 = k_mms k2" "k_vmas k3 = k_vmas k2" "k_files k3 = k_files k2" "k_inodes k3 = k_inodes k2"
      "k_paging k3 = k_paging k2" "k_frames k3 = k_frames k2" "current_task k3 = current_task k2" "task_ptr k3 = task_ptr k2"
    by (simp_all add: k1_def k3_def put_task_def on_machine_def)
  have proj: "k_heap k5 = k_heap k4'" "k_mms k5 = k_mms k4'" "k_vmas k5 = k_vmas k4'" "k_files k5 = k_files k4'" "k_inodes k5 = k_inodes k4'"
      "current_task k5 = current_task k4'" "task_ptr k5 = task_ptr k4'" "k_paging k5 = k_paging k4" "k_frames k5 = k_frames k4"
    unfolding k5_def by (subst k4'(2), simp add: put_task_def)+
  have kt5: "k_tasks k5 = (k_tasks k)(c \<mapsto> t3\<lparr>t_mm := 0\<rparr>)" by (simp add: k5_def put_task_def kt4)
  have al: "heap_ok base (k_heap k5)" "allocated (k_heap k5) = {r \<in> allocated (k_heap k). fst r \<notin> D}"
    using k4'(1) k2(2) unfolding proj shrunk_def stores D_def by auto
  have "D \<inter> dom (k_tasks k) = {}" using dt space_apart [OF assms(4)] by (simp add: D_def Int_Un_distrib2)
  then have "dom (k_tasks k5) = dom (k_tasks k) - D" using kt5 assms(2) by auto
  moreover have "k_mms k5 = without D (k_mms k)" "k_vmas k5 = without D (k_vmas k)" "k_files k5 = without D (k_files k)" "k_inodes k5 = without D (k_inodes k)"
    unfolding proj sel4 stores sel2 D_def without_twice by (rule refl)+
  ultimately have "torn_down L base D pd k k5"
    using al k4(2) unfolding torn_down_def released_def proj stores sel2(6,7) by blast
  moreover have "current_task k5 = c" "task_ptr k5 = task_ptr k" unfolding proj sel4 stores sel2 using assms(1) by simp_all
  ultimately show ?thesis using e kt5
    by (intro exI [of _ k5] exI [of _ "t3\<lparr>t_mm := 0\<rparr>"]) (simp add: t3_def t1_def, simp add: k5_def)
qed

text \<open>The abstract scheduler without the task \<open>c\<close>, which was the current one.\<close>

definition rr_exit :: "u32 \<Rightarrow> u32 \<Rightarrow> rr \<Rightarrow> rr" where
  "rr_exit idle c s =
     (let s' = s\<lparr>rr_ready := (rr_ready s)(c := False)\<rparr> in s'\<lparr>rr_members := remove1 c (rr_members s), rr_current := rr_next idle s'\<rparr>)"

text \<open>The switch away from a task that has ended.\<close>

lemma zombie_switch:
  assumes "implements L k s" and "current_task k = c" and "c \<noteq> sym_idle_task L" and "k_tasks k c = Some t"
    and "k_tasks k' = (k_tasks k)(c \<mapsto> t')" and "t_state t' = TASK_ZOMBIE" and "t_prev t' = t_prev t" and "t_next t' = t_next t"
    and "current_task k' = c" and "task_ptr k' = task_ptr k" and "dead_task k' = c"
  defines "n \<equiv> rr_current (rr_exit (sym_idle_task L) c s)"
  shows "\<exists>k1. next_task L k' = Ret n k' \<and> context_switch L c n k' = Ret Switched k1 \<and> same_holdings k' k1 \<and> sched_ring k1 (rr_members s)
    \<and> current_task k1 = n \<and> dead_task k1 = c \<and> n \<in> set (rr_members s) \<and> n \<noteq> c \<and> rr_ready s n \<and> state_of k1 c = TASK_ZOMBIE
    \<and> (\<forall>x \<in> set (rr_members s). x \<noteq> c \<longrightarrow> state_of k1 x = rr_state (rr_exit (sym_idle_task L) c s) x)"
proof -
  let ?i = "sym_idle_task L"
  define s' where "s' = s\<lparr>rr_ready := (rr_ready s)(c := False)\<rparr>"
  have n: "n = rr_next ?i s'" by (simp add: n_def rr_exit_def s'_def Let_def)
  have sr: "sched_ring k (rr_members s)" "rr_current s = c" "?i \<in> set (rr_members s)" "c \<in> set (rr_members s)" "rr_ready s ?i"
    using assms(1,2) by (auto simp: implements_def rr_ok_def)
  have st: "state_of k x = rr_state s x" if "x \<in> set (rr_members s)" for x using assms(1) that by (simp add: implements_def)
  have ring: "sched_ring k' (rr_members s)" unfolding sched_ring_def assms(10)
    using sr(1) assms(4,5,7,8) by (subst ring_cong [where tasks = "k_tasks k"]) (auto simp: sched_ring_def)
  have np: "n \<in> set (rr_members s)" "rr_ready s' n"
    using rr_next_props [of ?i s'] sr assms(3) by (simp_all add: n s'_def)
  then have nc: "n \<noteq> c" "rr_ready s n" by (auto simp: s'_def split: if_splits)
  have "runnable (k_tasks k') ?i x \<longleftrightarrow> rr_ready s' x \<and> x \<noteq> ?i" if "x \<in> set (rr_members s')" for x
    using st [of x] that sr(2) assms(5,6) by (auto simp: runnable_def s'_def rr_state_def)
  then have nx: "next_task L k' = Ret n k'" unfolding n using ring sr assms(9) by (intro next_task_rr) (simp_all add: s'_def)
  have zero: "c \<noteq> 0" "n \<noteq> 0" using sr(1,4) np(1) ring_member by (auto simp: sched_ring_def)
  obtain tn where tn: "k_tasks k' n = Some tn" using ring_member [of "k_tasks k'" "rr_members s" n] ring np(1) by (auto simp: sched_ring_def)
  obtain k1 where k1: "context_switch L c n k' = Ret Switched k1" "moved k' k1 ((state_of k')(n := TASK_RUNNING))" "current_task k1 = n"
    using context_switch_effect [of k' c n t' tn L] assms(5,11) zero nc(1) tn by auto
  have kp: "same_holdings k' k1" using context_switch_keeps [OF k1(1)] assms(11) by blast
  have dm: "x \<in> dom (k_tasks k')" if "x \<in> set (rr_members s)" for x using ring that ring_member [of "k_tasks k'" "rr_members s" x] by (auto simp: sched_ring_def)
  have s1: "state_of k1 x = ((state_of k')(n := TASK_RUNNING)) x" if "x \<in> set (rr_members s)" for x
    using k1(2) dm [OF that] by (simp add: moved_def)
  have "state_of k1 x = rr_state (rr_exit ?i c s) x" if "x \<in> set (rr_members s)" "x \<noteq> c" for x
    using s1 [OF that(1)] st [OF that(1)] that(2) sr(2) assms(5) n by (simp add: rr_state_def rr_exit_def s'_def Let_def)
  moreover have "state_of k1 c = TASK_ZOMBIE" using s1 [OF sr(4)] nc(1) assms(5,6) by simp
  moreover have "sched_ring k1 (rr_members s)" "dead_task k1 = c" using moved_ring [OF k1(2)] ring k1(2) assms(11) by (auto simp: moved_def)
  ultimately show ?thesis using nx k1(1,3) kp np(1) nc by blast
qed

lemma torn_down_tasks:
  assumes "torn_down L base D pd k k1" and "dom T = dom (k_tasks k1)"
  shows "torn_down L base D pd k (k1\<lparr>k_tasks := T, task_ptr := p, current_task := c\<rparr>)"
  using assms by (simp add: torn_down_def)

lemma torn_down_dead: "torn_down L base D pd k k1 \<Longrightarrow> torn_down L base D pd k (k1\<lparr>dead_task := d\<rparr>)"
  by (simp add: torn_down_def)

lemma reap_removes:
  assumes "sched_ring k (rr_members s)" and "current_task k = n" and "dead_task k = c" and "n \<noteq> c" and "c \<in> set (rr_members s)"
    and "n \<in> set (rr_members s)" and "k_tasks k c = Some t" and "t_kernel_stack_base t = st"
    and "torn_down L base D pd k0 k" and "{st, c} \<subseteq> fst ` allocated (k_heap k0)" and "st \<notin> D" and "c \<notin> D" and "st \<notin> dom (k_tasks k)"
  shows "\<exists>k'. reap_dead_task n k = Ret () k' \<and> sched_ring k' (remove1 c (rr_members s)) \<and> current_task k' = n \<and> dead_task k' = 0
    \<and> (\<forall>x \<in> set (rr_members s). x \<noteq> c \<longrightarrow> state_of k' x = state_of k x) \<and> torn_down L base ({st, c} \<union> D) pd k0 k'"
proof -
  obtain as bs where ts: "rr_members s = as @ c # bs" "c \<notin> set as" using split_list_first [OF assms(5)] by blast
  have dist: "distinct (rr_members s)" "0 \<notin> set (rr_members s)" using assms(1) by (simp_all add: sched_ring_def ring_def)
  have rm: "remove1 c (rr_members s) = as @ bs" using ts by (simp add: remove1_append)
  have ne: "as @ bs \<noteq> []" using assms(4,6) ts by auto
  from dequeue_ring [OF assms(1) [unfolded ts(1)] ne] assms(2,4) obtain k1 where k1: "dequeue_task c k = Ret 1 k1" "sched_ring k1 (as @ bs)"
    "current_task k1 = n" "\<forall>x. map_option t_state (k_tasks k1 x) = map_option t_state (k_tasks k x)"
    "map_option t_kernel_stack_base (k_tasks k1 c) = map_option t_kernel_stack_base (k_tasks k c)"
    "k1 = k\<lparr>k_tasks := k_tasks k1, task_ptr := task_ptr k1, current_task := current_task k1\<rparr>" by auto
  have dom1: "dom (k_tasks k1) = dom (k_tasks k)" 
  proof (rule set_eqI)
    fix x have "map_option t_state (k_tasks k1 x) = map_option t_state (k_tasks k x)" using k1(4) by blast
    then show "x \<in> dom (k_tasks k1) \<longleftrightarrow> x \<in> dom (k_tasks k)" by (cases "k_tasks k1 x"; cases "k_tasks k x") auto
  qed
  have td1: "torn_down L base D pd k0 k1" using torn_down_tasks [OF assms(9) dom1] by (subst k1(6))
  obtain t1 where t1: "k_tasks k1 c = Some t1" "t_kernel_stack_base t1 = st" using k1(5) assms(7,8) by auto
  have st: "st \<noteq> c" "st \<in> fst ` allocated (k_heap k0)" using assms(7,10,13) by auto
  from torn_down_dispose [OF td1 st(2) assms(11)] obtain h1 where h1: "dispose st k1 = Ret () (forget st (k1\<lparr>k_heap := h1\<rparr>))"
    "torn_down L base (insert st D) pd k0 (forget st (k1\<lparr>k_heap := h1\<rparr>))" by blast
  define k2 where "k2 = forget st (k1\<lparr>k_heap := h1\<rparr>)"
  have "c \<notin> insert st D" using assms(12) st(1) by simp
  with torn_down_dispose [OF h1(2), of c] assms(10) obtain h2 where h2: "dispose c k2 = Ret () (forget c (k2\<lparr>k_heap := h2\<rparr>))"
    "torn_down L base (insert c (insert st D)) pd k0 (forget c (k2\<lparr>k_heap := h2\<rparr>))" by (auto simp: k2_def)
  define k3 where "k3 = (forget c (k2\<lparr>k_heap := h2\<rparr>))\<lparr>dead_task := 0\<rparr>"
  have cz: "c \<noteq> 0" using dist(2) assms(5) by auto
  have r: "reap_dead_task n k = Ret () k3"
    using assms(3,4) cz k1(1) t1 h1(1) h2(1) by (simp add: reap_dead_task_def with_task_def k3_def k2_def)
  have tasks: "k_tasks k3 x = k_tasks k1 x" if "x \<in> set (as @ bs)" for x
  proof -
    have "x \<noteq> c" using that dist(1) ts(1) by auto
    moreover have "x \<in> dom (k_tasks k1)" using k1(2) that by (auto simp: sched_ring_def ring_def)
    then have "x \<noteq> st" using assms(13) dom1 by blast
    ultimately show ?thesis by (simp add: k3_def k2_def)
  qed
  have "task_ptr k3 = task_ptr k1" "current_task k3 = n" using k1(3) by (simp_all add: k3_def k2_def)
  moreover from this tasks have "sched_ring k3 (as @ bs)" using k1(2) unfolding sched_ring_def
    by (subst ring_cong [where tasks = "k_tasks k1"]) auto
  moreover have "state_of k3 x = state_of k x" if x: "x \<in> set (rr_members s)" "x \<noteq> c" for x
  proof -
    have "k_tasks k3 x = k_tasks k1 x" using tasks x ts(1) by auto
    moreover have "x \<in> dom (k_tasks k1)" using k1(2) x ts(1) by (auto simp: sched_ring_def ring_def)
    moreover from this have "x \<in> dom (k_tasks k)" using dom1 by simp
    moreover have "map_option t_state (k_tasks k1 x) = map_option t_state (k_tasks k x)" using k1(4) by blast
    ultimately show ?thesis by auto
  qed
  moreover have "torn_down L base ({st, c} \<union> D) pd k0 k3"
    using torn_down_dead [OF h2(2), of 0] by (simp add: k3_def insert_commute)
  ultimately show ?thesis unfolding rm using r by (intro exI [of _ k3]) (simp add: k3_def)
qed

lemma parts_objects:
  "files_ok k F \<Longrightarrow> files_parts k F \<subseteq> objects k"
  "space_owned L base k mm xs pd \<Longrightarrow> space_parts k mm xs \<subseteq> objects k"
proof -
  have F: "files_parts k F \<subseteq> objects k" if "files_ok k F" for F
  proof
    fix p assume "p \<in> files_parts k F"
    then obtain f where f: "f \<in> F" "p \<in> file_parts k f" by (auto simp: files_parts_def)
    then have "f \<in> dom (k_files k)" "{f_inode (the (k_files k f))} - {0} \<subseteq> dom (k_inodes k)" using that by (simp_all add: files_ok_def file_ok_def)
    then show "p \<in> objects k" using f(2) unfolding file_parts_def objects_def by blast
  qed
  then show "files_ok k F \<Longrightarrow> files_parts k F \<subseteq> objects k" .
  assume sp: "space_owned L base k mm xs pd"
  then obtain m q where m: "k_mms k mm = Some m" "vma_seg (k_vmas k) 0 (mm_mmap m) xs q 0" "files_ok k (area_files (k_vmas k) xs)"
    by (auto simp: space_owned_def vma_chain_def)
  have "mm \<in> dom (k_mms k)" "set xs \<subseteq> dom (k_vmas k)" using m(1) vma_seg_dom [OF m(2)] by blast+
  then show "space_parts k mm xs \<subseteq> objects k" using F [OF m(3)] unfolding space_parts_def objects_def by blast
qed

section \<open>An example\<close>

text \<open>A task that maps one file, of which one page is present.\<close>

definition exit_sample :: kernel where
  "exit_sample = boot_kernel\<lparr>
     k_heap := rep_heap 0xc0200000 [(176, False), (8192, False), (8, False), (32, False), (8, False), (32, False), (57004, True)],
     k_frames := init_frames[1024 := 1],
     k_paging := \<lparr>pd_in_use = (replicate 16 0)[0 := 1], pt_in_use = (replicate 64 0)[0 := 1],
       kmem = (\<lambda>_. 0)(0xc0110000 := 0x130007, 0xc0130000 := 0x400007)\<rparr>,
     k_tasks := [0xc0180000 \<mapsto> zero_task\<lparr>t_prev := 0xc020000c, t_next := 0xc020000c, t_state := TASK_READY\<rparr>,
       0xc020000c \<mapsto> zero_task\<lparr>t_prev := 0xc0180000, t_next := 0xc0180000, t_state := TASK_RUNNING, t_pid := 1, t_mm := 0xc02020d4,
         t_kernel_stack_base := 0xc02000c8\<rparr>],
     k_mms := [0xc02020d4 \<mapsto> \<lparr>mm_pgd = 0xc0110000, mm_mmap = 0xc02020e8\<rparr>],
     k_vmas := [0xc02020e8 \<mapsto> \<lparr>vm_start = 0x8000, vm_end = 0x9000, vm_offset = 0, vm_mm = 0xc02020d4, vm_file = 0xc0202114, vm_prev = 0, vm_next = 0\<rparr>],
     k_files := [0xc0202114 \<mapsto> \<lparr>f_inode = 0xc0202128, f_pos = 0\<rparr>], k_inodes := [0xc0202128 \<mapsto> tiny_root],
     task_ptr := 0xc020000c, current_task := 0xc020000c, dead_task := 0\<rparr>"

abbreviation exit_rr :: rr where
  "exit_rr \<equiv> \<lparr>rr_members = [0xc0180000, 0xc020000c], rr_current = 0xc020000c, rr_ready = \<lambda>_. True\<rparr>"

lemma exit_sample_heap:
  "heap_ok 0xc0200000 (k_heap exit_sample)"
  "fst ` allocated (k_heap exit_sample) = {0xc020000c, 0xc02000c8, 0xc02020d4, 0xc02020e8, 0xc0202114, 0xc0202128}"
proof -
  let ?bs = "[(176, False), (8192, False), (8, False), (32, False), (8, False), (32, False), (57004, True)]"
  show "heap_ok 0xc0200000 (k_heap exit_sample)" using heap_ok_rep [of "0xc0200000" ?bs] by (simp add: exit_sample_def)
  have "allocated (rep_heap 0xc0200000 ?bs)
      = {(0xc020000c, 176), (0xc02000c8, 8192), (0xc02020d4, 8), (0xc02020e8, 32), (0xc0202114, 8), (0xc0202128, 32)}"
    by (simp add: allocated_rep fits_def) blast
  then show "fst ` allocated (k_heap exit_sample) = {0xc020000c, 0xc02000c8, 0xc02020d4, 0xc02020e8, 0xc0202114, 0xc0202128}"
    by (simp add: exit_sample_def)
qed

lemma exit_sample_implements: "implements sample_symbols exit_sample exit_rr"
  by (simp add: implements_def rr_ok_def sched_ring_def ring_def edges_def exit_sample_def sample_symbols_def rr_state_def)

lemma exit_sample_tables:
  "user_tables (kmem (k_paging exit_sample)) 0xc0110000 1024 \<subseteq> {0xc0130000}"
  "table_frames (kmem (k_paging exit_sample)) 0xc0130000 1024 \<subseteq> {0x400000}"
proof -
  have al: "page_aligned 0xc0110000" "page_aligned 0xc0130000" by (simp_all add: page_aligned_def)
  have z: "slot 0xc0110000 0 = 0xc0110000" "slot 0xc0130000 0 = 0xc0130000" by (simp_all add: slot_def)
  have d: "slot 0xc0110000 (of_nat i) \<noteq> 0xc0130000" "slot 0xc0130000 (of_nat i) \<noteq> 0xc0110000" if "i < 1024" for i
    using slot_eq_iff [OF al, of "of_nat i" 0] slot_eq_iff [OF al(2,1), of "of_nat i" 0] that z by simp_all
  show "user_tables (kmem (k_paging exit_sample)) 0xc0110000 1024 \<subseteq> {0xc0130000}"
    using d(1) by (auto simp: user_tables_def exit_sample_def user_entry_def get_pd_vma_def)
  show "table_frames (kmem (k_paging exit_sample)) 0xc0130000 1024 \<subseteq> {0x400000}"
    using d(2) by (auto simp: table_frames_def exit_sample_def page_of_def)
qed

lemma exit_sample_space: "space_owned sample_symbols 0xc0200000 exit_sample 0xc02020d4 [0xc02020e8] 0xc0110000"
proof -
  let ?k = exit_sample
  have F: "area_files (k_vmas ?k) [0xc02020e8] = {0xc0202114}" by (simp add: area_files_def exit_sample_def vma_at_def)
  have fo: "files_ok ?k {0xc0202114}" unfolding files_ok_def file_ok_def file_parts_def exit_sample_heap(2) by (simp add: exit_sample_def)
  have ts: "typed_stores ?k" by (simp add: typed_stores_def exit_sample_def)
  have mm: "\<exists>m. k_mms ?k 0xc02020d4 = Some m \<and> mm_pgd m = 0xc0110000 \<and> vma_chain (k_vmas ?k) (mm_mmap m) [0xc02020e8]"
    by (simp add: exit_sample_def vma_chain_def)
  have pools: "pd_ok sample_symbols (k_paging ?k)" "pt_ok sample_symbols (k_paging ?k)"
    by (simp_all add: pd_ok_def pt_ok_def sample_symbols_ok pool_ok_def exit_sample_def)
  have fr: "frames_ok (k_frames ?k)" using init_frames_ok(1) by (simp add: exit_sample_def frames_ok_def pool_ok_def nth_list_update)
  have pd: "0xc0110000 \<in> pd_used sample_symbols (k_paging ?k)"
    unfolding pd_used_def pool_used_def by (rule image_eqI [of _ _ 0]) (simp_all add: exit_sample_def sample_symbols_def pool_page_def)
  have "0xc0130000 \<in> pt_pages sample_symbols"
    unfolding pt_pages_def pool_pages_def by (rule image_eqI [of _ _ 0]) (simp_all add: sample_symbols_def pool_page_def)
  then have pt: "user_tables (kmem (k_paging ?k)) 0xc0110000 1024 \<subseteq> pt_pages sample_symbols" using exit_sample_tables(1) by blast
  have "(0x400000 :: u32) \<in> user_frames"
    unfolding user_frames_def pool_pages_def by (rule image_eqI [of _ _ 1024]) (simp_all add: pool_page_def)
  then have uf: "space_frames (kmem (k_paging ?k)) 0xc0110000 1024 \<subseteq> user_frames"
    unfolding space_frames_def using exit_sample_tables by blast
  have al: "insert 0xc02020d4 (set [0xc02020e8]) \<subseteq> fst ` allocated (k_heap ?k)" unfolding exit_sample_heap(2) by simp
  show ?thesis unfolding space_owned_def F
    by (intro conjI exit_sample_heap(1) ts mm fo al pools fr pd pt uf) simp_all
qed

section \<open>Properties\<close>

text \<open>
  Releasing an address space: for an address space in order, \<open>release_mm\<close> returns; the structure, every area of its list, every file that an
  area maps (once, also when several areas map it) and the inodes of these files go back to the heap, the directory, the tables of its user entries
  and the frames they map go back to their pools, the directory is left without user entries, and nothing else changes.
\<close>

theorem release_mm_correct:
  assumes "space_owned L base k mm xs pd"
  shows "\<exists>k'. release_mm L mm k = Ret () k' \<and> released L base (space_parts k mm xs) pd k k'"
  using assms by (rule release_mm_releases)

theorem release_mm_correct_witness:
  "\<exists>k. release_mm sample_symbols 0xc02020d4 exit_sample = Ret () k \<and> k_files k 0xc0202114 = None \<and> pd_used sample_symbols (k_paging k) \<subseteq> - {0xc0110000}"
proof -
  from release_mm_correct [OF exit_sample_space] obtain k k1 where k: "release_mm sample_symbols 0xc02020d4 exit_sample = Ret () k"
    "shrunk 0xc0200000 (space_parts exit_sample 0xc02020d4 [0xc02020e8]) exit_sample k1" "k = k1\<lparr>k_paging := k_paging k, k_frames := k_frames k\<rparr>"
    "pd_used sample_symbols (k_paging k) = pd_used sample_symbols (k_paging exit_sample) - {0xc0110000}" unfolding released_def by blast
  have "0xc0202114 \<in> space_parts exit_sample 0xc02020d4 [0xc02020e8]"
    by (simp add: space_parts_def files_parts_def area_files_def exit_sample_def vma_at_def file_parts_def)
  then have "k_files k 0xc0202114 = None" using shrunk_sel(4) [OF k(2)] by (subst k(3)) (simp add: without_def)
  then show ?thesis using k(1,4) by blast
qed

text \<open>
  C5. The end of a task: \<open>exit_task\<close> of the current task, which is not the idle task, switches to the task that a round robin scheduler without it
  would choose and leaves a zombie with its exit code and no address space; the next clock tick removes the zombie. Then the scheduler implements
  the round robin of the other tasks, and exactly what the task owned is gone: its structure, its kernel stack, its open files, its address space
  with areas and mapped files, its directory, tables and frames.
\<close>

theorem exit_task_correct:
  assumes "implements L k s" and "rr_current s = c" and "c \<noteq> sym_idle_task L" and "k_tasks k c = Some t"
    and "space_owned L base k (t_mm t) xs pd" and "length (t_file t) = 32" and "distinct (filter (\<lambda>f. f \<noteq> 0) (t_file t))"
    and "files_ok k (fd_files 32 t)" and "files_parts k (fd_files 32 t) \<inter> space_parts k (t_mm t) xs = {}"
    and "{t_kernel_stack_base t, c} \<subseteq> fst ` allocated (k_heap k)" and "t_kernel_stack_base t \<notin> objects k"
  shows "\<exists>k1 r k2. exit_task L code k = Ret Switched k1 \<and> current_task k1 = rr_current (rr_exit (sym_idle_task L) c s)
    \<and> map_option (\<lambda>z. (t_state z, t_exit_code z, t_mm z)) (k_tasks k1 c) = Some (TASK_ZOMBIE, code, 0)
    \<and> schedule L k1 = Ret r k2 \<and> implements L k2 (rr_tick (sym_idle_task L) (rr_exit (sym_idle_task L) c s))
    \<and> torn_down L base ({t_kernel_stack_base t, c} \<union> (files_parts k (fd_files 32 t) \<union> space_parts k (t_mm t) xs)) pd k k2"
proof -
  let ?i = "sym_idle_task L" and ?st = "t_kernel_stack_base t" and ?D = "files_parts k (fd_files 32 t) \<union> space_parts k (t_mm t) xs"
  note c = implements_current [OF assms(1), unfolded assms(2)]
  obtain it where it: "k_tasks k ?i = Some it" using implements_member(2) [OF assms(1) c(2)] by blast
  from exit_prepares [OF c(3) assms(4) it assms(5-9,3)] obtain ka ta where ka: "exit_task L code k = and_then (next_task L ka) (\<lambda>n k.
      and_then (context_switch L c n k) (\<lambda>r k. case r of Switched \<Rightarrow> Ret Switched k | Returned \<Rightarrow> spin_forever k))"
    "k_tasks ka = (k_tasks k)(c \<mapsto> ta)" "t_state ta = TASK_ZOMBIE" "t_exit_code ta = code" "t_mm ta = 0" "t_prev ta = t_prev t" "t_next ta = t_next t"
    "t_kernel_stack_base ta = ?st" "current_task ka = c" "task_ptr ka = task_ptr k" "dead_task ka = c" "torn_down L base ?D pd k ka" by blast
  let ?s = "rr_exit ?i c s"
  from zombie_switch [OF assms(1) c(3) assms(3,4) ka(2,3,6,7,9-11)] obtain k1 where k1: "next_task L ka = Ret (rr_current ?s) ka"
    "context_switch L c (rr_current ?s) ka = Ret Switched k1" "same_holdings ka k1" "sched_ring k1 (rr_members s)" "current_task k1 = rr_current ?s" "dead_task k1 = c"
    "rr_current ?s \<in> set (rr_members s)" "rr_current ?s \<noteq> c" "rr_ready s (rr_current ?s)" "state_of k1 c = TASK_ZOMBIE"
    "\<forall>x \<in> set (rr_members s). x \<noteq> c \<longrightarrow> state_of k1 x = rr_state ?s x" by blast
  have ex: "exit_task L code k = Ret Switched k1" using ka(1) k1(1,2) by simp
  have "map_option (\<lambda>t. (t_kernel_stack_base t, t_exit_code t, t_mm t)) (k_tasks k1 c) = Some (?st, code, 0)"
    using k1(3) ka(2,4,5,8) by (simp add: same_holdings_def)
  then obtain t1 where t1: "k_tasks k1 c = Some t1" "t_kernel_stack_base t1 = ?st" "t_exit_code t1 = code" "t_mm t1 = 0" by auto
  have td: "torn_down L base ?D pd k k1" by (rule torn_down_keeps [OF ka(12) k1(3)])
  have "?D \<inter> dom (k_tasks k) = {}" using files_apart(3) [of k "fd_files 32 t"] assms(5,8) space_apart [OF assms(5)]
    by (simp add: space_owned_def Int_Un_distrib2)
  then have "c \<notin> ?D" using assms(4) by blast
  moreover have "?st \<notin> ?D" using parts_objects(1) [OF assms(8)] parts_objects(2) [OF assms(5)] assms(11) by blast
  moreover have "?st \<notin> dom (k_tasks k1)" using td assms(11) by (auto simp: torn_down_def objects_def)
  ultimately obtain k2 where k2: "reap_dead_task (rr_current ?s) k1 = Ret () k2" "sched_ring k2 (remove1 c (rr_members s))" "current_task k2 = rr_current ?s"
    "dead_task k2 = 0" "\<forall>x \<in> set (rr_members s). x \<noteq> c \<longrightarrow> state_of k2 x = state_of k1 x" "torn_down L base ({?st, c} \<union> ?D) pd k k2"
    using reap_removes [OF k1(4,5,6,8) c(1) k1(7) t1(1,2) td assms(10)] by blast
  have rd: "distinct (rr_members s)" "rr_ready s ?i" using assms(1) by (simp_all add: implements_def rr_ok_def)
  have sel: "rr_members ?s = remove1 c (rr_members s)" "rr_ready ?s = (rr_ready s)(c := False)" by (simp_all add: rr_exit_def Let_def)
  have ms: "set (rr_members ?s) = set (rr_members s) - {c}" using rd(1) by (simp add: sel)
  have "rr_ok ?i ?s" unfolding rr_ok_def ms using rd c(2) assms(3) k1(7,8,9) by (simp add: sel)
  moreover have "\<forall>x \<in> set (rr_members ?s). state_of k2 x = rr_state ?s x" unfolding ms using k2(5) k1(11) by simp
  ultimately have im: "implements L k2 ?s" unfolding implements_def using k2(2,3,4) by (simp add: sel)
  have "rr_current ?s \<noteq> 0" using implements_member(1) [OF assms(1) k1(7)] .
  then have "schedule L k1 = schedule L k2"
    using k1(5) k2(1,3,4) by (simp add: schedule_def Let_def get_current_task_def reap_dead_task_def [of _ k2])
  with schedule_sim [OF im] obtain r k3 where k3: "schedule L k1 = Ret r k3" "schedule L k2 = Ret r k3" "implements L k3 (rr_tick ?i ?s)" by auto
  have "torn_down L base ({?st, c} \<union> ?D) pd k k3" by (rule torn_down_keeps [OF k2(6) schedule_keeps [OF k3(2) k2(4)]])
  then show ?thesis using ex k1(5) t1 k1(10) k3(1,3) by (intro exI [of _ k1] exI [of _ r] exI [of _ k3]) simp
qed

theorem exit_task_correct_witness:
  "\<exists>k1 r k2. exit_task sample_symbols 7 exit_sample = Ret Switched k1 \<and> current_task k1 = 0xc0180000 \<and> schedule sample_symbols k1 = Ret r k2
     \<and> dom (k_tasks k2) = {0xc0180000} \<and> allocated (k_heap k2) = {}"
proof -
  let ?k = exit_sample and ?D = "space_parts exit_sample 0xc02020d4 [0xc02020e8]"
  let ?t = "zero_task\<lparr>t_prev := 0xc0180000, t_next := 0xc0180000, t_state := TASK_RUNNING, t_pid := 1, t_mm := 0xc02020d4, t_kernel_stack_base := 0xc02000c8\<rparr>"
  have t: "k_tasks ?k 0xc020000c = Some ?t" "0xc020000c \<noteq> sym_idle_task sample_symbols" by (simp_all add: exit_sample_def sample_symbols_def)
  have fd: "fd_files 32 ?t = {}" "length (t_file ?t) = 32" "filter (\<lambda>f. f \<noteq> 0) (t_file ?t) = []" by (auto simp: fd_files_def zero_task_def)
  have fo: "files_ok ?k {}" "files_parts ?k {} = {}" by (simp_all add: files_ok_def files_parts_def)
  have obj: "0xc02000c8 \<notin> objects ?k" by (simp add: objects_def exit_sample_def)
  have nx: "rr_current (rr_exit (sym_idle_task sample_symbols) 0xc020000c exit_rr) = 0xc0180000"
    by (simp add: rr_exit_def rr_next_def circle_def Let_def sample_symbols_def)
  have D: "?D = {0xc02020d4, 0xc02020e8, 0xc0202114, 0xc0202128}"
    by (auto simp: space_parts_def files_parts_def area_files_def exit_sample_def vma_at_def file_parts_def)
  from exit_task_correct [OF exit_sample_implements _ t(2,1), of "0xc0200000" "[0xc02020e8]" "0xc0110000" 7] exit_sample_space fd fo obj exit_sample_heap(2) nx
  obtain k1 r k2 where k: "exit_task sample_symbols 7 ?k = Ret Switched k1" "current_task k1 = 0xc0180000" "schedule sample_symbols k1 = Ret r k2"
    "torn_down sample_symbols 0xc0200000 ({0xc02000c8, 0xc020000c} \<union> ?D) 0xc0110000 ?k k2" by auto
  have "dom (k_tasks ?k) = {0xc0180000, 0xc020000c}" by (auto simp: exit_sample_def)
  then have "dom (k_tasks k2) = {0xc0180000}" using k(4) unfolding torn_down_def D by auto
  moreover have "allocated (k_heap k2) = {r \<in> allocated (k_heap ?k). fst r \<notin> {0xc02000c8, 0xc020000c} \<union> ?D}" using k(4) by (simp add: torn_down_def)
  moreover have "fst r \<in> {0xc02000c8, 0xc020000c} \<union> ?D" if "r \<in> allocated (k_heap ?k)" for r
  proof -
    have "fst r \<in> fst ` allocated (k_heap ?k)" using that by (rule imageI)
    then show ?thesis unfolding exit_sample_heap(2) D by blast
  qed
  ultimately show ?thesis using k(1-3) by blast
qed

end
