(* ===== verification/Image.thy ===== *)
theory Image
  imports Syscall Teardown
begin

text \<open>
  The image of a new program: loading an executable, as \<open>load_image\<close> of \<^verbatim>\<open>kernel/syscall.c\<close> and \<^verbatim>\<open>kernel/elf.c\<close> do it, into an address space that
  is built beside what is there. The loader succeeds when there is room for the areas and the segments are apart.
\<close>

section \<open>Building beside what is there\<close>

lemma vma_seg_unique: "vma_seg V p a xs q 0 \<Longrightarrow> vma_seg V p a ys r 0 \<Longrightarrow> xs = ys"
proof (induction xs arbitrary: p a ys)
  case Nil
  then show ?case by (cases ys) auto
next
  case (Cons x xs)
  then show ?case by (cases ys) auto
qed

lemma mm_areas_unique: "mm_areas k mm xs \<Longrightarrow> mm_areas k mm ys \<Longrightarrow> xs = ys"
  by (auto simp: mm_areas_def vma_chain_def dest: vma_seg_unique)

text \<open>
  \<open>new_image L base k0 ef mm pd N S k xs\<close>: since \<open>k0\<close> the heap has handed out the regions \<open>S\<close>, those of the objects \<open>N\<close> and of the areas \<open>xs\<close> of the
  address space \<open>mm\<close> with the directory \<open>pd\<close>, which map the file \<open>ef\<close> or none. It is one of them and the current task runs in it.
\<close>

definition new_image :: "symbols \<Rightarrow> u32 \<Rightarrow> kernel \<Rightarrow> u32 \<Rightarrow> u32 \<Rightarrow> u32 \<Rightarrow> u32 set \<Rightarrow> (u32 \<times> u32) set \<Rightarrow> kernel \<Rightarrow> u32 list \<Rightarrow> bool" where
  "new_image L base k0 ef mm pd N S k xs \<longleftrightarrow> objects_ok L base k0 \<and> grown L base S k0 k \<and> typed_stores k
     \<and> (\<exists>t. k_tasks k (current_task k) = Some t \<and> t_mm t = mm) \<and> mm_areas k mm xs \<and> mm \<in> N \<and> fst ` S = N \<union> set xs
     \<and> map_option mm_pgd (k_mms k mm) = Some pd \<and> get_cr3 (k_machine k) = get_pd_lma pd
     \<and> (\<forall>x \<in> set xs. vm_file (vma_at (k_vmas k) x) \<in> {0, ef})"

lemma image_loadable: "new_image L base k0 ef mm pd N S k xs \<Longrightarrow> loadable L base k xs"
  by (auto simp: new_image_def loadable_def dest: grown_objects_ok)

lemma typed_stores_vma:
  assumes "typed_stores k" and "r \<notin> objects k" and "dom (k_vmas k') = insert r (dom (k_vmas k))" and "dom (k_mms k') = dom (k_mms k)"
    and "k_tasks k' = k_tasks k" "k_files k' = k_files k" "k_inodes k' = k_inodes k"
  shows "typed_stores k'"
  using assms(1,2) unfolding typed_stores_def assms(3-7) objects_def by simp

section \<open>Room on the heap\<close>

text \<open>A free block of at least \<open>n\<close> bytes.\<close>

definition has_room :: "heap \<Rightarrow> nat \<Rightarrow> bool" where
  "has_room h n \<longleftrightarrow> (\<exists>q b. headers h q = Some b \<and> hb_is_free b \<noteq> 0 \<and> n \<le> unat (hb_size b))"

lemma has_room_mono: "has_room h n \<Longrightarrow> n' \<le> n \<Longrightarrow> has_room h n'"
  by (auto simp: has_room_def intro: order_trans)

lemma has_room_rep:
  assumes "fits a bs"
  shows "has_room (rep_heap a bs) n \<longleftrightarrow> (\<exists>m. (m, True) \<in> set bs \<and> n \<le> m)"
proof
  assume "has_room (rep_heap a bs) n"
  then obtain q b where q: "lay_out a bs q = Some b" "hb_is_free b \<noteq> 0" "n \<le> unat (hb_size b)" by (auto simp: has_room_def rep_heap_def)
  then obtain pre m f post where b: "bs = pre @ (m, f) # post" "b = header m f (next_ptr (a + span pre + 12 + m) post)"
    using lay_out_Some [of a bs q b] by auto
  have "m < 4294967296" using assms b(1) by (simp add: fits_def)
  then show "\<exists>m. (m, True) \<in> set bs \<and> n \<le> m" using q(2,3) b by (intro exI [of _ m]) (auto simp: header_def split: if_splits)
next
  assume "\<exists>m. (m, True) \<in> set bs \<and> n \<le> m"
  then obtain m pre post where m: "bs = pre @ (m, True) # post" "n \<le> m" by (auto simp: in_set_conv_decomp)
  have "m < 4294967296" using assms m(1) by (simp add: fits_def)
  then show "has_room (rep_heap a bs) n" unfolding has_room_def rep_heap_def
    using lay_out_at [OF assms [unfolded m(1)]] m by (intro exI) (auto simp: header_def)
qed

lemma first_fit_room:
  "(m, True) \<in> set bs \<Longrightarrow> s + 20 + n \<le> m \<Longrightarrow> \<exists>off bs' m'. first_fit s bs = Some (off, bs') \<and> (m', True) \<in> set bs' \<and> n \<le> m'"
proof (induction s bs rule: first_fit.induct)
  case (2 s k f bs)
  show ?case
  proof (cases "f \<and> s \<le> k")
    case True
    then show ?thesis using 2(2,3) by (cases "(k, f) = (m, True)") auto
  next
    case False
    then have "(m, True) \<in> set bs" using 2(2,3) by auto
    with 2(1) [OF False] 2(3) show ?thesis using False by fastforce
  qed
qed simp

lemma new_room:
  assumes "heap_ok base (k_heap k)" and "has_room (k_heap k) (unat (heap_align_up sz) + 20 + n)" and "new sz k = Ret p k'"
  shows "p \<noteq> 0" "has_room (k_heap k') n"
proof -
  from assms(1) obtain bs where bs: "k_heap k = rep_heap (unat base) bs" "bs \<noteq> []" "span bs = 65536" "fits (unat base) bs" by (rule heap_ok_cases)
  obtain off bs' m' where f: "first_fit (unat (heap_align_up sz)) bs = Some (off, bs')" "(m', True) \<in> set bs'" "n \<le> m'"
    using assms(2) first_fit_room [of _ bs "unat (heap_align_up sz)" n] unfolding bs(1) has_room_rep [OF bs(4)] by blast
  have "new sz k = Ret (of_nat (unat base + off)) (k\<lparr>k_heap := rep_heap (unat base) bs'\<rparr>)"
    using kmalloc_rep [OF bs(4), of sz] bs(1,3) f(1) by (simp add: new_def)
  then have p: "p = of_nat (unat base + off)" "k' = k\<lparr>k_heap := rep_heap (unat base) bs'\<rparr>" using assms(3) by simp_all
  have "fits (unat base) bs'" using first_fit_live(1) [OF f(1)] bs(4) by (simp add: fits_def)
  then show "has_room (k_heap k') n" using f(2,3) by (auto simp: p(2) has_room_rep)
  obtain m where "unat base + off + m \<le> unat base + span bs" using first_fit_live(2) [OF f(1), of "unat base"] by blast
  then have "unat base + off < 4294967296" "0 < unat base + off" using bs(4) by (auto simp: fits_def)
  then show "p \<noteq> 0" unfolding p(1) by (simp add: of_nat_u32_eq_0_iff del: of_nat_add)
qed

section \<open>Areas of the new image\<close>

definition area_span :: "kernel \<Rightarrow> u32 \<Rightarrow> u32 \<times> u32" where
  "area_span k x = (vm_start (vma_at (k_vmas k) x), vm_end (vma_at (k_vmas k) x))"

definition spans_apart :: "u32 \<times> u32 \<Rightarrow> u32 \<times> u32 \<Rightarrow> bool" where
  "spans_apart r s \<longleftrightarrow> snd r \<le> fst s \<or> snd s \<le> fst r"

lemma no_clash: "(\<And>x. x \<in> set xs \<Longrightarrow> spans_apart (s, e) (area_span k x)) \<Longrightarrow> \<not> clash k xs s e"
  by (auto simp: clash_def list_ex_iff spans_apart_def area_span_def not_le [symmetric])

lemma do_mmap_heap:
  "do_mmap addr len f offset k = Ret r k' \<Longrightarrow> r \<noteq> 0 \<Longrightarrow> \<exists>k1. new SIZEOF_VM_AREA_T k = Ret r k1 \<and> k_heap k' = k_heap k1"
  by (auto simp: do_mmap_def access_defs put_defs Let_def split_def new_def dispose_def overlaps_def link_vma_def and_then_Ret_iff
      split: option.splits if_splits)

text \<open>Building an area changes the heap, the areas and the address spaces; all else is left alone.\<close>

definition same_rest :: "kernel \<Rightarrow> kernel \<Rightarrow> bool" where
  "same_rest k k' \<longleftrightarrow> k'\<lparr>k_heap := k_heap k, k_vmas := k_vmas k, k_mms := k_mms k\<rparr> = k"

lemma same_rest_refl [simp]: "same_rest k k"
  by (simp add: same_rest_def)

lemma same_rest_trans: "same_rest k k' \<Longrightarrow> same_rest k' k'' \<Longrightarrow> same_rest k k''"
proof -
  assume 1: "same_rest k k'" and 2: "same_rest k' k''"
  have "k''\<lparr>k_heap := k_heap k, k_vmas := k_vmas k, k_mms := k_mms k\<rparr>
      = (k''\<lparr>k_heap := k_heap k', k_vmas := k_vmas k', k_mms := k_mms k'\<rparr>)\<lparr>k_heap := k_heap k, k_vmas := k_vmas k, k_mms := k_mms k\<rparr>" by simp
  then show ?thesis using 1 unfolding 2 [unfolded same_rest_def] same_rest_def by simp
qed

lemma same_rest_sel:
  assumes "same_rest k k'"
  shows "k_files k' = k_files k" "k_inodes k' = k_inodes k" "k_tasks k' = k_tasks k" "current_task k' = current_task k" "k_disk k' = k_disk k"
    "k_machine k' = k_machine k" "k_interrupts k' = k_interrupts k" "k_phys k' = k_phys k" "k_paging k' = k_paging k" "k_frames k' = k_frames k"
  using assms by (cases k; cases k'; simp add: same_rest_def)+

lemma same_rest_devices: "same_rest k k' \<Longrightarrow> same_rest (k\<lparr>k_disk := d, k_machine := m\<rparr>) (k'\<lparr>k_disk := d, k_machine := m\<rparr>)"
  by (cases k; cases k'; simp add: same_rest_def)

lemma image_mmap:
  assumes "new_image L base k0 ef mm pd N S k xs" and "unat addr + unat len + 4095 < 4294967296" and "0 < len"
    and "f \<noteq> 0 \<Longrightarrow> addr - align_down addr \<le> offset" and "has_room (k_heap k) (52 + n)"
    and "\<And>x. x \<in> set xs \<Longrightarrow> spans_apart (align_down addr, align_up (addr + len)) (area_span k x)" and "f \<in> {0, ef}"
  shows "\<exists>r k' S' xs'. do_mmap addr len f offset k = Ret r k' \<and> r \<noteq> 0 \<and> new_image L base k0 ef mm pd N S' k' xs' \<and> same_rest k k' \<and> has_room (k_heap k') n
    \<and> area_span k' ` set xs' = insert (align_down addr, align_up (addr + len)) (area_span k ` set xs)"
proof -
  obtain t where i: "objects_ok L base k0" "grown L base S k0 k" "typed_stores k" "k_tasks k (current_task k) = Some t" "t_mm t = mm"
    "mm_areas k mm xs" "mm \<in> N" "fst ` S = N \<union> set xs"
    "map_option mm_pgd (k_mms k mm) = Some pd" "get_cr3 (k_machine k) = get_pd_lma pd"
    "\<forall>x \<in> set xs. vm_file (vma_at (k_vmas k) x) \<in> {0, ef}" using assms(1) unfolding new_image_def by blast
  have ok: "objects_ok L base k" by (rule grown_objects_ok [OF i(1,2)])
  note dc = do_mmap_cases [OF ok i(4) _ assms(2,3), of xs f offset, unfolded i(5), OF i(6)]
  obtain r k' where r: "do_mmap addr len f offset k = Ret r k'" using dc by blast
  note cur = do_mmap_current [OF r]
  have sz: "unat (heap_align_up SIZEOF_VM_AREA_T) = 32" by (simp add: heap_align_up_def)
  have nz: "\<exists>p k1. new SIZEOF_VM_AREA_T k = Ret p k1" using kheap.alloc_returns [OF objects_okD [OF ok], of SIZEOF_VM_AREA_T] by (auto simp: new_def)
  then obtain p k1 where p: "new SIZEOF_VM_AREA_T k = Ret p k1" "p \<noteq> 0" "has_room (k_heap k1) n"
    using new_room [OF objects_okD [OF ok], of SIZEOF_VM_AREA_T n] assms(5) unfolding sz by auto
  have r0: "r \<noteq> 0"
  proof
    assume "r = 0"
    then have "f \<noteq> 0 \<and> offset < addr - align_down addr \<or> clash k xs (align_down addr) (align_up (addr + len)) \<or> new SIZEOF_VM_AREA_T k = Ret 0 k"
      using dc r by auto
    then show False using assms(4) no_clash [OF assms(6)] p by auto
  qed
  have room: "has_room (k_heap k') n" using do_mmap_heap [OF r r0] p by auto
  obtain as bs v m where a: "xs = as @ bs" "area_added k k' mm as bs r v" "r \<notin> objects k" "heap_ok base (k_heap k')"
    "allocated (k_heap k') = insert (r, m) (allocated (k_heap k))" "r \<notin> fst ` allocated (k_heap k)"
    "vm_start v = align_down addr" "vm_end v = align_up (addr + len)" "vm_file v = f" using dc r r0 by auto
  have ad: "mm_areas k' mm (as @ r # bs)" "dom (k_vmas k') = insert r (dom (k_vmas k))" "\<And>x. x \<noteq> mm \<Longrightarrow> k_mms k' x = k_mms k x"
      "\<And>x. map_option mm_pgd (k_mms k' x) = map_option mm_pgd (k_mms k x)" "\<And>x. x \<notin> insert r (set xs) \<Longrightarrow> k_vmas k' x = k_vmas k x"
      "same_area v (vma_at (k_vmas k') r)" "\<And>x. x \<noteq> r \<Longrightarrow> same_area (vma_at (k_vmas k) x) (vma_at (k_vmas k') x)"
    and eq: "k' = k\<lparr>k_heap := k_heap k', k_vmas := k_vmas k', k_mms := k_mms k'\<rparr>"
    using a(2) unfolding area_added_def a(1) by blast+
  have st: "k_tasks k' = k_tasks k" "k_files k' = k_files k" "k_inodes k' = k_inodes k" "k_paging k' = k_paging k" "k_frames k' = k_frames k"
      "k_machine k' = k_machine k" by (subst eq, simp)+
  have dm: "dom (k_mms k') = dom (k_mms k)"
  proof (rule set_eqI)
    fix x show "x \<in> dom (k_mms k') \<longleftrightarrow> x \<in> dom (k_mms k)" using ad(4) [of x] by (cases "k_mms k x"; cases "k_mms k' x") auto
  qed
  have "in_heap base (r, m)" using region_in_heap [OF a(4)] a(5) by blast
  then have fresh: "r \<noteq> 0" "r \<noteq> sym_idle_task L" using r0 ok by (auto simp: objects_ok_def in_heap_def)
  have rs: "r \<notin> fst ` S" "r \<notin> fst ` allocated (k_heap k0)" using a(6) i(2) by (auto simp: grown_def)
  have ro: "r \<notin> objects k0" using a(3) rs(1) i(2) by (auto simp: grown_def objects_def domIff)
  have ms: "mm \<in> fst ` S" "set xs \<subseteq> fst ` S" using i(7,8) by auto
  have out: "k_mms k' x = k_mms k x" "k_vmas k' x = k_vmas k x" if "x \<notin> fst ` insert (r, m) S" for x
    using that ms ad(3) [of x] ad(5) [of x] by auto
  have "grown L base (insert (r, m) S) k0 k'"
    using i(2) a(4,5) rs ro fresh out unfolding grown_def st by (auto simp: inj_on_insert)
  moreover have "typed_stores k'" by (rule typed_stores_vma [OF i(3) a(3) ad(2) dm st(1-3)])
  moreover have "fst ` insert (r, m) S = N \<union> set (as @ r # bs)" using i(8) a(1) by auto
  moreover have rx: "r \<notin> set xs" using rs(1) ms(2) by blast
  have "vm_file (vma_at (k_vmas k') x) \<in> {0, ef}" if x: "x \<in> set (as @ r # bs)" for x
  proof (cases "x = r")
    case True
    then show ?thesis using ad(6) a(9) assms(7) by (simp add: same_area_def)
  next
    case False
    then have "x \<in> set xs" using x a(1) by auto
    then show ?thesis using ad(7) [OF False] i(11) [rule_format, of x] by (simp add: same_area_def)
  qed
  ultimately have im: "new_image L base k0 ef mm pd N (insert (r, m) S) k' (as @ r # bs)"
    using i(1,4,5,7,9,10) st(1,6) cur ad(1,4) by (simp add: new_image_def)
  have "area_span k' x = area_span k x" if "x \<in> set xs" for x
  proof -
    have "x \<noteq> r" using that rx by metis
    from ad(7) [OF this] show ?thesis by (simp add: area_span_def same_area_def)
  qed
  moreover have "area_span k' r = (align_down addr, align_up (addr + len))" using ad(6) a(7,8) by (simp add: area_span_def same_area_def)
  ultimately have "area_span k' ` set (as @ r # bs) = insert (align_down addr, align_up (addr + len)) (area_span k ` set xs)" by (force simp: a(1))
  moreover have "same_rest k k'" unfolding same_rest_def by (subst eq) simp
  ultimately show ?thesis using r r0 im room by blast
qed

section \<open>Segments whose zeros start on a page\<close>

text \<open>
  The pages of a loadable segment, those that the file provides and those of the zeros behind them. In a \<^emph>\<open>plain\<close> segment the two
  share no page, so that \<open>padzero\<close> has nothing to clear.
\<close>

definition segment_spans :: "elf32_phdr_t \<Rightarrow> (u32 \<times> u32) list" where
  "segment_spans ph =
     (let v = p_vaddr ph; z = align_up (v + p_filesz ph); e = v + p_memsz ph in
      if p_type ph \<noteq> ELF32_PT_LOAD \<or> p_memsz ph = 0 then []
      else if p_filesz ph = 0 then [(align_down v, align_up e)]
      else (align_down v, z) # (if z < e then [(z, align_up e)] else []))"

definition plain_segment :: "elf32_phdr_t \<Rightarrow> bool" where
  "plain_segment ph \<longleftrightarrow> segment_fits ph \<and> (p_type ph = ELF32_PT_LOAD \<longrightarrow> p_filesz ph \<le> p_memsz ph
     \<and> (p_filesz ph \<noteq> 0 \<longrightarrow> p_vaddr ph - align_down (p_vaddr ph) \<le> p_offset ph)
     \<and> (p_filesz ph \<noteq> 0 \<longrightarrow> p_filesz ph \<noteq> p_memsz ph \<longrightarrow> page_aligned (p_vaddr ph + p_filesz ph)))"

lemma spans_apart_sym: "spans_apart r s \<longleftrightarrow> spans_apart s r"
  by (auto simp: spans_apart_def)

lemma align_id: "page_aligned a \<Longrightarrow> align_down a = a" "page_aligned a \<Longrightarrow> unat a + 4095 < 4294967296 \<Longrightarrow> align_up a = a"
proof -
  show d: "page_aligned a \<Longrightarrow> align_down a = a" by (simp add: align_down_page page_of_aligned)
  assume "page_aligned a" "unat a + 4095 < 4294967296"
  then obtain q where "unat (align_up a) = (unat a + 4095) div 4096 * 4096" "unat a = q * 4096"
    using unat_align_up [of a] unat_align_down [of a] d by metis
  then have "unat (align_up a) = unat a" by simp
  then show "align_up a = a" by (simp add: word_unat_eq_iff)
qed

lemma padzero_nothing:
  assumes "new_image L base k0 ef mm pd N S k xs" and "align_up a = a"
  shows "padzero E L a k = Ret 1 k"
proof -
  obtain t m where "k_tasks k (current_task k) = Some t" "t_mm t = mm" "k_mms k mm = Some m" "get_cr3 (k_machine k) = get_pd_lma (mm_pgd m)"
    using assms(1) by (auto simp: new_image_def)
  then show ?thesis using assms(2) by (simp add: padzero_def get_current_task_def access_defs memset_user_def)
qed

lemma image_anonymous:
  assumes "new_image L base k0 ef mm pd N S k xs" and "unat addr + unat len + 4095 < 4294967296" and "0 < len" and "has_room (k_heap k) (52 + n)"
    and "\<And>x. x \<in> set xs \<Longrightarrow> spans_apart (align_down addr, align_up (addr + len)) (area_span k x)"
  shows "\<exists>k' S' xs'. anonymous addr len k = Ret 1 k' \<and> new_image L base k0 ef mm pd N S' k' xs' \<and> same_rest k k' \<and> has_room (k_heap k') n
    \<and> area_span k' ` set xs' = insert (align_down addr, align_up (addr + len)) (area_span k ` set xs)"
  using image_mmap [OF assms(1-3) _ assms(4), of 0 0, OF _ assms(5)] by (fastforce simp: anonymous_def vm_brk_flags_def)

lemma image_segment:
  assumes "new_image L base k0 f mm pd N S k xs" and "plain_segment ph" and "f \<noteq> 0" and "has_room (k_heap k) (52 * length (segment_spans ph) + n)"
    and "\<And>x s. x \<in> set xs \<Longrightarrow> s \<in> set (segment_spans ph) \<Longrightarrow> spans_apart s (area_span k x)" and "sorted_wrt spans_apart (segment_spans ph)"
  shows "\<exists>k' S' xs'. load_segment E L f ph k = Ret 1 k' \<and> new_image L base k0 f mm pd N S' k' xs' \<and> same_rest k k' \<and> has_room (k_heap k') n
    \<and> area_span k' ` set xs' = set (segment_spans ph) \<union> area_span k ` set xs"
proof -
  let ?v = "p_vaddr ph" and ?Z = "align_up (p_vaddr ph + p_filesz ph)" and ?T = "p_vaddr ph + p_memsz ph"
  consider (none) "p_type ph \<noteq> ELF32_PT_LOAD \<or> p_memsz ph = 0" | (zeros) "p_type ph = ELF32_PT_LOAD" "p_memsz ph \<noteq> 0" "p_filesz ph = 0"
    | (mapped) "p_type ph = ELF32_PT_LOAD" "p_memsz ph \<noteq> 0" "p_filesz ph \<noteq> 0" by blast
  then show ?thesis
  proof cases
    case none
    then have "segment_spans ph = []" "load_segment E L f ph k = Ret 1 k"
      using assms(2) by (auto simp: segment_spans_def Let_def load_segment_def plain_segment_def)
    then show ?thesis using assms(1,4) by (intro exI [of _ k] exI [of _ S] exI [of _ xs]) simp
  next
    case zeros
    have fit: "unat ?v + unat (p_memsz ph) + 4095 < 4294967296" using assms(2) by (simp add: plain_segment_def segment_fits_def)
    have sp: "segment_spans ph = [(align_down ?v, align_up ?T)]" using zeros by (simp add: segment_spans_def Let_def)
    have "load_segment E L f ph k = anonymous ?v (p_memsz ph) k" using zeros by (simp add: load_segment_def)
    then show ?thesis using image_anonymous [OF assms(1) fit, of n] zeros(2) assms(4,5) by (simp add: sp word_neq_0_conv)
  next
    case mapped
    have le: "p_filesz ph \<le> p_memsz ph" "unat (p_filesz ph) \<le> unat (p_memsz ph)" and fit: "segment_fits ph" "unat ?v + unat (p_memsz ph) + 4095 < 4294967296"
      and off: "?v - align_down ?v \<le> p_offset ph" and pl: "p_filesz ph \<noteq> p_memsz ph \<Longrightarrow> page_aligned (?v + p_filesz ph)"
      using assms(2) mapped by (auto simp: plain_segment_def segment_fits_def word_le_nat_alt)
    note en = segment_end [OF fit(1) le(1)]
    have sp: "segment_spans ph = (align_down ?v, ?Z) # (if ?Z < ?T then [(?Z, align_up ?T)] else [])" using mapped by (simp add: segment_spans_def Let_def)
    define n1 where "n1 = (if ?Z < ?T then 52 + n else n)"
    have "unat ?v + unat (p_filesz ph) + 4095 < 4294967296" "0 < p_filesz ph" "has_room (k_heap k) (52 + n1)"
      using fit le(2) mapped(3) assms(4) by (auto simp: word_neq_0_conv sp n1_def split: if_splits)
    from image_mmap [OF assms(1) this(1,2) off this(3), of f] assms(5) obtain r k1 S1 xs1 where
      r: "do_mmap ?v (p_filesz ph) f (p_offset ph) k = Ret r k1" "r \<noteq> 0" "new_image L base k0 f mm pd N S1 k1 xs1" "same_rest k k1" "has_room (k_heap k1) n1"
        "area_span k1 ` set xs1 = insert (align_down ?v, ?Z) (area_span k ` set xs)" by (auto simp: sp)
    have pz: "(if p_memsz ph > p_filesz ph then padzero E L (?v + p_filesz ph) k1 else Ret 1 k1) = Ret 1 k1"
    proof (cases "p_memsz ph > p_filesz ph")
      case True
      then have "align_up (?v + p_filesz ph) = ?v + p_filesz ph" using pl en fit le(2) by (intro align_id(2)) auto
      then show ?thesis using padzero_nothing [OF r(3)] True by simp
    qed simp
    have seg: "load_segment E L f ph k = (if ?Z < ?T then anonymous ?Z (?T - ?Z) k1 else Ret 1 k1)"
      using mapped leD [OF le(1)] r(1,2) pz by (simp add: load_segment_def Let_def)
    show ?thesis
    proof (cases "?Z < ?T")
      case False
      then show ?thesis using seg r sp by (auto simp: n1_def)
    next
      case True
      have "unat ?Z + unat (?T - ?Z) + 4095 < 4294967296" "0 < ?T - ?Z"
        using True en fit(2) by (simp_all add: unat_sub_u32_le word_less_nat_alt word_le_nat_alt word_neq_0_conv [symmetric])
      moreover have "align_down ?Z = ?Z" by (simp add: align_id(1))
      moreover have "spans_apart (?Z, align_up ?T) (area_span k1 x)" if x1: "x \<in> set xs1" for x
      proof -
        consider "area_span k1 x = (align_down ?v, ?Z)" | y where "y \<in> set xs" "area_span k1 x = area_span k y" using r(6) x1 by auto
        then show ?thesis
        proof cases
          case 2
          then show ?thesis using assms(5) [of y "(?Z, align_up ?T)"] True by (simp add: sp)
        qed (simp add: spans_apart_def)
      qed
      ultimately obtain k2 S2 xs2 where "anonymous ?Z (?T - ?Z) k1 = Ret 1 k2" "new_image L base k0 f mm pd N S2 k2 xs2" "same_rest k1 k2"
          "has_room (k_heap k2) n" "area_span k2 ` set xs2 = insert (?Z, align_up ?T) (area_span k1 ` set xs1)"
        using image_anonymous [OF r(3), of ?Z "?T - ?Z" n] r(5) True by (auto simp: n1_def)
      then show ?thesis using seg True sp r(6) same_rest_trans [OF r(4)] by (intro exI [of _ k2] exI [of _ S2] exI [of _ xs2]) auto
    qed
  qed
qed

lemma image_segments:
  assumes "new_image L base k0 f mm pd N S k xs" and "list_all plain_segment phs" and "f \<noteq> 0"
    and "has_room (k_heap k) (52 * length (concat (map segment_spans phs)) + n)"
    and "\<And>x s. x \<in> set xs \<Longrightarrow> s \<in> set (concat (map segment_spans phs)) \<Longrightarrow> spans_apart s (area_span k x)"
    and "sorted_wrt spans_apart (concat (map segment_spans phs))"
  shows "\<exists>k' S' xs'. load_segments E L f phs k = Ret 1 k' \<and> new_image L base k0 f mm pd N S' k' xs' \<and> same_rest k k' \<and> has_room (k_heap k') n
    \<and> area_span k' ` set xs' = set (concat (map segment_spans phs)) \<union> area_span k ` set xs"
  using assms
proof (induction phs arbitrary: k S xs)
  case Nil
  then show ?case by (intro exI [of _ k] exI [of _ S] exI [of _ xs]) simp
next
  case (Cons ph phs)
  let ?rest = "concat (map segment_spans phs)"
  have so: "sorted_wrt spans_apart (segment_spans ph)" "sorted_wrt spans_apart ?rest"
    and ap: "\<And>s s'. s \<in> set (segment_spans ph) \<Longrightarrow> s' \<in> set ?rest \<Longrightarrow> spans_apart s s'"
    using Cons.prems(6) by (auto simp: sorted_wrt_append)
  have "has_room (k_heap k) (52 * length (segment_spans ph) + (52 * length ?rest + n))" using Cons.prems(4) by (simp add: algebra_simps)
  from image_segment [OF Cons.prems(1) _ Cons.prems(3) this _ so(1), of E] Cons.prems(2,5) obtain k1 S1 xs1 where
    1: "load_segment E L f ph k = Ret 1 k1" "new_image L base k0 f mm pd N S1 k1 xs1" "same_rest k k1" "has_room (k_heap k1) (52 * length ?rest + n)"
      "area_span k1 ` set xs1 = set (segment_spans ph) \<union> area_span k ` set xs" by auto
  have "spans_apart s (area_span k1 x)" if "x \<in> set xs1" "s \<in> set ?rest" for x s
  proof -
    have "area_span k1 x \<in> set (segment_spans ph) \<union> area_span k ` set xs" using that(1) 1(5) by blast
    then consider "area_span k1 x \<in> set (segment_spans ph)" | y where "y \<in> set xs" "area_span k1 x = area_span k y" by blast
    then show ?thesis
    proof cases
      case 1
      then show ?thesis using ap [OF _ that(2)] spans_apart_sym by metis
    next
      case 2
      then show ?thesis using Cons.prems(5) [of y s] that(2) by simp
    qed
  qed
  from Cons.IH [OF 1(2) _ Cons.prems(3) 1(4) this so(2)] Cons.prems(2) obtain k2 S2 xs2 where
    2: "load_segments E L f phs k1 = Ret 1 k2" "new_image L base k0 f mm pd N S2 k2 xs2" "same_rest k1 k2" "has_room (k_heap k2) n"
      "area_span k2 ` set xs2 = set ?rest \<union> area_span k1 ` set xs1" by auto
  then show ?case using 1(1,5) same_rest_trans [OF 1(3) 2(3)] by (intro exI [of _ k2] exI [of _ S2] exI [of _ xs2]) auto
qed

section \<open>The new image is loaded\<close>

lemma image_areas: "new_image L base k0 ef mm pd N S k xs \<Longrightarrow> loadable L base k ys \<Longrightarrow> ys = xs"
  by (auto simp: new_image_def loadable_def dest: mm_areas_unique)

lemma image_devices:
  assumes "new_image L base k0 ef mm pd N S k xs" and "quiet m = quiet (k_machine k)"
  shows "new_image L base (k0\<lparr>k_disk := d, k_machine := m\<rparr>) ef mm pd N S (k\<lparr>k_disk := d, k_machine := m\<rparr>) xs"
proof -
  have "cr3 m = cr3 (k_machine k)" using arg_cong [OF assms(2), of cr3] by (simp add: quiet_def)
  then show ?thesis using assms(1) grown_devices
    by (simp add: new_image_def get_cr3_def objects_ok_def objects_def typed_stores_def mm_areas_def)
qed

abbreviation stack_span :: "u32 \<times> u32" where
  "stack_span \<equiv> (USER_STACK_BASE, USER_STACK_TOP)"

lemma image_stack:
  assumes "new_image L base k0 ef mm pd N S k []" and "has_room (k_heap k) (52 + n)"
  shows "\<exists>r k' S' xs'. vm_brk_flags USER_STACK_BASE PAGE_SIZE k = Ret r k' \<and> r \<noteq> 0 \<and> new_image L base k0 ef mm pd N S' k' xs' \<and> same_rest k k'
    \<and> has_room (k_heap k') n \<and> area_span k' ` set xs' = {stack_span} \<and> is_area k' xs' USER_STACK_BASE USER_STACK_TOP 0 0"
proof -
  have a: "align_down USER_STACK_BASE = USER_STACK_BASE" "align_up (USER_STACK_BASE + PAGE_SIZE) = USER_STACK_TOP"
    by (simp_all add: align_down_def align_up_def)
  have f: "unat USER_STACK_BASE + unat PAGE_SIZE + 4095 < 4294967296" "0 < PAGE_SIZE" by simp_all
  from image_mmap [OF assms(1) f _ assms(2), of 0 0] obtain r k' S' xs' where r: "do_mmap USER_STACK_BASE PAGE_SIZE 0 0 k = Ret r k'" "r \<noteq> 0"
    "new_image L base k0 ef mm pd N S' k' xs'" "same_rest k k'" "has_room (k_heap k') n" "area_span k' ` set xs' = {stack_span}" unfolding a by auto
  from mmap_step [OF image_loadable [OF assms(1)] f, of 0 0] r(1,2) obtain ys where
    "loadable L base k' ys" "is_area k' ys USER_STACK_BASE USER_STACK_TOP 0 0" unfolding a by auto
  then have "is_area k' xs' USER_STACK_BASE USER_STACK_TOP 0 0" using image_areas [OF r(3)] by metis
  then show ?thesis using r unfolding vm_brk_flags_def by blast
qed

text \<open>
  The executable behind \<open>i\<close>: its headers, and segments that are plain and share no page with each other or with the stack.
\<close>

definition executable :: "(nat \<Rightarrow> u8 list) \<Rightarrow> minix_inode \<Rightarrow> u8 list \<Rightarrow> elf32_phdr_t list \<Rightarrow> bool" where
  "executable blk i hb phs \<longleftrightarrow> 52 \<le> unat (i_size i) \<and> file_slice blk i 0 52 = Some hb \<and> e_phnum (ehdr_of hb) \<noteq> 0
     \<and> unat (e_phoff (ehdr_of hb)) + 32 * unat (e_phnum (ehdr_of hb)) \<le> unat (i_size i)
     \<and> (\<exists>pb. file_slice blk i (unat (e_phoff (ehdr_of hb))) (32 * unat (e_phnum (ehdr_of hb))) = Some pb
          \<and> phs = map (phdr_of pb) [0..<unat (e_phnum (ehdr_of hb))])
     \<and> list_all plain_segment phs \<and> sorted_wrt spans_apart (stack_span # concat (map segment_spans phs))"

lemma image_load:
  assumes "new_image L base k0 f mm pd N S k []" and "L = c_symbols C" and "healthy_inv (c_env C) T K img (k_disk k, k_machine k)"
    and "f \<noteq> 0" and "c_phdr C \<noteq> 0" and "k_files k f = Some fl" and "k_inodes k (f_inode fl) = Some i"
    and "executable (block_of (sectors_of img)) i hb phs" and "has_room (k_heap k) (52 * Suc (length (concat (map segment_spans phs))))"
  shows "\<exists>d m k' S' xs. load_image C f k = Ret (Some (e_entry (ehdr_of hb))) k' \<and> healthy_inv (c_env C) T K img (d, m) \<and> quiet m = quiet (k_machine k)
    \<and> new_image L base (k0\<lparr>k_disk := d, k_machine := m\<rparr>) f mm pd N S' k' xs \<and> same_rest (k\<lparr>k_disk := d, k_machine := m\<rparr>) k'
    \<and> list_all (segment_mapped k' xs f) phs \<and> is_area k' xs USER_STACK_BASE USER_STACK_TOP 0 0
    \<and> area_span k' ` set xs = set (stack_span # concat (map segment_spans phs))"
proof -
  let ?E = "c_env C" and ?spans = "concat (map segment_spans phs)"
  obtain pb where e: "52 \<le> unat (i_size i)" "file_slice (block_of (sectors_of img)) i 0 52 = Some hb" "e_phnum (ehdr_of hb) \<noteq> 0"
    "unat (e_phoff (ehdr_of hb)) + 32 * unat (e_phnum (ehdr_of hb)) \<le> unat (i_size i)"
    "file_slice (block_of (sectors_of img)) i (unat (e_phoff (ehdr_of hb))) (32 * unat (e_phnum (ehdr_of hb))) = Some pb"
    "phs = map (phdr_of pb) [0..<unat (e_phnum (ehdr_of hb))]" "list_all plain_segment phs" "sorted_wrt spans_apart (stack_span # ?spans)"
    using assms(8) unfolding executable_def by blast
  from image_stack [OF assms(1), of "52 * length ?spans"] assms(9) obtain r k1 S1 xs1 where
    1: "vm_brk_flags USER_STACK_BASE PAGE_SIZE k = Ret r k1" "r \<noteq> 0" "new_image L base k0 f mm pd N S1 k1 xs1" "same_rest k k1"
      "has_room (k_heap k1) (52 * length ?spans)" "area_span k1 ` set xs1 = {stack_span}" "is_area k1 xs1 USER_STACK_BASE USER_STACK_TOP 0 0" by auto
  have s1: "k_files k1 f = Some fl" "k_inodes k1 (f_inode fl) = Some i" "healthy_inv ?E T K img (k_disk k1, k_machine k1)" "k_machine k1 = k_machine k"
    using same_rest_sel [OF 1(4)] assms(3,6,7) by simp_all
  from elf32_load_exec_cases [OF image_loadable [OF 1(3)] assms(4,5) s1(1-3) e(2,1,3,5,4)] obtain d m where
    2: "healthy_inv ?E T K img (d, m)" "quiet m = quiet (k_machine k1)" "elf32_load_exec ?E L (c_phdr C) f k1 =
      and_then (load_segments ?E L f phs (k1\<lparr>k_disk := d, k_machine := m\<rparr>)) (\<lambda>ok k. if ok = 0 then and_then (dispose (c_phdr C) k) (\<lambda>_. Ret None)
          else Ret (Some (e_entry (ehdr_of hb))) k)" unfolding e(6) by blast
  define k2 where "k2 = k1\<lparr>k_disk := d, k_machine := m\<rparr>"
  have im2: "new_image L base (k0\<lparr>k_disk := d, k_machine := m\<rparr>) f mm pd N S1 k2 xs1" unfolding k2_def by (rule image_devices [OF 1(3) 2(2)])
  have sp2: "area_span k2 = area_span k1" "is_area k2 xs1 = is_area k1 xs1" by (simp_all add: fun_eq_iff area_span_def is_area_def k2_def)
  have "spans_apart s (area_span k2 x)" if "x \<in> set xs1" "s \<in> set ?spans" for x s
  proof -
    have "area_span k2 x = stack_span" using 1(6) that(1) sp2(1) by auto
    then show ?thesis using e(8) that(2) spans_apart_sym by auto
  qed
  from image_segments [OF im2 e(7) assms(4), of 0 ?E, OF _ this] 1(5) e(8) obtain k3 S3 xs3 where
    3: "load_segments ?E L f phs k2 = Ret 1 k3" "new_image L base (k0\<lparr>k_disk := d, k_machine := m\<rparr>) f mm pd N S3 k3 xs3" "same_rest k2 k3"
      "area_span k3 ` set xs3 = set ?spans \<union> area_span k2 ` set xs1" by (auto simp: k2_def)
  have "list_all segment_fits phs" using e(7) by (simp add: list_all_iff plain_segment_def)
  from load_segments_step [OF image_loadable [OF im2] this assms(4), of ?E] 3(1) obtain ys where
    ys: "loadable L base k3 ys" "areas_kept k2 xs1 k3 ys" "list_all (segment_mapped k3 ys f) phs" by auto
  have "ys = xs3" by (rule image_areas [OF 3(2) ys(1)])
  then have sm: "list_all (segment_mapped k3 xs3 f) phs" "is_area k3 xs3 USER_STACK_BASE USER_STACK_TOP 0 0"
    using ys(3) is_area_kept [OF _ ys(2)] 1(7) sp2(2) by auto
  have "load_image C f k = Ret (Some (e_entry (ehdr_of hb))) k3" using 1(1,2) 2(3) 3(1) assms(2) by (simp add: load_image_def k2_def)
  moreover have "same_rest (k\<lparr>k_disk := d, k_machine := m\<rparr>) k3" using same_rest_trans [OF same_rest_devices [OF 1(4)] 3(3) [unfolded k2_def]] .
  moreover have "area_span k3 ` set xs3 = set (stack_span # ?spans)" using 3(4) 1(6) sp2(1) by auto
  ultimately show ?thesis using 2(1,2) 3(2) sm s1(4) by metis
qed

end
