(* ===== verification/Execve.thy ===== *)
theory Execve
  imports Image
begin

text \<open>
  A successful \<open>execve\<close>: \<open>sys_execve\<close> of \<^verbatim>\<open>kernel/syscall.c\<close> over the file system, the heap, the page directories, the loader and
  \<open>release_mm\<close>. The new image is built beside the old one, which is given back when the new one is complete; the program that runs then is the
  one in the file.
\<close>

section \<open>The stages of \<open>execve\<close>\<close>

lemma typed_stores_put:
  "typed_stores k \<Longrightarrow> p \<notin> objects k \<Longrightarrow> typed_stores (put_file p f k)" "typed_stores k \<Longrightarrow> p \<notin> objects k \<Longrightarrow> typed_stores (put_mm p m k)"
  "typed_stores k \<Longrightarrow> p \<notin> objects k \<Longrightarrow> typed_stores (k\<lparr>k_inodes := (k_inodes k)(p \<mapsto> i)\<rparr>)"
  by (simp_all add: typed_stores_def objects_def put_defs)

lemma grown_room:
  assumes "objects_ok L base k" and "grown L base S k k'" and "has_room (k_heap k') (unat (heap_align_up sz) + 20 + n)"
  obtains p h m where "new sz k' = Ret p (k'\<lparr>k_heap := h\<rparr>)" "p \<noteq> 0" "p \<notin> fst ` S" "p \<notin> objects k'" "has_room h n"
    "grown L base (insert (p, m) S) k (k'\<lparr>k_heap := h\<rparr>)"
proof (cases rule: grown_new [OF assms(1,2), where sz = sz])
  case 1
  then show ?thesis using new_room(1) [OF objects_okD [OF grown_objects_ok [OF assms(1,2)]] assms(3)] by simp
next
  case (2 p h m)
  have "p \<notin> objects k'" using 2(4,5) assms(2) by (auto simp: grown_def objects_def domIff)
  then show ?thesis using new_room(2) [OF objects_okD [OF grown_objects_ok [OF assms(1,2)]] assms(3) 2(1)] 2 that by simp
qed

lemma execve_opens:
  assumes "objects_ok (c_symbols C) base k" and "typed_stores k" and "healthy_inv (c_env C) T K img (k_disk k, k_machine k)"
    and "user_string k a p" and "path_ok p" and "length (c_components C) = 992"
    and "resolves (block_of (sectors_of img)) (k_super k) (spec_inode (block_of (sectors_of img)) (k_super k) MINIX_ROOT_INODE) (path_names p) (Some i)"
    and "has_room (k_heap k) (80 + n)"
  obtains f q h S d m k1 k2 where "new SIZEOF_FILE_T k = Ret f k1" "f \<noteq> 0" "user_path (c_env C) (c_symbols C) a k1 = Ret (Some p) k1"
    "open_file (c_env C) (c_symbols C) (c_components C) (Some p) f k1 = Ret 1 k2"
    "k2 = k\<lparr>k_heap := h, k_files := (k_files k)(f \<mapsto> \<lparr>f_inode = q, f_pos = 0\<rparr>), k_inodes := (k_inodes k)(q \<mapsto> i), k_disk := d, k_machine := m\<rparr>"
    "healthy_inv (c_env C) T K img (d, m)" "quiet m = quiet (k_machine k)" "grown (c_symbols C) base S (k\<lparr>k_disk := d, k_machine := m\<rparr>) k2"
    "fst ` S = {f, q}" "typed_stores k2" "has_room h n"
proof -
  let ?E = "c_env C" and ?L = "c_symbols C"
  have "has_room (k_heap k) (unat (heap_align_up SIZEOF_FILE_T) + 20 + (52 + n))" using assms(8) by (simp add: heap_align_up_def)
  from grown_room [OF assms(1) grown_refl [OF assms(1)] this] obtain f h1 n1 where
    f: "new SIZEOF_FILE_T k = Ret f (k\<lparr>k_heap := h1\<rparr>)" "f \<noteq> 0" "f \<notin> objects k" "has_room h1 (52 + n)"
      "grown ?L base {(f, n1)} k (k\<lparr>k_heap := h1\<rparr>)" by auto
  let ?k1 = "k\<lparr>k_heap := h1\<rparr>"
  have up: "user_path ?E ?L a ?k1 = Ret (Some p) ?k1" using assms(4,5) by (intro user_path_mapped) (simp_all add: user_string_heap path_ok_def)
  from open_file_resolves [of ?E T K img ?k1 p "c_components C" "Some i" ?L f] assms(3,5-7) obtain d m where
    o: "healthy_inv ?E T K img (d, m)" "quiet m = quiet (k_machine k)" "open_file ?E ?L (c_components C) (Some p) f ?k1
      = and_then (on_fs (set_inode i) (?k1\<lparr>k_disk := d, k_machine := m\<rparr>)) (\<lambda>r k. Ret (fst r) (put_file f (snd r) k))" by auto
  define K where "K = k\<lparr>k_disk := d, k_machine := m\<rparr>"
  define k1' where "k1' = ?k1\<lparr>k_disk := d, k_machine := m\<rparr>"
  have g1: "grown ?L base {(f, n1)} K k1'" unfolding K_def k1'_def by (rule grown_devices [OF f(5)])
  have okK: "objects_ok ?L base K" using assms(1) by (simp add: K_def objects_ok_def objects_def)
  have "has_room (k_heap k1') (unat (heap_align_up 32) + 20 + n)" using f(4) by (simp add: heap_align_up_def k1'_def)
  from grown_room [OF okK g1 this] obtain q h n2 where q: "new 32 k1' = Ret q (k1'\<lparr>k_heap := h\<rparr>)" "q \<noteq> 0" "q \<noteq> f" "q \<notin> objects k1'" "has_room h n"
    "grown ?L base {(q, n2), (f, n1)} K (k1'\<lparr>k_heap := h\<rparr>)" by auto
  define k2 where "k2 = put_file f \<lparr>f_inode = q, f_pos = 0\<rparr> (k1'\<lparr>k_heap := h, k_inodes := (k_inodes k)(q \<mapsto> i)\<rparr>)"
  have "kmalloc 32 h1 = Some (q, h)" using q(1) by (auto simp: new_def k1'_def split: option.splits dest: arg_cong [where f = k_heap])
  then have op: "open_file ?E ?L (c_components C) (Some p) f ?k1 = Ret 1 k2"
    using o(3) q(2) by (simp add: on_fs_def set_inode_def fs_of_def put_fs_def k2_def k1'_def)
  have "objects (k1'\<lparr>k_heap := h, k_inodes := (k_inodes k)(q \<mapsto> i)\<rparr>) = insert q (objects k)" by (simp add: objects_def k1'_def)
  moreover have "typed_stores (k1'\<lparr>k_heap := h\<rparr>)" "q \<notin> objects (k1'\<lparr>k_heap := h\<rparr>)" using assms(2) q(4) by (simp_all add: typed_stores_def objects_def k1'_def)
  from typed_stores_put(3) [OF this] have "typed_stores (k1'\<lparr>k_heap := h, k_inodes := (k_inodes k)(q \<mapsto> i)\<rparr>)" by (simp add: k1'_def)
  ultimately have ts: "typed_stores k2" unfolding k2_def using f(3) q(3) by (intro typed_stores_put) auto
  have "grown ?L base {(q, n2), (f, n1)} K (k1'\<lparr>k_heap := h, k_inodes := (k_inodes k)(q \<mapsto> i)\<rparr>)"
    by (rule grown_outside [OF q(6)]) (auto simp: k1'_def)
  then have g2: "grown ?L base {(q, n2), (f, n1)} K k2" unfolding k2_def by (intro grown_put) simp_all
  have eq: "k2 = k\<lparr>k_heap := h, k_files := (k_files k)(f \<mapsto> \<lparr>f_inode = q, f_pos = 0\<rparr>), k_inodes := (k_inodes k)(q \<mapsto> i), k_disk := d, k_machine := m\<rparr>"
    by (simp add: k2_def k1'_def put_file_def)
  show ?thesis by (rule that [OF f(1,2) up op eq o(1,2) g2 [unfolded K_def] _ ts q(5)]) auto
qed

lemma grown_paging: "grown L base S k k' \<Longrightarrow> grown L base S (k\<lparr>k_paging := pg\<rparr>) (k'\<lparr>k_paging := pg\<rparr>)"
  by (simp add: grown_def objects_def)

lemma grown_task:
  assumes "grown L base S k k'" and "k_tasks k a = Some t"
  shows "grown L base S (put_task a u (k\<lparr>k_machine := m\<rparr>)) (put_task a u (k'\<lparr>k_machine := m\<rparr>))"
proof -
  have "objects (put_task a u (k\<lparr>k_machine := m\<rparr>)) = objects k" using assms(2) by (auto simp: objects_def put_task_def)
  then show ?thesis using assms(1) by (simp add: grown_def put_task_def)
qed

lemma get_cr3_lma: "get_cr3 (m\<lparr>cr3 := get_pd_lma pd\<rparr>) = get_pd_lma pd"
  by (simp add: get_cr3_def get_pd_lma_def and.assoc)

lemma switch_mm_effect:
  assumes "k_mms k mm = Some x" and "k_tasks k task = Some t"
  shows "\<exists>m. switch_mm task mm k = Ret () (put_task task (t\<lparr>t_mm := mm, t_cr3 := get_pd_lma (mm_pgd x)\<rparr>) (k\<lparr>k_machine := m\<rparr>))
    \<and> cr3 m = get_pd_lma (mm_pgd x) \<and> eflags m = eflags (k_machine k)"
  using assms
  by (intro exI [of _ "(log_event Cli (k_machine k))\<lparr>cr3 := get_pd_lma (mm_pgd x), eflags := eflags (k_machine k)\<rparr>"])
    (simp add: switch_mm_def irq_save_def access_defs put_defs on_machine_def set_cr3_def irq_restore_def)

lemma execve_switches:
  assumes "objects_ok L base k0" and "grown L base S k0 k" and "typed_stores k" and "pd_ok L (k_paging k)"
    and "get_cr3 (k_machine k) = get_pd_lma pd0" and "pd0 \<in> pd_used L (k_paging k)" and "pd_used L (k_paging k) \<noteq> pd_pages L"
    and "k_tasks k task = Some t" and "k_tasks k0 task = Some t" and "task = current_task k" and "has_room (k_heap k) (28 + n)"
  obtains mm pd pg h m S' k1 k2 k3 where "new SIZEOF_MM_T k = Ret mm k1" "mm \<noteq> 0" "create_task_mm L mm k1 = Ret 1 k2"
    "get_current_task k2 = task" "k_tasks k2 task = Some t" "switch_mm task mm k2 = Ret () k3"
    "k3 = k\<lparr>k_heap := h, k_mms := (k_mms k)(mm \<mapsto> \<lparr>mm_pgd = pd, mm_mmap = 0\<rparr>), k_paging := pg,
        k_tasks := (k_tasks k)(task \<mapsto> t\<lparr>t_mm := mm, t_cr3 := get_pd_lma pd\<rparr>), k_machine := m\<rparr>"
    "eflags m = eflags (k_machine k)" "new_image L base (put_task task (t\<lparr>t_mm := mm, t_cr3 := get_pd_lma pd\<rparr>) (k0\<lparr>k_paging := pg, k_machine := m\<rparr>)) ef mm pd (insert mm (fst ` S)) S' k3 []"
    "has_room h n" "pd \<noteq> 0" "pd \<in> pd_pages L" "pd \<notin> pd_used L (k_paging k)" "pd_ok L pg" "pd_used L pg = insert pd (pd_used L (k_paging k))"
    "pt_in_use pg = pt_in_use (k_paging k)" "page_aligned pd" "kernel_copy pd pd0 (kmem (k_paging k)) (kmem pg)"
proof -
  have "has_room (k_heap k) (unat (heap_align_up SIZEOF_MM_T) + 20 + n)" using assms(11) by (simp add: heap_align_up_def)
  from grown_room [OF assms(1,2) this] obtain mm h n1 where mm: "new SIZEOF_MM_T k = Ret mm (k\<lparr>k_heap := h\<rparr>)" "mm \<noteq> 0" "mm \<notin> fst ` S" "mm \<notin> objects k"
    "has_room h n" "grown L base (insert (mm, n1) S) k0 (k\<lparr>k_heap := h\<rparr>)" .
  have so: "symbols_ok L" and p0: "pd0 \<in> pd_pages L" using assms(4) pd_pool.used_pages [OF assms(4)] assms(6) by (auto simp: pd_ok_def)
  then have "page_aligned pd0" using page_aligned_pool_page by (auto simp: symbols_ok_def pd_pages_def pool_pages_def)
  then have cur: "get_pd_vma (get_cr3 (k_machine (k\<lparr>k_heap := h\<rparr>))) = pd0" using assms(5) by (simp add: pd_address)
  have "pd_ok L (k_paging (k\<lparr>k_heap := h\<rparr>))" "get_pd_vma (get_cr3 (k_machine (k\<lparr>k_heap := h\<rparr>))) \<notin> pd_pages L - pd_used L (k_paging (k\<lparr>k_heap := h\<rparr>))"
    unfolding cur using assms(4,6) by simp_all
  then show ?thesis
  proof (cases rule: create_task_mm_cases [where mm = mm])
    case exhausted
    then show ?thesis using assms(7) by simp
  next
    case (created pd pg)
    define k2 where "k2 = put_mm mm \<lparr>mm_pgd = pd, mm_mmap = 0\<rparr> (k\<lparr>k_heap := h, k_paging := pg\<rparr>)"
    let ?t = "t\<lparr>t_mm := mm, t_cr3 := get_pd_lma pd\<rparr>"
    have "k_mms k2 mm = Some \<lparr>mm_pgd = pd, mm_mmap = 0\<rparr>" "k_tasks k2 task = Some t" using assms(8) by (simp_all add: k2_def put_mm_def)
    from switch_mm_effect [OF this] obtain m where m: "switch_mm task mm k2 = Ret () (put_task task ?t (k2\<lparr>k_machine := m\<rparr>))"
      "cr3 m = get_pd_lma pd" "eflags m = eflags (k_machine k)" by (auto simp: k2_def put_mm_def)
    define k3 where "k3 = put_task task ?t (k2\<lparr>k_machine := m\<rparr>)"
    let ?k0 = "put_task task ?t (k0\<lparr>k_paging := pg, k_machine := m\<rparr>)"
    have "grown L base (insert (mm, n1) S) (k0\<lparr>k_paging := pg\<rparr>) k2" unfolding k2_def
      using grown_paging [OF mm(6), of pg] by (intro grown_put) simp_all
    from grown_task [OF this, where a = task and t = t and u = ?t and m = m] assms(9) have g: "grown L base (insert (mm, n1) S) ?k0 k3" by (simp add: k3_def)
    have "task \<in> objects k0" using assms(9) by (auto simp: objects_def)
    then have ok0: "objects_ok L base ?k0" using assms(1,9) by (auto simp: objects_ok_def objects_def put_task_def)
    have "typed_stores k2" unfolding k2_def using assms(3) mm(4) by (intro typed_stores_put) (simp_all add: typed_stores_def objects_def)
    then have ts: "typed_stores k3" using assms(8) by (simp add: k3_def put_task_def typed_stores_def insert_absorb domI k2_def put_mm_def)
    have "get_cr3 m = get_pd_lma pd" using get_cr3_lma [of pd m] m(2) by (simp add: get_cr3_def)
    then have im: "new_image L base ?k0 ef mm pd (insert mm (fst ` S)) (insert (mm, n1) S) k3 []" unfolding new_image_def
      using ok0 g ts assms(10) by (simp add: k3_def k2_def put_defs mm_areas_def vma_chain_def areas_ok_def)
    have eq: "k3 = k\<lparr>k_heap := h, k_mms := (k_mms k)(mm \<mapsto> \<lparr>mm_pgd = pd, mm_mmap = 0\<rparr>), k_paging := pg,
        k_tasks := (k_tasks k)(task \<mapsto> ?t), k_machine := m\<rparr>" by (simp add: k3_def k2_def put_defs)
    have cr: "create_task_mm L mm (k\<lparr>k_heap := h\<rparr>) = Ret 1 k2" using created(1) by (simp add: k2_def)
    have gt: "get_current_task k2 = task" "k_tasks k2 task = Some t" using assms(8,10) by (simp_all add: k2_def get_current_task_def put_mm_def)
    show ?thesis
      by (rule that [OF mm(1,2) cr gt m(1) [folded k3_def] eq m(3) im mm(5)]) (use created cur in simp_all)
  qed
qed

section \<open>The old address space\<close>

lemma space_parts_allocated: "space_owned L base k mm xs pd \<Longrightarrow> space_parts k mm xs \<subseteq> fst ` allocated (k_heap k)"
  by (simp add: space_owned_def space_parts_def files_parts_def files_ok_def file_ok_def UN_subset_iff)

lemma vma_seg_cong: "(\<And>x. x \<in> set xs \<Longrightarrow> V' x = V x) \<Longrightarrow> vma_seg V' p a xs q b = vma_seg V p a xs q b"
  by (induction xs arbitrary: p a) auto

lemma space_owned_agree:
  assumes "space_owned L base k mm xs pd"
    and "\<And>a. a \<in> space_parts k mm xs \<Longrightarrow> k_mms k' a = k_mms k a \<and> k_vmas k' a = k_vmas k a \<and> k_files k' a = k_files k a \<and> k_inodes k' a = k_inodes k a"
    and "space_parts k mm xs \<subseteq> fst ` allocated (k_heap k')" and "heap_ok base (k_heap k')" and "typed_stores k'"
    and "pd_ok L (k_paging k')" "pt_ok L (k_paging k')" "frames_ok (k_frames k')" "pd \<in> pd_used L (k_paging k')"
    and "user_tables (kmem (k_paging k')) pd 1024 = user_tables (kmem (k_paging k)) pd 1024"
    and "space_frames (kmem (k_paging k')) pd 1024 = space_frames (kmem (k_paging k)) pd 1024"
  shows "space_owned L base k' mm xs pd" "space_parts k' mm xs = space_parts k mm xs"
proof -
  let ?F = "area_files (k_vmas k) xs"
  have v: "k_vmas k' x = k_vmas k x" if "x \<in> set xs" for x using assms(2) [of x] that by (simp add: space_parts_def)
  then have F: "area_files (k_vmas k') xs = ?F" unfolding area_files_def
    by (intro arg_cong2 [where f = minus] image_cong refl) (simp add: vma_at_def)
  have f: "k_files k' f = k_files k f" "file_parts k' f = file_parts k f" "file_ok k' f" if f: "f \<in> ?F" for f
  proof -
    have p: "file_parts k f \<subseteq> space_parts k mm xs" unfolding space_parts_def files_parts_def using UN_upper [OF f] by (intro subset_insertI2 le_supI2)
    have "f \<in> file_parts k f" by (simp add: file_parts_def)
    then have "f \<in> space_parts k mm xs" by (rule subsetD [OF p])
    then show kf: "k_files k' f = k_files k f" using assms(2) by simp
    then show fp: "file_parts k' f = file_parts k f" by (simp add: file_parts_def)
    have "file_ok k f" using assms(1) f by (simp add: space_owned_def files_ok_def)
    then have ok: "f \<in> dom (k_files k)" "{f_inode (the (k_files k f))} - {0} \<subseteq> dom (k_inodes k)" unfolding file_ok_def by simp_all
    have "{f_inode (the (k_files k f))} - {0} \<subseteq> dom (k_inodes k')"
    proof
      fix q assume q: "q \<in> {f_inode (the (k_files k f))} - {0}"
      then have "q \<in> file_parts k f" by (auto simp: file_parts_def)
      then have "k_inodes k' q = k_inodes k q" using assms(2) subsetD [OF p] by simp
      moreover have "q \<in> dom (k_inodes k)" using q by (rule subsetD [OF ok(2)])
      ultimately show "q \<in> dom (k_inodes k')" by (simp add: domIff)
    qed
    moreover have "f \<in> dom (k_files k')" using ok(1) kf by (simp add: domIff)
    moreover have "file_parts k f \<subseteq> fst ` allocated (k_heap k')" using p assms(3) by (rule order_trans)
    ultimately show "file_ok k' f" unfolding file_ok_def kf fp by (intro conjI)
  qed
  then show "space_parts k' mm xs = space_parts k mm xs" unfolding space_parts_def files_parts_def F by simp
  have "files_ok k' ?F" unfolding files_ok_def
  proof (intro conjI ballI impI f(3))
    fix g h assume "g \<in> ?F" "h \<in> ?F" "g \<noteq> h"
    then show "file_parts k' g \<inter> file_parts k' h = {}" using assms(1) by (simp add: f(2) space_owned_def files_ok_def)
  qed
  moreover have "vma_seg (k_vmas k') p a xs q b = vma_seg (k_vmas k) p a xs q b" for p a q b by (rule vma_seg_cong [OF v])
  moreover have "k_mms k' mm = k_mms k mm" using assms(2) [of mm] by (simp add: space_parts_def)
  moreover have "insert mm (set xs) \<subseteq> fst ` allocated (k_heap k')" using assms(3) by (simp add: space_parts_def)
  ultimately have "(\<exists>m. k_mms k' mm = Some m \<and> mm_pgd m = pd \<and> vma_chain (k_vmas k') (mm_mmap m) xs) \<and> files_ok k' ?F
      \<and> insert mm (set xs) \<subseteq> fst ` allocated (k_heap k')" using assms(1) unfolding space_owned_def vma_chain_def by simp
  then show "space_owned L base k' mm xs pd" using assms(1,4-9) unfolding space_owned_def F assms(10,11) by simp
qed

lemma kernel_copy_keeps:
  assumes "kernel_copy pd src mem mem'" and "page_aligned pd0" and "pd0 \<noteq> pd" and "user_tables mem pd0 1024 \<subseteq> P"
    and "\<And>b. b \<in> P \<Longrightarrow> page_aligned b \<and> b \<noteq> pd"
  shows "user_tables mem' pd0 1024 = user_tables mem pd0 1024" "space_frames mem' pd0 1024 = space_frames mem pd0 1024"
proof -
  have m: "mem' (slot b (of_nat i)) = mem (slot b (of_nat i))" if "page_aligned b" "b \<noteq> pd" "i < 1024" for b i
    using assms(1) [unfolded kernel_copy_def, rule_format, of b "of_nat i"] that by simp
  show ut: "user_tables mem' pd0 1024 = user_tables mem pd0 1024"
    unfolding user_tables_def using m [OF assms(2,3)] by (intro Collect_cong ex_cong1) auto
  have "table_frames mem' t 1024 = table_frames mem t 1024" if "t \<in> user_tables mem pd0 1024" for t
  proof -
    have "t \<in> P" using that assms(4) by (rule subsetD [rotated])
    from m [of t] assms(5) [OF this] show ?thesis unfolding table_frames_def by (intro Collect_cong ex_cong1) auto
  qed
  then show "space_frames mem' pd0 1024 = space_frames mem pd0 1024" unfolding space_frames_def ut by simp
qed

section \<open>The whole call\<close>

text \<open>The current task in its own address space, with the areas \<open>xs\<close> and the directory \<open>pd\<close>.\<close>

definition caller :: "symbols \<Rightarrow> u32 \<Rightarrow> kernel \<Rightarrow> task_t \<Rightarrow> u32 list \<Rightarrow> u32 \<Rightarrow> bool" where
  "caller L base k t xs pd \<longleftrightarrow> objects_ok L base k \<and> k_tasks k (current_task k) = Some t \<and> space_owned L base k (t_mm t) xs pd
     \<and> get_cr3 (k_machine k) = get_pd_lma pd"

definition announce :: "task_t \<Rightarrow> machine \<Rightarrow> machine" where
  "announce t m = snd (console_putc 0x0a (snd (console_put_dec32 (t_pid t) (print ''Pid: '' m))))"

abbreviation started :: "u32 \<Rightarrow> syscall_registers_t \<Rightarrow> syscall_registers_t" where
  "started entry_point regs \<equiv> regs\<lparr>edi := 0, esi := 0, ebp := 0, ebx := 0, edx := 0, ecx := 0, user_eip := entry_point,
     user_eflags := 0x202, user_esp := USER_STACK_TOP\<rparr>"

text \<open>
  The state before the old address space is released: the task runs in the new image \<open>mm\<close>, over the file \<open>f\<close> with the inode \<open>q\<close>; its directory \<open>pd\<close>
  has been taken from the pool and filled with the kernel's entries of the old one.
\<close>

definition loaded_beside :: "symbols \<Rightarrow> u32 \<Rightarrow> kernel \<Rightarrow> task_t \<Rightarrow> u32 \<Rightarrow> minix_inode \<Rightarrow> u32 \<Rightarrow> u32 \<Rightarrow> u32 \<Rightarrow> u32 \<Rightarrow> (u32 \<times> u32) set \<Rightarrow> u32 list \<Rightarrow> kernel \<Rightarrow> bool" where
  "loaded_beside L base k t pd0 i f q mm pd S ys k' \<longleftrightarrow>
     (\<exists>d m. new_image L base (k\<lparr>k_tasks := (k_tasks k)(current_task k \<mapsto> t\<lparr>t_mm := mm, t_cr3 := get_pd_lma pd\<rparr>), k_paging := k_paging k', k_disk := d,
        k_machine := m\<rparr>) f mm pd {f, q, mm} S k' ys)
     \<and> mm \<noteq> 0 \<and> k_files k' f = Some \<lparr>f_inode = q, f_pos = 0\<rparr> \<and> k_inodes k' q = Some i
     \<and> k_tasks k' = (k_tasks k)(current_task k \<mapsto> t\<lparr>t_mm := mm, t_cr3 := get_pd_lma pd\<rparr>) \<and> current_task k' = current_task k
     \<and> pd \<in> pd_pages L \<and> pd \<notin> pd_used L (k_paging k) \<and> pd_ok L (k_paging k') \<and> pd_used L (k_paging k') = insert pd (pd_used L (k_paging k))
     \<and> pt_in_use (k_paging k') = pt_in_use (k_paging k) \<and> page_aligned pd \<and> kernel_copy pd pd0 (kmem (k_paging k)) (kmem (k_paging k'))"

lemma execve_loads:
  assumes "caller (c_symbols C) base k t xs pd0" and "pd_used (c_symbols C) (k_paging k) \<noteq> pd_pages (c_symbols C)"
    and "healthy_inv (c_env C) T K img (k_disk k, k_machine k)" and "user_string k (ebx regs) p" and "path_ok p" and "length (c_components C) = 992"
    and "resolves (block_of (sectors_of img)) (k_super k) (spec_inode (block_of (sectors_of img)) (k_super k) MINIX_ROOT_INODE) (path_names p) (Some i)"
    and "executable (block_of (sectors_of img)) i hb phs" and "c_phdr C \<noteq> 0"
    and "has_room (k_heap k) (160 + 52 * length (concat (map segment_spans phs)))"
  obtains f q mm pd ys S k' where
    "sys_execve C regs k = and_then (release_mm (c_symbols C) (t_mm t) k') (\<lambda>_. with_task (current_task k) (\<lambda>t k.
        Ret (Some (0, started (e_entry (ehdr_of hb)) regs)) (on_machine (announce t) k)))"
    "loaded_beside (c_symbols C) base k t pd0 i f q mm pd S ys k'" "f \<noteq> 0"
    "k_interrupts k' = k_interrupts k" "k_phys k' = k_phys k" "healthy_inv (c_env C) T K img (k_disk k', k_machine k')"
    "eflags (k_machine k') = eflags (k_machine k)" "list_all (segment_mapped k' ys f) phs" "is_area k' ys USER_STACK_BASE USER_STACK_TOP 0 0"
    "area_span k' ` set ys = set (stack_span # concat (map segment_spans phs))"
proof -
  let ?E = "c_env C" and ?L = "c_symbols C" and ?n = "length (concat (map segment_spans phs))" and ?cur = "current_task k"
  have c: "objects_ok ?L base k" "k_tasks k ?cur = Some t" "typed_stores k" "pd_ok ?L (k_paging k)" "pd0 \<in> pd_used ?L (k_paging k)"
    "get_cr3 (k_machine k) = get_pd_lma pd0" using assms(1) by (simp_all add: caller_def space_owned_def)
  have room: "has_room (k_heap k) (80 + (80 + 52 * ?n))" using assms(10) by (simp add: algebra_simps)
  obtain f q h S d m k1 k2 where 1: "new SIZEOF_FILE_T k = Ret f k1" "f \<noteq> 0" "user_path ?E ?L (ebx regs) k1 = Ret (Some p) k1"
    "open_file ?E ?L (c_components C) (Some p) f k1 = Ret 1 k2"
    and k2: "k2 = k\<lparr>k_heap := h, k_files := (k_files k)(f \<mapsto> \<lparr>f_inode = q, f_pos = 0\<rparr>), k_inodes := (k_inodes k)(q \<mapsto> i), k_disk := d, k_machine := m\<rparr>"
    and 2: "healthy_inv ?E T K img (d, m)" "quiet m = quiet (k_machine k)" "grown ?L base S (k\<lparr>k_disk := d, k_machine := m\<rparr>) k2"
    "fst ` S = {f, q}" "typed_stores k2" "has_room h (80 + 52 * ?n)"
    by (rule execve_opens [OF c(1,3) assms(3-7) room])
  have m: "cr3 m = cr3 (k_machine k)" "eflags m = eflags (k_machine k)" using arg_cong [OF 2(2), of cr3] arg_cong [OF 2(2), of eflags] by (simp_all add: quiet_def)
  let ?k0 = "k\<lparr>k_disk := d, k_machine := m\<rparr>"
  have ok0: "objects_ok ?L base ?k0" using c(1) by (simp add: objects_ok_def objects_def)
  have s2: "pd_ok ?L (k_paging k2)" "get_cr3 (k_machine k2) = get_pd_lma pd0" "pd0 \<in> pd_used ?L (k_paging k2)" "pd_used ?L (k_paging k2) \<noteq> pd_pages ?L"
    "k_tasks k2 ?cur = Some t" "k_tasks ?k0 ?cur = Some t" "?cur = current_task k2" "has_room (k_heap k2) (28 + (52 + 52 * ?n))"
    using c assms(2) 2(6) m by (simp_all add: k2 get_cr3_def)
  obtain mm pd pg h' m' S' k3 k4 k5 where 3: "new SIZEOF_MM_T k2 = Ret mm k3" "mm \<noteq> 0" "create_task_mm ?L mm k3 = Ret 1 k4"
    "get_current_task k4 = ?cur" "k_tasks k4 ?cur = Some t" "switch_mm ?cur mm k4 = Ret () k5"
    and k5: "k5 = k2\<lparr>k_heap := h', k_mms := (k_mms k2)(mm \<mapsto> \<lparr>mm_pgd = pd, mm_mmap = 0\<rparr>), k_paging := pg,
        k_tasks := (k_tasks k2)(?cur \<mapsto> t\<lparr>t_mm := mm, t_cr3 := get_pd_lma pd\<rparr>), k_machine := m'\<rparr>"
    and 4: "eflags m' = eflags (k_machine k2)" "new_image ?L base (put_task ?cur (t\<lparr>t_mm := mm, t_cr3 := get_pd_lma pd\<rparr>) (?k0\<lparr>k_paging := pg, k_machine := m'\<rparr>))
      f mm pd (insert mm (fst ` S)) S' k5 []"
    "has_room h' (52 + 52 * ?n)" and pd: "pd \<noteq> 0" "pd \<in> pd_pages ?L" "pd \<notin> pd_used ?L (k_paging k2)" "pd_ok ?L pg" "pd_used ?L pg = insert pd (pd_used ?L (k_paging k2))"
    "pt_in_use pg = pt_in_use (k_paging k2)" "page_aligned pd" "kernel_copy pd pd0 (kmem (k_paging k2)) (kmem pg)"
    by (rule execve_switches [OF ok0 2(3,5) s2, where ef = f])
  have s5: "healthy_inv ?E T K img (k_disk k5, k_machine k5)" "k_files k5 f = Some \<lparr>f_inode = q, f_pos = 0\<rparr>"
    "k_inodes k5 (f_inode \<lparr>f_inode = q, f_pos = 0\<rparr>) = Some i" "has_room (k_heap k5) (52 * Suc ?n)"
    using 2(1) healthy_machine [of ?E T K img d m m'] 4(3) by (simp_all add: k5 k2)
  from image_load [OF 4(2) refl s5(1) 1(2) assms(9) s5(2,3) assms(8) s5(4)] obtain d2 m2 k' S2 ys where
    5: "load_image C f k5 = Ret (Some (e_entry (ehdr_of hb))) k'" "healthy_inv ?E T K img (d2, m2)" "quiet m2 = quiet (k_machine k5)"
    "new_image ?L base ((put_task ?cur (t\<lparr>t_mm := mm, t_cr3 := get_pd_lma pd\<rparr>) (?k0\<lparr>k_paging := pg, k_machine := m'\<rparr>))\<lparr>k_disk := d2, k_machine := m2\<rparr>)
      f mm pd (insert mm (fst ` S)) S2 k' ys" "same_rest (k5\<lparr>k_disk := d2, k_machine := m2\<rparr>) k'"
    "list_all (segment_mapped k' ys f) phs" "is_area k' ys USER_STACK_BASE USER_STACK_TOP 0 0"
    "area_span k' ` set ys = set (stack_span # concat (map segment_spans phs))" by blast
  have e: "sys_execve C regs k = and_then (release_mm ?L (t_mm t) k') (\<lambda>_. with_task ?cur (\<lambda>t k.
        Ret (Some (0, started (e_entry (ehdr_of hb)) regs)) (on_machine (announce t) k)))"
    using 1 3 5(1) by (simp add: sys_execve_def Let_def with_task_def [of ?cur _ k4] on_machine_def announce_def)
  have eq: "(put_task ?cur (t\<lparr>t_mm := mm, t_cr3 := get_pd_lma pd\<rparr>) (?k0\<lparr>k_paging := pg, k_machine := m'\<rparr>))\<lparr>k_disk := d2, k_machine := m2\<rparr>
      = k\<lparr>k_tasks := (k_tasks k)(?cur \<mapsto> t\<lparr>t_mm := mm, t_cr3 := get_pd_lma pd\<rparr>), k_paging := pg, k_disk := d2, k_machine := m2\<rparr>"
    by (cases k) (simp add: put_task_def)
  have N: "insert mm (fst ` S) = {f, q, mm}" using 2(4) by auto
  have "eflags m2 = eflags m'" using arg_cong [OF 5(3), of eflags] by (simp add: quiet_def k5)
  then have ef: "eflags m2 = eflags (k_machine k)" using 4(1) m(2) by (simp add: k2)
  have pg: "k_paging k' = pg" "k_disk k' = d2" "k_machine k' = m2" using same_rest_sel [OF 5(5)] by (simp_all add: k5)
  have "loaded_beside ?L base k t pd0 i f q mm pd S2 ys k'" unfolding loaded_beside_def pg(1)
    using 5(4) [unfolded eq N] 3(2) same_rest_sel [OF 5(5)] s5 pd by (intro conjI exI [of _ d2] exI [of _ m2]) (simp_all add: k5 k2)
  then show ?thesis using same_rest_sel [OF 5(5)] 5 ef pg by (intro that [OF e _ 1(2)]) (simp_all add: k5 k2)
qed

lemma shrunk_objects_ok: "objects_ok L base k \<Longrightarrow> shrunk base D k k' \<Longrightarrow> objects_ok L base k'"
proof -
  assume ok: "objects_ok L base k" and s: "shrunk base D k k'"
  have "objects k' = objects k - D" unfolding objects_def shrunk_sel [OF s] by (auto simp: without_def split: if_splits)
  moreover have "fst ` allocated (k_heap k') = fst ` allocated (k_heap k) - D" using s by (force simp: shrunk_def)
  ultimately show ?thesis using ok s unfolding objects_ok_def shrunk_def by (simp add: subset_iff)
qed

lemma typed_stores_shrunk: "typed_stores k \<Longrightarrow> shrunk base D k k' \<Longrightarrow> typed_stores k'"
proof -
  assume t: "typed_stores k" and s: "shrunk base D k k'"
  show ?thesis using t unfolding typed_stores_def shrunk_sel [OF s] by (auto simp: without_def disjoint_iff dom_def split: if_splits)
qed

text \<open>The image is an address space in order, of new regions only.\<close>

lemma image_owned:
  assumes "new_image L base k0 f mm pd {f, q, mm} S k ys" and "k_files k f = Some \<lparr>f_inode = q, f_pos = 0\<rparr>" and "k_inodes k q = Some i" and "mm \<noteq> 0"
    and "pd_ok L (k_paging k)" "pt_ok L (k_paging k)" "frames_ok (k_frames k)" "pd \<in> pd_used L (k_paging k)"
    and "user_tables (kmem (k_paging k)) pd 1024 = {}"
  shows "space_owned L base k mm ys pd" "space_parts k mm ys \<subseteq> fst ` S"
proof -
  have i: "grown L base S k0 k" "typed_stores k" "mm_areas k mm ys" "fst ` S = {f, q, mm} \<union> set ys" "map_option mm_pgd (k_mms k mm) = Some pd"
    and v: "\<And>x. x \<in> set ys \<Longrightarrow> vm_file (vma_at (k_vmas k) x) \<in> {0, f}" using assms(1) by (simp_all add: new_image_def)
  have al: "fst ` S \<subseteq> fst ` allocated (k_heap k)" "heap_ok base (k_heap k)" using i(1) by (simp_all add: grown_def image_Un)
  have F: "area_files (k_vmas k) ys \<subseteq> {f}" unfolding area_files_def using v by blast
  have fp: "file_parts k f = insert f ({q} - {0})" using assms(2) by (simp add: file_parts_def)
  then have sub: "file_parts k f \<subseteq> fst ` S" using i(4) by auto
  have "file_ok k f" unfolding file_ok_def using assms(2,3) order_trans [OF sub al(1)] by auto
  then have fo: "files_ok k (area_files (k_vmas k) ys)" unfolding files_ok_def using F by blast
  have "files_parts k (area_files (k_vmas k) ys) \<subseteq> file_parts k f" unfolding files_parts_def using F by blast
  then have "files_parts k (area_files (k_vmas k) ys) \<subseteq> fst ` S" using sub by (rule order_trans)
  moreover have my: "insert mm (set ys) \<subseteq> fst ` S" using i(4) by auto
  ultimately show "space_parts k mm ys \<subseteq> fst ` S" by (simp add: space_parts_def)
  have "\<exists>m. k_mms k mm = Some m \<and> mm_pgd m = pd \<and> vma_chain (k_vmas k) (mm_mmap m) ys" "distinct ys"
    using i(3,5) by (auto simp: mm_areas_def areas_ok_def)
  moreover have "space_frames (kmem (k_paging k)) pd 1024 = {}" using assms(9) by (simp add: space_frames_def)
  ultimately show "space_owned L base k mm ys pd" unfolding space_owned_def assms(9)
    using al(2) i(2) assms(4-8) fo order_trans [OF my al(1)] by simp
qed

text \<open>The objects \<open>N\<close> are new and the objects \<open>D\<close> are gone; the others are as before.\<close>

definition replaced :: "u32 set \<Rightarrow> u32 set \<Rightarrow> kernel \<Rightarrow> kernel \<Rightarrow> bool" where
  "replaced N D k k' \<longleftrightarrow> N \<inter> (fst ` allocated (k_heap k) \<union> objects k) = {} \<and> fst ` allocated (k_heap k') = N \<union> (fst ` allocated (k_heap k) - D)
     \<and> (\<forall>a. a \<notin> N \<longrightarrow> k_mms k' a = without D (k_mms k) a \<and> k_vmas k' a = without D (k_vmas k) a \<and> k_files k' a = without D (k_files k) a
          \<and> k_inodes k' a = without D (k_inodes k) a)"

lemma grown_shrunk_replaced:
  assumes "grown L base S k k1" and "shrunk base D k1 k2" and "D \<subseteq> fst ` allocated (k_heap k)"
  shows "replaced (fst ` S) D k k2"
proof -
  have S: "fst ` S \<inter> (fst ` allocated (k_heap k) \<union> objects k) = {}" "allocated (k_heap k1) = S \<union> allocated (k_heap k)" using assms(1) by (auto simp: grown_def)
  have "fst ` allocated (k_heap k2) = fst ` allocated (k_heap k1) - D" using assms(2) by (force simp: shrunk_def)
  also have "\<dots> = fst ` S \<union> (fst ` allocated (k_heap k) - D)" using S assms(3) by (auto simp: image_Un)
  finally show ?thesis using S(1) assms(1) unfolding replaced_def shrunk_sel [OF assms(2)] by (simp add: without_def grown_def)
qed

lemma regs_announce [simp]: "cr3 (announce t m) = cr3 m" "eflags (announce t m) = eflags m"
proof -
  have "cr3 (fold (\<lambda>c m. snd (console_putc c m)) cs m) = cr3 m \<and> eflags (fold (\<lambda>c m. snd (console_putc c m)) cs m) = eflags m" for cs m
    by (induction cs arbitrary: m) simp_all
  then show "cr3 (announce t m) = cr3 m" "eflags (announce t m) = eflags m" by (simp_all add: announce_def console_put_dec32_def Let_def)
qed

text \<open>The directory of the new image has the kernel's entries of the old one and no others, also after the old one is cleared.\<close>

definition inherits :: "(u32 \<Rightarrow> u32) \<Rightarrow> u32 \<Rightarrow> (u32 \<Rightarrow> u32) \<Rightarrow> u32 \<Rightarrow> bool" where
  "inherits mem pd0 mem' pd \<longleftrightarrow>
     (\<forall>i. unat i < 1024 \<longrightarrow> mem' (slot pd i) = (if kernel_entry (mem (slot pd0 i)) then mem (slot pd0 i) else 0))
     \<and> (\<forall>b i. page_aligned b \<and> b \<noteq> pd \<and> b \<noteq> pd0 \<and> unat i < 1024 \<longrightarrow> mem' (slot b i) = mem (slot b i))"

lemma new_directory:
  assumes "kernel_copy pd pd0 mem mem'" and "page_aligned pd" and "page_aligned pd0" and "pd \<noteq> pd0"
  shows "inherits mem pd0 (cleared pd0 1024 mem') pd"
proof -
  have c: "cleared pd0 1024 mem' (slot b i) = mem' (slot b i)" if "page_aligned b" "b \<noteq> pd0" "unat i < 1024" for b i
    using cleared_other [OF assms(3) that(1,2) order_refl that(3), of mem'] by simp
  show ?thesis unfolding inherits_def using assms by (simp add: c kernel_copy_def)
qed

lemma new_directory_tables:
  assumes "kernel_copy pd pd0 mem mem'" and "page_aligned pd" and "page_aligned pd0" and "pd \<noteq> pd0"
  shows "user_tables mem' pd 1024 = {}" "user_tables (cleared pd0 1024 mem') pd 1024 = {}"
proof -
  have "\<not> user_entry (mem' (slot pd (of_nat j)))" if "j < 1024" for j
    using assms that by (auto simp: kernel_copy_def kernel_entry_def user_entry_def)
  then show "user_tables mem' pd 1024 = {}" by (auto simp: user_tables_def)
  have "\<not> user_entry (cleared pd0 1024 mem' (slot pd (of_nat j)))" if "j < 1024" for j
    using new_directory [OF assms] that by (auto simp: inherits_def kernel_entry_def user_entry_def)
  then show "user_tables (cleared pd0 1024 mem') pd 1024 = {}" by (auto simp: user_tables_def)
qed

lemma pool_pages_apart:
  assumes "symbols_ok L"
  shows "b \<in> pd_pages L \<Longrightarrow> page_aligned b" "b \<in> pt_pages L \<Longrightarrow> page_aligned b" "pd_pages L \<inter> pt_pages L = {}"
  using assms page_aligned_pool_page by (auto simp: symbols_ok_def pd_pages_def pt_pages_def pool_pages_def)

lemma loaded_beside_grown:
  assumes "caller L base k t xs pd0" and "loaded_beside L base k t pd0 i f q mm pd S ys k'"
  shows "typed_stores k'" "objects_ok L base k'" "fst ` S = {f, q, mm} \<union> set ys" "get_cr3 (k_machine k') = get_pd_lma pd" "mm_areas k' mm ys"
    "k_frames k' = k_frames k" "heap_ok base (k_heap k')" "allocated (k_heap k') = S \<union> allocated (k_heap k)"
    "fst ` S \<inter> (fst ` allocated (k_heap k) \<union> objects k) = {}"
    "a \<notin> fst ` S \<Longrightarrow> k_mms k' a = k_mms k a \<and> k_vmas k' a = k_vmas k a \<and> k_files k' a = k_files k a \<and> k_inodes k' a = k_inodes k a"
proof -
  define t' where "t' = t\<lparr>t_mm := mm, t_cr3 := get_pd_lma pd\<rparr>"
  obtain d m where im: "new_image L base (k\<lparr>k_tasks := (k_tasks k)(current_task k \<mapsto> t'), k_paging := k_paging k', k_disk := d, k_machine := m\<rparr>) f mm pd {f, q, mm} S k' ys"
    using assms(2) unfolding loaded_beside_def t'_def by blast
  define k0 where "k0 = k\<lparr>k_tasks := (k_tasks k)(current_task k \<mapsto> t'), k_paging := k_paging k', k_disk := d, k_machine := m\<rparr>"
  have g: "grown L base S k0 k'" "objects_ok L base k0" using im by (simp_all add: new_image_def k0_def)
  show "typed_stores k'" "fst ` S = {f, q, mm} \<union> set ys" "get_cr3 (k_machine k') = get_pd_lma pd" "mm_areas k' mm ys" using im by (simp_all add: new_image_def)
  show "objects_ok L base k'" by (rule grown_objects_ok [OF g(2,1)])
  have "k_tasks k (current_task k) = Some t" using assms(1) by (simp add: caller_def)
  then have ob: "objects k0 = objects k" by (auto simp: objects_def k0_def)
  have "fst ` S \<inter> (fst ` allocated (k_heap k0) \<union> objects k0) = {}" using g(1) unfolding grown_def Int_Un_distrib by simp
  then show "fst ` S \<inter> (fst ` allocated (k_heap k) \<union> objects k) = {}" unfolding ob by (simp add: k0_def)
  show "k_frames k' = k_frames k" "heap_ok base (k_heap k')" "allocated (k_heap k') = S \<union> allocated (k_heap k)"
    "a \<notin> fst ` S \<Longrightarrow> k_mms k' a = k_mms k a \<and> k_vmas k' a = k_vmas k a \<and> k_files k' a = k_files k a \<and> k_inodes k' a = k_inodes k a"
    using g(1) unfolding grown_def k0_def by simp_all
qed

lemma loaded_beside_old:
  assumes "caller L base k t xs pd0" and "loaded_beside L base k t pd0 i f q mm pd S ys k'"
  shows "space_owned L base k' (t_mm t) xs pd0" "space_parts k' (t_mm t) xs = space_parts k (t_mm t) xs"
    "user_tables (kmem (k_paging k')) pd0 1024 = user_tables (kmem (k_paging k)) pd0 1024"
    "space_frames (kmem (k_paging k')) pd0 1024 = space_frames (kmem (k_paging k)) pd0 1024"
    "page_aligned pd0" "pd0 \<noteq> pd" "fst ` S \<inter> space_parts k (t_mm t) xs = {}" "pt_ok L (k_paging k')" "frames_ok (k_frames k')"
    "pt_used L (k_paging k') = pt_used L (k_paging k)"
proof -
  note g = loaded_beside_grown [OF assms]
  have own: "space_owned L base k (t_mm t) xs pd0" using assms(1) by (simp add: caller_def)
  then have o: "pd_ok L (k_paging k)" "pt_ok L (k_paging k)" "frames_ok (k_frames k)" "pd0 \<in> pd_used L (k_paging k)"
    "user_tables (kmem (k_paging k)) pd0 1024 \<subseteq> pt_pages L" by (simp_all add: space_owned_def)
  have b: "pd \<in> pd_pages L" "pd \<notin> pd_used L (k_paging k)" "pd_ok L (k_paging k')" "pd_used L (k_paging k') = insert pd (pd_used L (k_paging k))"
    "pt_in_use (k_paging k') = pt_in_use (k_paging k)" "kernel_copy pd pd0 (kmem (k_paging k)) (kmem (k_paging k'))"
    using assms(2) by (simp_all add: loaded_beside_def)
  have so: "symbols_ok L" using o(1) by (simp add: pd_ok_def)
  have p0: "pd0 \<in> pd_pages L" using pd_pool.used_pages [OF o(1)] o(4) by (rule subsetD)
  show al0: "page_aligned pd0" by (rule pool_pages_apart(1) [OF so p0])
  show ne: "pd0 \<noteq> pd" using o(4) b(2) by metis
  have pt: "page_aligned b \<and> b \<noteq> pd" if "b \<in> pt_pages L" for b
    using pool_pages_apart(2) [OF so that] pool_pages_apart(3) [OF so] that b(1) by blast
  note ut = kernel_copy_keeps [OF b(6) al0 ne o(5) pt]
  show "user_tables (kmem (k_paging k')) pd0 1024 = user_tables (kmem (k_paging k)) pd0 1024" by (rule ut(1))
  show "space_frames (kmem (k_paging k')) pd0 1024 = space_frames (kmem (k_paging k)) pd0 1024" by (rule ut(2))
  have D: "space_parts k (t_mm t) xs \<subseteq> fst ` allocated (k_heap k)" by (rule space_parts_allocated [OF own])
  then show ND: "fst ` S \<inter> space_parts k (t_mm t) xs = {}" using g(9) by blast
  show pk: "pt_ok L (k_paging k')" "frames_ok (k_frames k')" "pt_used L (k_paging k') = pt_used L (k_paging k)"
    using b(5) o(2,3) g(6) by (simp_all add: pt_ok_def pt_used_def)
  have same: "k_mms k' a = k_mms k a \<and> k_vmas k' a = k_vmas k a \<and> k_files k' a = k_files k a \<and> k_inodes k' a = k_inodes k a"
    if "a \<in> space_parts k (t_mm t) xs" for a using ND that by (intro g(10)) blast
  have al: "space_parts k (t_mm t) xs \<subseteq> fst ` allocated (k_heap k')" using D unfolding g(8) image_Un by (rule le_supI2)
  have u: "pd0 \<in> pd_used L (k_paging k')" using o(4) b(4) by simp
  note sp = space_owned_agree [OF own same al g(7,1) b(3) pk(1,2) u ut]
  show "space_owned L base k' (t_mm t) xs pd0" by (rule sp(1))
  show "space_parts k' (t_mm t) xs = space_parts k (t_mm t) xs" by (rule sp(2))
qed

lemma loaded_beside_new:
  assumes "caller L base k t xs pd0" and "loaded_beside L base k t pd0 i f q mm pd S ys k'"
  shows "space_owned L base k' mm ys pd" "space_parts k' mm ys \<subseteq> fst ` S" "user_tables (kmem (k_paging k')) pd 1024 = {}"
    "user_tables (cleared pd0 1024 (kmem (k_paging k'))) pd 1024 = {}"
proof -
  note o = loaded_beside_old [OF assms]
  obtain k0 where im: "new_image L base k0 f mm pd {f, q, mm} S k' ys" using assms(2) unfolding loaded_beside_def by blast
  have b: "mm \<noteq> 0" "k_files k' f = Some \<lparr>f_inode = q, f_pos = 0\<rparr>" "k_inodes k' q = Some i" "pd_ok L (k_paging k')" "pd \<in> pd_used L (k_paging k')"
    "page_aligned pd" "kernel_copy pd pd0 (kmem (k_paging k)) (kmem (k_paging k'))"
    using assms(2) by (simp_all add: loaded_beside_def)
  note t = new_directory_tables [OF b(7,6) o(5) o(6) [symmetric]]
  note w = image_owned [OF im b(2,3,1,4) o(8,9) b(5) t(1)]
  show "user_tables (kmem (k_paging k')) pd 1024 = {}" by (rule t(1))
  show "user_tables (cleared pd0 1024 (kmem (k_paging k'))) pd 1024 = {}" by (rule t(2))
  show "space_owned L base k' mm ys pd" by (rule w(1))
  show "space_parts k' mm ys \<subseteq> fst ` S" by (rule w(2))
qed

text \<open>What is left of the old image afterwards, and what there is of the new one.\<close>

lemma execve_replaces:
  assumes "caller L base k t xs pd0" and "loaded_beside L base k t pd0 i f q mm pd S ys k1"
  defines "D \<equiv> space_parts k (t_mm t) xs"
  obtains k2 k3 where "release_mm L (t_mm t) k1 = Ret () k3" "shrunk base D k1 k2" "k3 = k2\<lparr>k_paging := k_paging k3, k_frames := k_frames k3\<rparr>"
    "replaced ({f, q, mm} \<union> set ys) D k k3" "caller L base k3 (t\<lparr>t_mm := mm, t_cr3 := get_pd_lma pd\<rparr>) ys pd" "k_tasks k3 = k_tasks k1"
    "pd_used L (k_paging k3) = insert pd (pd_used L (k_paging k)) - {pd0}"
    "pt_used L (k_paging k3) = pt_used L (k_paging k) - user_tables (kmem (k_paging k)) pd0 1024"
    "frames_used (k_frames k3) = frames_used (k_frames k) - space_frames (kmem (k_paging k)) pd0 1024"
    "kmem (k_paging k3) = cleared pd0 1024 (kmem (k_paging k1))"
proof -
  note g = loaded_beside_grown [OF assms(1,2)] and o = loaded_beside_old [OF assms(1,2), folded D_def] and n = loaded_beside_new [OF assms(1,2)]
  have b: "k_tasks k1 = (k_tasks k)(current_task k \<mapsto> t\<lparr>t_mm := mm, t_cr3 := get_pd_lma pd\<rparr>)" "current_task k1 = current_task k"
    "pd_used L (k_paging k1) = insert pd (pd_used L (k_paging k))" using assms(2) by (simp_all add: loaded_beside_def)
  from release_mm_releases [OF o(1)] obtain k2 k3 where k3: "release_mm L (t_mm t) k1 = Ret () k3" "shrunk base D k1 k2"
    "k3 = k2\<lparr>k_paging := k_paging k3, k_frames := k_frames k3\<rparr>"
    "pd_ok L (k_paging k3)" "pt_ok L (k_paging k3)" "frames_ok (k_frames k3)" "pd_used L (k_paging k3) = pd_used L (k_paging k1) - {pd0}"
    "pt_used L (k_paging k3) = pt_used L (k_paging k1) - user_tables (kmem (k_paging k1)) pd0 1024"
    "frames_used (k_frames k3) = frames_used (k_frames k1) - space_frames (kmem (k_paging k1)) pd0 1024"
    "kmem (k_paging k3) = cleared pd0 1024 (kmem (k_paging k1))" unfolding released_def o(2) by blast
  note sel = shrunk_sel [OF k3(2)]
  have s3: "k_heap k3 = k_heap k2" "k_tasks k3 = k_tasks k2" "k_mms k3 = k_mms k2" "k_vmas k3 = k_vmas k2" "k_files k3 = k_files k2" "k_inodes k3 = k_inodes k2"
    "k_machine k3 = k_machine k1" "current_task k3 = current_task k" by (subst k3(3), simp add: sel b(2))+
  have tk: "k_tasks k3 = k_tasks k1" unfolding s3(2) sel(1) using space_apart [OF o(1)] unfolding o(2) by (rule without_disjoint)
  have al: "fst ` allocated (k_heap k3) = fst ` allocated (k_heap k1) - D" using k3(2) unfolding s3(1) by (force simp: shrunk_def)
  have "fst ` allocated (k_heap k3) = fst ` S \<union> (fst ` allocated (k_heap k) - D)" unfolding al g(8) image_Un using o(7) by blast
  then have rep: "replaced ({f, q, mm} \<union> set ys) D k k3"
    using g(9,10) unfolding replaced_def s3(3-6) sel(2-5) g(3) [symmetric] by (simp add: without_def)
  have d: "x \<notin> D" if "x \<in> space_parts k1 mm ys" for x using subsetD [OF n(2) that] o(7) by blast
  have "space_parts k1 mm ys \<subseteq> fst ` allocated (k_heap k3)" unfolding al using d space_parts_allocated [OF n(1)] by blast
  moreover have "heap_ok base (k_heap k3)" using k3(2) by (simp add: s3 shrunk_def)
  moreover have "typed_stores k3" using typed_stores_shrunk [OF g(1) k3(2)] by (simp add: typed_stores_def s3)
  moreover have "pd \<in> pd_used L (k_paging k3)" using b(3) o(6) by (simp add: k3(7))
  moreover have "user_tables (kmem (k_paging k3)) pd 1024 = user_tables (kmem (k_paging k1)) pd 1024"
    "space_frames (kmem (k_paging k3)) pd 1024 = space_frames (kmem (k_paging k1)) pd 1024" unfolding space_frames_def n(3) k3(10) n(4) by simp_all
  moreover have "k_mms k3 a = k_mms k1 a \<and> k_vmas k3 a = k_vmas k1 a \<and> k_files k3 a = k_files k1 a \<and> k_inodes k3 a = k_inodes k1 a"
    if "a \<in> space_parts k1 mm ys" for a using d [OF that] by (simp add: s3 sel without_def)
  ultimately have own: "space_owned L base k3 mm ys pd" using space_owned_agree(1) [OF n(1), of k3] k3(4-6) by blast
  have "objects_ok L base k2" by (rule shrunk_objects_ok [OF g(2) k3(2)])
  then have "objects_ok L base k3" by (simp add: objects_ok_def objects_def s3)
  then have call: "caller L base k3 (t\<lparr>t_mm := mm, t_cr3 := get_pd_lma pd\<rparr>) ys pd"
    unfolding caller_def using own g(4) by (simp add: s3(7,8) tk b(1))
  show ?thesis by (rule that [OF k3(1,2,3) rep call tk]) (simp_all add: k3(7-10) b(3) o(3,4,10) g(6))
qed

lemma mm_areas_agree:
  assumes "k_mms k' mm = k_mms k mm" and "\<And>a. a \<in> set xs \<Longrightarrow> k_vmas k' a = k_vmas k a"
  shows "mm_areas k' mm xs = mm_areas k mm xs"
proof -
  have "vma_at (k_vmas k') a = vma_at (k_vmas k) a" if "a \<in> set xs" for a using assms(2) [OF that] by (simp add: vma_at_def)
  then have "areas_ok (k_vmas k') xs = areas_ok (k_vmas k) xs"
    using areas_ok_cong [of xs "k_vmas k" "k_vmas k'"] areas_ok_cong [of xs "k_vmas k'" "k_vmas k"] by auto
  then show ?thesis using assms(1) vma_seg_cong [of xs "k_vmas k'" "k_vmas k", OF assms(2)] by (simp add: mm_areas_def vma_chain_def)
qed

lemma caller_announce:
  assumes "caller L base k t xs pd"
  shows "caller L base (on_machine (announce u) k) t xs pd"
proof -
  let ?k = "on_machine (announce u) k"
  have k: "k_heap ?k = k_heap k" "k_mms ?k = k_mms k" "k_vmas ?k = k_vmas k" "k_files ?k = k_files k" "k_inodes ?k = k_inodes k"
    "k_paging ?k = k_paging k" "k_frames ?k = k_frames k" "k_tasks ?k = k_tasks k" "current_task ?k = current_task k"
    "get_cr3 (k_machine ?k) = get_cr3 (k_machine k)" by (simp_all add: on_machine_def get_cr3_def)
  have "dom (k_tasks ?k) = dom (k_tasks k)" by (simp add: k(8))
  from space_owned_cong(1) [OF k(1-7) this] assms show ?thesis unfolding caller_def k(8-10) by (simp add: objects_ok_def objects_def k)
qed

text \<open>
  The call with all that it needs: a caller in order, a directory to be had, a healthy disk on which the path in user memory names an executable,
  and a free block on the heap that is large enough for the new objects.
\<close>

definition can_execve :: "call_env \<Rightarrow> (io_event list \<Rightarrow> nat) \<Rightarrow> nat \<Rightarrow> (nat \<Rightarrow> u8 list) \<Rightarrow> u32 \<Rightarrow> kernel \<Rightarrow> task_t \<Rightarrow> u32 list \<Rightarrow> u32 \<Rightarrow> u32 \<Rightarrow> minix_inode \<Rightarrow> u8 list \<Rightarrow> elf32_phdr_t list \<Rightarrow> bool" where
  "can_execve C T K img base k t xs pd a i hb phs \<longleftrightarrow> (let blk = block_of (sectors_of img); L = c_symbols C in
     caller L base k t xs pd \<and> pd_used L (k_paging k) \<noteq> pd_pages L \<and> healthy_inv (c_env C) T K img (k_disk k, k_machine k)
     \<and> (\<exists>p. user_string k a p \<and> path_ok p \<and> resolves blk (k_super k) (spec_inode blk (k_super k) MINIX_ROOT_INODE) (path_names p) (Some i))
     \<and> length (c_components C) = 992 \<and> executable blk i hb phs \<and> c_phdr C \<noteq> 0
     \<and> has_room (k_heap k) (160 + 52 * length (concat (map segment_spans phs))))"

text \<open>
  The effect of a successful call on the kernel: the task, otherwise unchanged, runs in the new address space \<open>mm\<close> with the directory \<open>pd\<close>, whose areas
  are those of the stack and the segments of the file \<open>f\<close>; the objects, the directory, the tables and the frames of the old one have been given back.
\<close>

definition executed :: "symbols \<Rightarrow> u32 \<Rightarrow> kernel \<Rightarrow> task_t \<Rightarrow> u32 list \<Rightarrow> u32 \<Rightarrow> minix_inode \<Rightarrow> elf32_phdr_t list \<Rightarrow> u32 \<Rightarrow> u32 \<Rightarrow> u32 \<Rightarrow> u32 list \<Rightarrow> kernel \<Rightarrow> bool" where
  "executed L base k t xs pd0 i phs f mm pd ys k' \<longleftrightarrow> (let t' = t\<lparr>t_mm := mm, t_cr3 := get_pd_lma pd\<rparr> in
     caller L base k' t' ys pd \<and> k_tasks k' = (k_tasks k)(current_task k \<mapsto> t') \<and> current_task k' = current_task k
     \<and> mm_areas k' mm ys \<and> area_span k' ` set ys = set (stack_span # concat (map segment_spans phs))
     \<and> list_all (segment_mapped k' ys f) phs \<and> is_area k' ys USER_STACK_BASE USER_STACK_TOP 0 0
     \<and> f \<noteq> 0 \<and> (\<exists>q. k_files k' f = Some \<lparr>f_inode = q, f_pos = 0\<rparr> \<and> k_inodes k' q = Some i
          \<and> replaced ({f, q, mm} \<union> set ys) (space_parts k (t_mm t) xs) k k')
     \<and> pd \<notin> pd_used L (k_paging k) \<and> pd_used L (k_paging k') = insert pd (pd_used L (k_paging k)) - {pd0}
     \<and> pt_used L (k_paging k') = pt_used L (k_paging k) - user_tables (kmem (k_paging k)) pd0 1024
     \<and> frames_used (k_frames k') = frames_used (k_frames k) - space_frames (kmem (k_paging k)) pd0 1024
     \<and> inherits (kmem (k_paging k)) pd0 (kmem (k_paging k')) pd
     \<and> k_phys k' = k_phys k \<and> k_interrupts k' = k_interrupts k \<and> eflags (k_machine k') = eflags (k_machine k))"

lemma execve_succeeds:
  assumes "can_execve C T K img base k t xs pd0 (ebx regs) i hb phs"
  shows "\<exists>k' f mm pd ys. sys_execve C regs k = Ret (Some (0, started (e_entry (ehdr_of hb)) regs)) k'
    \<and> executed (c_symbols C) base k t xs pd0 i phs f mm pd ys k' \<and> healthy_inv (c_env C) T K img (k_disk k', k_machine k')"
proof -
  let ?L = "c_symbols C" and ?D = "space_parts k (t_mm t) xs"
  obtain p where c: "caller ?L base k t xs pd0" "pd_used ?L (k_paging k) \<noteq> pd_pages ?L" "healthy_inv (c_env C) T K img (k_disk k, k_machine k)"
    "user_string k (ebx regs) p" "path_ok p" "length (c_components C) = 992"
    "resolves (block_of (sectors_of img)) (k_super k) (spec_inode (block_of (sectors_of img)) (k_super k) MINIX_ROOT_INODE) (path_names p) (Some i)"
    "executable (block_of (sectors_of img)) i hb phs" "c_phdr C \<noteq> 0" "has_room (k_heap k) (160 + 52 * length (concat (map segment_spans phs)))"
    using assms unfolding can_execve_def Let_def by blast
  obtain f q mm pd ys S k1 where e: "sys_execve C regs k = and_then (release_mm ?L (t_mm t) k1) (\<lambda>_. with_task (current_task k) (\<lambda>t k.
        Ret (Some (0, started (e_entry (ehdr_of hb)) regs)) (on_machine (announce t) k)))"
    and b: "loaded_beside ?L base k t pd0 i f q mm pd S ys k1" and f: "f \<noteq> 0"
    and r: "k_interrupts k1 = k_interrupts k" "k_phys k1 = k_phys k" "healthy_inv (c_env C) T K img (k_disk k1, k_machine k1)"
    "eflags (k_machine k1) = eflags (k_machine k)" "list_all (segment_mapped k1 ys f) phs" "is_area k1 ys USER_STACK_BASE USER_STACK_TOP 0 0"
    "area_span k1 ` set ys = set (stack_span # concat (map segment_spans phs))" by (rule execve_loads [OF c])
  let ?t = "t\<lparr>t_mm := mm, t_cr3 := get_pd_lma pd\<rparr>"
  obtain k2 k3 where x: "release_mm ?L (t_mm t) k1 = Ret () k3" "shrunk base ?D k1 k2" "k3 = k2\<lparr>k_paging := k_paging k3, k_frames := k_frames k3\<rparr>"
    "replaced ({f, q, mm} \<union> set ys) ?D k k3" "caller ?L base k3 ?t ys pd" "k_tasks k3 = k_tasks k1"
    and pools: "pd_used ?L (k_paging k3) = insert pd (pd_used ?L (k_paging k)) - {pd0}"
    "pt_used ?L (k_paging k3) = pt_used ?L (k_paging k) - user_tables (kmem (k_paging k)) pd0 1024"
    "frames_used (k_frames k3) = frames_used (k_frames k) - space_frames (kmem (k_paging k)) pd0 1024"
    "kmem (k_paging k3) = cleared pd0 1024 (kmem (k_paging k1))" by (rule execve_replaces [OF c(1) b])
  note g = loaded_beside_grown [OF c(1) b] and o = loaded_beside_old [OF c(1) b]
  have l: "k_tasks k1 = (k_tasks k)(current_task k \<mapsto> ?t)" "k_files k1 f = Some \<lparr>f_inode = q, f_pos = 0\<rparr>" "k_inodes k1 q = Some i"
    "current_task k1 = current_task k" "pd \<notin> pd_used ?L (k_paging k)" "page_aligned pd" "kernel_copy pd pd0 (kmem (k_paging k)) (kmem (k_paging k1))"
    using b by (simp_all add: loaded_beside_def)
  have d: "a \<notin> ?D" if "a \<in> {f, q, mm} \<union> set ys" for a using o(7) that unfolding g(3) by blast
  define k' where "k' = on_machine (announce ?t) k3"
  have res: "sys_execve C regs k = Ret (Some (0, started (e_entry (ehdr_of hb)) regs)) k'"
    unfolding e x(1) k'_def using x(6) l(1) by (simp add: with_task_def)
  have s3: "k_mms k3 = without ?D (k_mms k1)" "k_vmas k3 = without ?D (k_vmas k1)" "k_files k3 = without ?D (k_files k1)" "k_inodes k3 = without ?D (k_inodes k1)"
    "k_machine k3 = k_machine k1" "current_task k3 = current_task k1" "k_phys k3 = k_phys k1"
    by (subst x(3), simp add: shrunk_sel [OF x(2)])+
  have s': "k_interrupts k' = k_interrupts k1" "k_disk k' = k_disk k1" unfolding k'_def on_machine_def
    by (subst x(3), subst shrunk_def [THEN iffD1, OF x(2), THEN conjunct2, THEN conjunct2], simp)+
  have v: "k_vmas k' a = k_vmas k1 a" if "a \<in> set ys" for a using d [of a] that by (simp add: k'_def on_machine_def s3 without_def)
  then have at: "vma_at (k_vmas k') a = vma_at (k_vmas k1) a" if "a \<in> set ys" for a using that by (simp add: vma_at_def)
  have kept: "areas_kept k1 ys k' ys" using at by (simp add: areas_kept_def)
  have "area_span k' ` set ys = area_span k1 ` set ys" using at by (intro image_cong) (simp_all add: area_span_def)
  moreover have "mm_areas k' mm ys" using g(5) mm_areas_agree [of k' mm k1 ys] v d [of mm] by (simp add: k'_def on_machine_def s3 without_def)
  moreover have "caller ?L base k' ?t ys pd" unfolding k'_def by (rule caller_announce [OF x(5)])
  moreover have "replaced ({f, q, mm} \<union> set ys) ?D k k'" using x(4) by (simp add: replaced_def k'_def on_machine_def)
  moreover have "inherits (kmem (k_paging k)) pd0 (kmem (k_paging k')) pd"
    using new_directory [OF l(7,6) o(5) o(6) [symmetric]] pools(4) by (simp add: k'_def on_machine_def)
  moreover have "list_all (segment_mapped k' ys f) phs" "is_area k' ys USER_STACK_BASE USER_STACK_TOP 0 0"
    using r(5,6) segment_mapped_kept [OF _ kept] is_area_kept [OF _ kept] by (auto simp: list_all_iff)
  moreover have "k_files k' f = Some \<lparr>f_inode = q, f_pos = 0\<rparr>" "k_inodes k' q = Some i" "k_tasks k' = (k_tasks k)(current_task k \<mapsto> ?t)"
    "current_task k' = current_task k" "k_phys k' = k_phys k" "k_interrupts k' = k_interrupts k" "eflags (k_machine k') = eflags (k_machine k)"
    "healthy_inv (c_env C) T K img (k_disk k', k_machine k')"
    using d [of f] d [of q] l(1-4) r(1-4) healthy_machine [of "c_env C" T K img "k_disk k1" "k_machine k1"] s' x(6)
    by (simp_all add: k'_def on_machine_def s3 without_def)
  moreover have "pd_used ?L (k_paging k') = insert pd (pd_used ?L (k_paging k)) - {pd0}"
    "pt_used ?L (k_paging k') = pt_used ?L (k_paging k) - user_tables (kmem (k_paging k)) pd0 1024"
    "frames_used (k_frames k') = frames_used (k_frames k) - space_frames (kmem (k_paging k)) pd0 1024" using pools(1-3) by (simp_all add: k'_def on_machine_def)
  ultimately have "executed ?L base k t xs pd0 i phs f mm pd ys k'" unfolding executed_def Let_def using f l(5) r(7)
    by (intro conjI exI [of _ q]) simp_all
  then show ?thesis using res \<open>healthy_inv (c_env C) T K img (k_disk k', k_machine k')\<close> by blast
qed

section \<open>Objects and their types\<close>

text \<open>Every object is in a region that is in use, or is the idle task, and no address holds objects of two types.\<close>

definition objects_typed :: "symbols \<Rightarrow> u32 \<Rightarrow> kernel \<Rightarrow> bool" where
  "objects_typed L base k \<longleftrightarrow> objects_ok L base k \<and> typed_stores k"

lemma same_objects_typed:
  assumes "objects_typed L base k" and "heap_ok base (k_heap k')" and "allocated (k_heap k') = allocated (k_heap k)" and "k_tasks k' = k_tasks k"
    and "k_mms k' = k_mms k" and "k_vmas k' = k_vmas k" and "k_files k' = k_files k" and "k_inodes k' = k_inodes k"
  shows "objects_typed L base k'"
  using assms by (simp add: objects_typed_def objects_ok_def objects_def typed_stores_def)

lemma do_mmap_typed:
  assumes "objects_typed L base k" and "k_tasks k (current_task k) = Some t" and "mm_areas k (t_mm t) xs"
    and "unat addr + unat len + 4095 < 4294967296" and "0 < len"
  shows "\<exists>r k'. do_mmap addr len f offset k = Ret r k' \<and> objects_typed L base k'"
proof -
  have ok: "objects_ok L base k" "typed_stores k" using assms(1) by (simp_all add: objects_typed_def)
  note dc = do_mmap_cases [OF ok(1) assms(2-5), of f offset]
  then obtain r k' where r: "do_mmap addr len f offset k = Ret r k'" by blast
  show ?thesis
  proof (cases "r = 0")
    case True
    then have "grown L base {} k k'" using dc r by auto
    note n = grown_nothing [OF this]
    show ?thesis using r same_objects_typed [OF assms(1) n(9,1-6)] by blast
  next
    case False
    then obtain as bs v m where a: "area_added k k' (t_mm t) as bs r v" "r \<notin> objects k" "heap_ok base (k_heap k')"
      "allocated (k_heap k') = insert (r, m) (allocated (k_heap k))" using dc r by auto
    have d: "dom (k_vmas k') = insert r (dom (k_vmas k))" and p: "\<And>x. map_option mm_pgd (k_mms k' x) = map_option mm_pgd (k_mms k x)"
      and eq: "k' = k\<lparr>k_heap := k_heap k', k_vmas := k_vmas k', k_mms := k_mms k'\<rparr>" using a(1) unfolding area_added_def by blast+
    have st: "k_tasks k' = k_tasks k" "k_files k' = k_files k" "k_inodes k' = k_inodes k" by (subst eq, simp)+
    have "k_mms k' x = None \<longleftrightarrow> k_mms k x = None" for x using p [of x] by (metis option.map_disc_iff)
    then have dm: "dom (k_mms k') = dom (k_mms k)" unfolding dom_def by simp
    have "objects k' = insert r (objects k)" unfolding objects_def st d dm by simp
    then have "objects_ok L base k'" using ok(1) a(3,4) by (auto simp: objects_ok_def)
    then show ?thesis using r typed_stores_vma [OF ok(2) a(2) d dm st] unfolding objects_typed_def by blast
  qed
qed

lemma create_task_typed:
  assumes "objects_typed L base k" and "pd_ok L (k_paging k)" and "get_pd_vma (get_cr3 (k_machine k)) \<notin> pd_pages L - pd_used L (k_paging k)"
  shows "\<exists>a k'. create_task L par k = Ret a k' \<and> objects_typed L base k'"
proof -
  have ok: "objects_ok L base k" "typed_stores k" using assms(1) by (simp_all add: objects_typed_def)
  from create_task_cases [OF ok(1) assms(2,3)] obtain a k' where a: "create_task L par k = Ret a k'" "heap_ok base (k_heap k')"
    "if a = 0 then same_resources L k k' else fresh_task L a par k k'" by blast
  show ?thesis
  proof (cases "a = 0")
    case True
    then show ?thesis using a same_objects_typed [OF assms(1) a(2)] by (auto simp: same_resources_def)
  next
    case False
    then obtain u x stack mm m1 m2 m3 where n: "k_tasks k' = (k_tasks k)(a \<mapsto> u)" "k_mms k' = (k_mms k)(mm \<mapsto> x)"
      "allocated (k_heap k') = {(a, m1), (stack, m2), (mm, m3)} \<union> allocated (k_heap k)" "a \<noteq> mm" "a \<notin> objects k" "mm \<notin> objects k"
      "k_vmas k' = k_vmas k" "k_files k' = k_files k" "k_inodes k' = k_inodes k" using a(3) by (auto simp: fresh_task_def)
    have "objects k' = insert a (insert mm (objects k))" unfolding objects_def n by auto
    then have "objects_ok L base k'" using ok(1) a(2) n(3) by (auto simp: objects_ok_def)
    moreover have "typed_stores k'" using ok(2) n(4-6) unfolding typed_stores_def n(1,2,7-9) objects_def by simp
    ultimately show ?thesis using a(1) by (auto simp: objects_typed_def)
  qed
qed

lemma release_mm_typed:
  assumes "objects_typed L base k" and "space_owned L base k mm xs pd"
  shows "\<exists>k'. release_mm L mm k = Ret () k' \<and> objects_typed L base k'"
proof -
  have ok: "objects_ok L base k" "typed_stores k" using assms(1) by (simp_all add: objects_typed_def)
  from release_mm_releases [OF assms(2)] obtain k' k1 where k: "release_mm L mm k = Ret () k'" "shrunk base (space_parts k mm xs) k k1"
    "k' = k1\<lparr>k_paging := k_paging k', k_frames := k_frames k'\<rparr>" unfolding released_def by blast
  have "objects_typed L base k1" using shrunk_objects_ok [OF ok(1) k(2)] typed_stores_shrunk [OF ok(2) k(2)] by (simp add: objects_typed_def)
  moreover have "heap_ok base (k_heap k1)" using k(2) by (simp add: shrunk_def)
  moreover have "k_heap k' = k_heap k1" "k_tasks k' = k_tasks k1" "k_mms k' = k_mms k1" "k_vmas k' = k_vmas k1" "k_files k' = k_files k1" "k_inodes k' = k_inodes k1"
    by (subst k(3), simp)+
  ultimately show ?thesis using k(1) same_objects_typed [of L base k1 k'] by auto
qed

section \<open>The new program\<close>

lemma inherited_walk:
  assumes "inherits mem pd0 mem' pd" and "\<And>i. unat i < 1024 \<Longrightarrow> kernel_entry (mem (slot pd0 i)) \<Longrightarrow> get_pd_vma (mem (slot pd0 i)) \<notin> {pd, pd0}"
  shows "page_walk mem' pd v = (if kernel_entry (mem (slot pd0 (pde_index v))) then page_walk mem pd0 v else None)"
proof (cases "kernel_entry (mem (slot pd0 (pde_index v)))")
  case True
  let ?t = "get_pd_vma (mem (slot pd0 (pde_index v)))"
  have "mem' (slot ?t (pte_index v)) = mem (slot ?t (pte_index v))" using assms(1) assms(2) [OF _ True] by (simp add: inherits_def)
  then show ?thesis using True assms(1) by (simp add: inherits_def page_walk_def Let_def)
qed (use assms(1) in \<open>simp add: inherits_def page_walk_def\<close>)

lemma user_frame_walk:
  assumes "p \<in> space_frames mem pd 1024"
  shows "\<exists>v g. page_walk mem pd v = Some (p, g) \<and> user_entry (mem (slot pd (pde_index v)))"
proof -
  obtain j l where j: "j < 1024" "user_entry (mem (slot pd (of_nat j)))" "l < 1024"
    "p = page_of (mem (slot (get_pd_vma (mem (slot pd (of_nat j)))) (of_nat l)))"
    "mem (slot (get_pd_vma (mem (slot pd (of_nat j)))) (of_nat l)) AND PAGE_FLAG_PRESENT \<noteq> 0"
    using assms by (auto simp: space_frames_def user_tables_def table_frames_def)
  define v :: u32 where "v = of_nat (j * 4194304 + l * 4096)"
  have u: "unat v = j * 4194304 + l * 4096" unfolding v_def using j(1,3) by (intro unat_of_nat_u32) simp
  have "unat (pde_index v) = j" unfolding unat_pde_index u using j(3) by simp
  then have 1: "pde_index v = of_nat j" using j(1) by (simp add: word_unat_eq_iff)
  have "unat (pte_index v) = (j * 1024 + l) mod 1024" unfolding unat_pte_index u using j(3) by simp
  then have 2: "pte_index v = of_nat l" using j(3) by (simp add: word_unat_eq_iff)
  show ?thesis using j exI [of "\<lambda>v. \<exists>g. page_walk mem pd v = Some (p, g) \<and> user_entry (mem (slot pd (pde_index v)))" v] by (simp add: page_walk_def 1 2 Let_def user_entry_def page_of_def)
qed

lemma inherited_entry:
  assumes "inherits mem pd0 mem' pd" and "pde_present mem' pd i"
  shows "unat i < 1024" "kernel_entry (mem (slot pd0 i))" "pde_present mem pd0 i" "table_of mem' pd i = table_of mem pd0 i"
proof -
  show i: "unat i < 1024" using assms(2) by (simp add: pde_present_def)
  then have eq: "mem' (slot pd i) = (if kernel_entry (mem (slot pd0 i)) then mem (slot pd0 i) else 0)" using assms(1) by (simp add: inherits_def)
  then show k: "kernel_entry (mem (slot pd0 i))" using assms(2) by (cases "kernel_entry (mem (slot pd0 i))") (simp_all add: pde_present_def)
  then show "pde_present mem pd0 i" "table_of mem' pd i = table_of mem pd0 i" using eq i by (simp_all add: pde_present_def table_of_def kernel_entry_def)
qed

lemma inherited_table:
  assumes "tables_ok mem pd0" and "pde_present mem pd0 i" and "kernel_entry (mem (slot pd0 i))"
  shows "table_of mem pd0 i \<notin> user_tables mem pd0 1024"
proof
  assume "table_of mem pd0 i \<in> user_tables mem pd0 1024"
  then obtain j where j: "j < 1024" "user_entry (mem (slot pd0 (of_nat j)))" "table_of mem pd0 i = table_of mem pd0 (of_nat j)"
    unfolding user_tables_def table_of_def by blast
  then have "pde_present mem pd0 (of_nat j)" by (simp add: pde_present_def user_entry_def)
  then have "i = of_nat j" using assms(1,2) j(3) unfolding tables_ok_def by blast
  then show False using assms(3) j(2) by (simp add: kernel_entry_def user_entry_def)
qed

lemma inherited_tables_ok:
  assumes "tables_ok mem pd0" and "inherits mem pd0 mem' pd" and "page_aligned pd"
    and "\<And>i. unat i < 1024 \<Longrightarrow> kernel_entry (mem (slot pd0 i)) \<Longrightarrow> get_pd_vma (mem (slot pd0 i)) \<noteq> pd"
  shows "tables_ok mem' pd"
proof -
  note e = inherited_entry [OF assms(2)]
  have a: "table_of mem' pd i \<noteq> 0" "table_of mem' pd i \<noteq> pd" if i: "pde_present mem' pd i" for i
  proof -
    show "table_of mem' pd i \<noteq> 0" unfolding e(4) [OF i] using assms(1) e(3) [OF i] unfolding tables_ok_def by blast
    show "table_of mem' pd i \<noteq> pd" unfolding e(4) [OF i] using assms(4) [OF e(1,2) [OF i]] by (simp add: table_of_def)
  qed
  have b: "i = j" if i: "pde_present mem' pd i" and j: "pde_present mem' pd j" and t: "table_of mem' pd i = table_of mem' pd j" for i j
    using assms(1) e(3) [OF i] e(3) [OF j] t unfolding e(4) [OF i] e(4) [OF j] tables_ok_def by blast
  show ?thesis unfolding tables_ok_def using assms(3) a b by blast
qed

lemma inherited_space:
  assumes "space_ok L k pd0" and "inherits (kmem (k_paging k)) pd0 (kmem (k_paging k')) pd" and "page_aligned pd" and "pd \<notin> pt_pages L"
    and "\<And>i. unat i < 1024 \<Longrightarrow> kernel_entry (kmem (k_paging k) (slot pd0 i)) \<Longrightarrow> get_pd_vma (kmem (k_paging k) (slot pd0 i)) \<noteq> pd"
    and "pt_ok L (k_paging k')" and "frames_ok (k_frames k')"
    and "pt_used L (k_paging k') = pt_used L (k_paging k) - user_tables (kmem (k_paging k)) pd0 1024"
    and "frames_used (k_frames k') = frames_used (k_frames k) - space_frames (kmem (k_paging k)) pd0 1024"
  shows "space_ok L k' pd"
proof -
  let ?m = "kmem (k_paging k)" and ?m' = "kmem (k_paging k')"
  note sp = assms(1) [unfolded space_ok_def]
  have s1: "tables_ok ?m pd0" using sp by (elim conjE)
  have "\<forall>i. pde_present ?m pd0 i \<longrightarrow> table_of ?m pd0 i \<in> pt_pages L \<longrightarrow> table_of ?m pd0 i \<in> pt_used L (k_paging k)" using sp by (elim conjE)
  note s2 = this [rule_format]
  have "\<forall>w p g. page_walk ?m pd0 w = Some (p, g) \<longrightarrow> p \<in> user_frames \<longrightarrow> p \<in> frames_used (k_frames k)" using sp by (elim conjE)
  note s3 = this [rule_format]
  have "\<forall>v w p g h. page_walk ?m pd0 v = Some (p, g) \<longrightarrow> page_walk ?m pd0 w = Some (p, h) \<longrightarrow> p \<in> user_frames \<longrightarrow> page_of v = page_of w" using sp by (elim conjE)
  note s4 = this [rule_format]
  have t0: "table_of ?m pd0 i \<noteq> 0 \<and> table_of ?m pd0 i \<noteq> pd0" if "pde_present ?m pd0 i" for i using s1 that by (simp add: tables_ok_def)
  have ke: "pde_present ?m pd0 i" if "unat i < 1024" "kernel_entry (?m (slot pd0 i))" for i using that by (simp add: pde_present_def kernel_entry_def)
  have tn: "get_pd_vma (?m (slot pd0 i)) \<notin> {pd, pd0}" if "unat i < 1024" "kernel_entry (?m (slot pd0 i))" for i
    using assms(5) [OF that] t0 [OF ke [OF that]] by (simp add: table_of_def)
  note e = inherited_entry [OF assms(2)]
  have w: "kernel_entry (?m (slot pd0 (pde_index v))) \<and> page_walk ?m pd0 v = Some (p, g)" if "page_walk ?m' pd v = Some (p, g)" for v p g
    using inherited_walk [OF assms(2) tn] that by (auto split: if_splits)
  have tk: "tables_ok ?m' pd" by (rule inherited_tables_ok [OF s1 assms(2,3,5)])
  have pu: "table_of ?m' pd i \<in> pt_used L (k_paging k')" if i: "pde_present ?m' pd i" "table_of ?m' pd i \<in> pt_pages L" for i
    using e [OF i(1)] s2 [OF e(3) [OF i(1)]] i(2) inherited_table [OF s1 e(3,2) [OF i(1)]] by (simp add: assms(8))
  have fu: "p \<in> frames_used (k_frames k')" if p: "page_walk ?m' pd v = Some (p, g)" "p \<in> user_frames" for v p g
  proof -
    have "p \<notin> space_frames ?m pd0 1024"
    proof
      assume "p \<in> space_frames ?m pd0 1024"
      from user_frame_walk [OF this] obtain u h where u: "page_walk ?m pd0 u = Some (p, h)" "user_entry (?m (slot pd0 (pde_index u)))" by blast
      have "page_of u = page_of v" using s4 [OF u(1) _ p(2)] w [OF p(1)] by blast
      then show False using u(2) w [OF p(1)] by (simp add: same_page_iff kernel_entry_def user_entry_def)
    qed
    then show ?thesis using s3 [of v p g] w [OF p(1)] p(2) by (simp add: assms(9))
  qed
  have un: "page_of v = page_of u" if "page_walk ?m' pd v = Some (p, g)" "page_walk ?m' pd u = Some (p, h)" "p \<in> user_frames" for v u p g h
    using s4 [of v p g u h] w [OF that(1)] w [OF that(2)] that(3) by simp
  show ?thesis unfolding space_ok_def
    by (intro conjI allI impI; (rule tk assms(4,6,7) | erule (1) pu | erule (1) fu | erule (2) un))
qed

text \<open>The kernel's own tables are not pages of the pool of directories.\<close>

definition kernel_apart :: "symbols \<Rightarrow> (u32 \<Rightarrow> u32) \<Rightarrow> u32 \<Rightarrow> bool" where
  "kernel_apart L mem pd \<longleftrightarrow> (\<forall>i. unat i < 1024 \<and> kernel_entry (mem (slot pd i)) \<longrightarrow> get_pd_vma (mem (slot pd i)) \<notin> pd_pages L)"

lemma executed_running:
  assumes "caller L base k t xs pd0" and "running L k pd0 zs" and "kernel_apart L (kmem (k_paging k)) pd0"
    and "executed L base k t xs pd0 i phs f mm pd ys k'"
  shows "running L k' pd ys" "\<not> kernel_entry (kmem (k_paging k) (slot pd0 (pde_index a))) \<Longrightarrow> translate k' a = None"
proof -
  let ?t = "t\<lparr>t_mm := mm, t_cr3 := get_pd_lma pd\<rparr>"
  have r: "space_ok L k pd0" "current_task k \<noteq> 0" "exception_handlers (k_interrupts k) ! 14 = Some Page_fault_handler" using assms(2) unfolding running_def by blast+
  have x: "caller L base k' ?t ys pd" "k_tasks k' = (k_tasks k)(current_task k \<mapsto> ?t)" "current_task k' = current_task k" "mm_areas k' mm ys"
    "inherits (kmem (k_paging k)) pd0 (kmem (k_paging k')) pd" "k_interrupts k' = k_interrupts k"
    "pt_used L (k_paging k') = pt_used L (k_paging k) - user_tables (kmem (k_paging k)) pd0 1024"
    "frames_used (k_frames k') = frames_used (k_frames k) - space_frames (kmem (k_paging k)) pd0 1024"
    using assms(4) unfolding executed_def Let_def by blast+
  have own: "space_owned L base k' mm ys pd" "get_cr3 (k_machine k') = get_pd_lma pd" using x(1) by (simp_all add: caller_def)
  then have p: "pd_ok L (k_paging k')" "pt_ok L (k_paging k')" "frames_ok (k_frames k')" "pd \<in> pd_used L (k_paging k')" "mm \<noteq> 0"
    and m: "\<exists>m. k_mms k' mm = Some m \<and> mm_pgd m = pd" by (auto simp: space_owned_def)
  have so: "symbols_ok L" using p(1) by (simp add: pd_ok_def)
  have pp: "pd \<in> pd_pages L" using pd_pool.used_pages [OF p(1)] p(4) by (rule subsetD)
  have al: "page_aligned pd" "pd \<notin> pt_pages L" using pool_pages_apart(1) [OF so pp] pool_pages_apart(3) [OF so] pp by auto
  have t0: "get_pd_vma (kmem (k_paging k) (slot pd0 i)) \<noteq> pd" if "unat i < 1024" "kernel_entry (kmem (k_paging k) (slot pd0 i))" for i
    using assms(3) that pp unfolding kernel_apart_def by metis
  have "space_ok L k' pd" by (rule inherited_space [OF r(1) x(5) al t0 p(2,3) x(7,8)])
  then show "running L k' pd ys" unfolding running_def using r(2,3) x(2-4,6) own(2) p(5) m by auto
  have "get_pd_vma (kmem (k_paging k) (slot pd0 i)) \<notin> {pd, pd0}" if i: "unat i < 1024" "kernel_entry (kmem (k_paging k) (slot pd0 i))" for i
  proof -
    have "pde_present (kmem (k_paging k)) pd0 i" using i by (simp add: pde_present_def kernel_entry_def)
    then have "table_of (kmem (k_paging k)) pd0 i \<noteq> pd0" using r(1) unfolding space_ok_def tables_ok_def by blast
    then show ?thesis using t0 [OF i] by (simp add: table_of_def)
  qed
  from inherited_walk [OF x(5) this, of a] own(2) al(1)
  show "\<not> kernel_entry (kmem (k_paging k) (slot pd0 (pde_index a))) \<Longrightarrow> translate k' a = None" by (simp add: translate_def pd_address)
qed

lemma executed_room:
  assumes "caller L base k t xs pd0" and "executed L base k t xs pd0 i phs f mm pd ys k'"
    and "frames_used (k_frames k) \<noteq> user_frames" and "pt_used L (k_paging k) \<noteq> pt_pages L"
  shows "room_for L k' pd a"
proof -
  have x: "pt_used L (k_paging k') \<subseteq> pt_used L (k_paging k)" "frames_used (k_frames k') \<subseteq> frames_used (k_frames k)"
    using assms(2) unfolding executed_def Let_def by auto
  have "pt_used L (k_paging k) \<subseteq> pt_pages L" "frames_used (k_frames k) \<subseteq> user_frames"
    using assms(1) pt_pool.used_pages [of L "k_paging k"] frame_pool.used_pages [of "k_frames k"] by (simp_all add: caller_def space_owned_def)
  then show ?thesis using x assms(3,4) by (auto simp: room_for_def)
qed

lemma execve_program:
  assumes "can_execve C T K img base k t xs pd0 (ebx regs) i hb phs" and "running (c_symbols C) k pd0 zs"
    and "kernel_apart (c_symbols C) (kmem (k_paging k)) pd0"
    and "frames_used (k_frames k) \<noteq> user_frames" and "pt_used (c_symbols C) (k_paging k) \<noteq> pt_pages (c_symbols C)"
    and "\<forall>p < unat (i_size i). byte_at (block_of (sectors_of img)) i p \<noteq> None"
    and "ph \<in> set phs" and "p_type ph = ELF32_PT_LOAD" and "unat (p_offset ph) + unat (p_filesz ph) \<le> unat (i_size i)"
  shows "\<exists>k'. sys_execve C regs k = Ret (Some (0, started (e_entry (ehdr_of hb)) regs)) k' \<and>
    (\<forall>a. \<not> kernel_entry (kmem (k_paging k) (slot pd0 (pde_index a))) \<longrightarrow>
       (p_vaddr ph \<le> a \<and> a < p_vaddr ph + p_filesz ph \<longrightarrow> (\<exists>b k''. read_user (c_env C) (c_symbols C) a k' = Ret b k''
          \<and> byte_at (block_of (sectors_of img)) i (unat (p_offset ph) + (unat a - unat (p_vaddr ph))) = Some b))
     \<and> (zeros_start ph \<le> a \<and> a < p_vaddr ph + p_memsz ph \<or> USER_STACK_BASE \<le> a \<and> a < USER_STACK_TOP \<longrightarrow>
          (\<exists>k''. read_user (c_env C) (c_symbols C) a k' = Ret 0 k'')))"
proof -
  let ?E = "c_env C" and ?L = "c_symbols C" and ?st = "ph\<lparr>p_type := ELF32_PT_LOAD, p_vaddr := USER_STACK_BASE, p_filesz := 0, p_memsz := PAGE_SIZE\<rparr>"
  from execve_succeeds [OF assms(1)] obtain k' f mm pd ys where
    e: "sys_execve C regs k = Ret (Some (0, started (e_entry (ehdr_of hb)) regs)) k'" "executed ?L base k t xs pd0 i phs f mm pd ys k'"
      "healthy_inv ?E T K img (k_disk k', k_machine k')" by blast
  have c: "caller ?L base k t xs pd0" "list_all plain_segment phs" using assms(1) by (simp_all add: can_execve_def Let_def executable_def)
  obtain q where x: "list_all (segment_mapped k' ys f) phs" "is_area k' ys USER_STACK_BASE USER_STACK_TOP 0 0" "f \<noteq> 0"
    "k_files k' f = Some \<lparr>f_inode = q, f_pos = 0\<rparr>" "k_inodes k' q = Some i" using e(2) unfolding executed_def Let_def by blast
  have ki: "k_inodes k' (f_inode \<lparr>f_inode = q, f_pos = 0\<rparr>) = Some i" using x(5) by simp
  note run = executed_running [OF c(1) assms(2,3) e(2)] and room = executed_room [OF c(1) e(2) assms(4,5)]
  have sg: "segment_mapped k' ys f ph" "segment_fits ph" using x(1) c(2) assms(7) by (simp_all add: list_all_iff plain_segment_def)
  have st: "segment_mapped k' ys f ?st" "segment_fits ?st" "p_type ?st = ELF32_PT_LOAD"
    using x(2) by (simp_all add: segment_mapped_def segment_fits_def zeros_start_def align_down_def align_up_def)
  have "(p_vaddr ph \<le> a \<and> a < p_vaddr ph + p_filesz ph \<longrightarrow> (\<exists>b k''. read_user ?E ?L a k' = Ret b k''
          \<and> byte_at (block_of (sectors_of img)) i (unat (p_offset ph) + (unat a - unat (p_vaddr ph))) = Some b))
     \<and> (zeros_start ph \<le> a \<and> a < p_vaddr ph + p_memsz ph \<or> USER_STACK_BASE \<le> a \<and> a < USER_STACK_TOP \<longrightarrow>
          (\<exists>k''. read_user ?E ?L a k' = Ret 0 k''))" if a: "\<not> kernel_entry (kmem (k_paging k) (slot pd0 (pde_index a)))" for a
    using segment_reads [OF run(1) room run(2) [OF a] sg assms(8) x(3,4) ki e(3) assms(6)] assms(9)
      segment_reads(2) [OF run(1) room run(2) [OF a] st x(3,4) ki e(3) assms(6)] by (auto simp: zeros_start_def)
  then show ?thesis using e(1) by blast
qed

section \<open>An example\<close>

text \<open>The task of \<open>exit_sample\<close>, in its address space, with a path in its page, above the disk with the small executable.\<close>

definition exec_sample :: kernel where
  "exec_sample = exit_sample\<lparr>k_machine := boot_machine\<lparr>cr3 := 0x110000\<rparr>, k_super := tiny_super,
     k_interrupts := register_exception_handler 14 Page_fault_handler boot_interrupts, k_phys := (\<lambda>_. 0)(0x400010 := 0x2f, 0x400011 := 0x61)\<rparr>"

abbreviation exec_call :: call_env where
  "exec_call \<equiv> \<lparr>c_env = image_drive elf_fs, c_symbols = sample_symbols, c_typed = [], c_components = replicate 992 0, c_phdr = 0xc0190000\<rparr>"

abbreviation exec_task :: task_t where
  "exec_task \<equiv> zero_task\<lparr>t_prev := 0xc0180000, t_next := 0xc0180000, t_state := TASK_RUNNING, t_pid := 1, t_mm := 0xc02020d4,
     t_kernel_stack_base := 0xc02000c8\<rparr>"

abbreviation exec_phdr :: elf32_phdr_t where
  "exec_phdr \<equiv> \<lparr>p_type = 1, p_offset = 84, p_vaddr = 0x8048054, p_paddr = 0, p_filesz = 4, p_memsz = 4, p_flags = 5, p_align = 4096\<rparr>"

lemma exec_sample_same:
  "k_heap exec_sample = k_heap exit_sample" "k_mms exec_sample = k_mms exit_sample" "k_vmas exec_sample = k_vmas exit_sample"
  "k_files exec_sample = k_files exit_sample" "k_inodes exec_sample = k_inodes exit_sample" "k_paging exec_sample = k_paging exit_sample"
  "k_frames exec_sample = k_frames exit_sample" "k_tasks exec_sample = k_tasks exit_sample" "current_task exec_sample = 0xc020000c"
  "k_disk exec_sample = sample_disk" "k_super exec_sample = tiny_super" "get_cr3 (k_machine exec_sample) = 0x110000"
  by (simp_all add: exec_sample_def exit_sample_def boot_kernel_def get_cr3_def)

lemma exec_sample_caller: "caller sample_symbols 0xc0200000 exec_sample exec_task [0xc02020e8] 0xc0110000"
proof -
  have "objects exec_sample \<subseteq> insert (sym_idle_task sample_symbols) (fst ` allocated (k_heap exec_sample))"
    unfolding exec_sample_same exit_sample_heap(2) objects_def by (simp add: exit_sample_def sample_symbols_def)
  then have "objects_ok sample_symbols 0xc0200000 exec_sample"
    using exit_sample_heap(1) by (simp add: objects_ok_def exec_sample_same sample_symbols_def)
  moreover have "space_owned sample_symbols 0xc0200000 exec_sample 0xc02020d4 [0xc02020e8] 0xc0110000"
    using exit_sample_space by (subst space_owned_cong(1) [of exec_sample exit_sample]) (simp_all add: exec_sample_same)
  ultimately show ?thesis by (simp add: caller_def exec_sample_same) (simp add: exit_sample_def get_pd_lma_def)
qed

lemma exec_sample_pools:
  "pd_used sample_symbols (k_paging exec_sample) \<noteq> pd_pages sample_symbols" "pt_used sample_symbols (k_paging exec_sample) \<noteq> pt_pages sample_symbols"
  "frames_used (k_frames exec_sample) \<noteq> user_frames" "0x400000 \<in> frames_used (k_frames exec_sample)"
  "0xc0130000 \<in> pt_used sample_symbols (k_paging exec_sample)"
proof -
  have "pd_used sample_symbols (k_paging exec_sample) \<subseteq> {0xc0110000}" unfolding exec_sample_same
    by (auto simp: pd_used_def pool_used_def exit_sample_def sample_symbols_def pool_page_def nth_list_update split: if_splits)
  moreover have "0xc0111000 \<in> pd_pages sample_symbols"
    unfolding pd_pages_def pool_pages_def by (rule image_eqI [of _ _ 1]) (simp_all add: sample_symbols_def pool_page_def)
  ultimately show "pd_used sample_symbols (k_paging exec_sample) \<noteq> pd_pages sample_symbols" by auto
  have "pt_used sample_symbols (k_paging exec_sample) \<subseteq> {0xc0130000}" unfolding exec_sample_same
    by (auto simp: pt_used_def pool_used_def exit_sample_def sample_symbols_def pool_page_def nth_list_update split: if_splits)
  moreover have "0xc0131000 \<in> pt_pages sample_symbols"
    unfolding pt_pages_def pool_pages_def by (rule image_eqI [of _ _ 1]) (simp_all add: sample_symbols_def pool_page_def)
  ultimately show "pt_used sample_symbols (k_paging exec_sample) \<noteq> pt_pages sample_symbols" by auto
  show "0xc0130000 \<in> pt_used sample_symbols (k_paging exec_sample)" unfolding exec_sample_same pt_used_def pool_used_def
    by (rule image_eqI [of _ _ 0]) (simp_all add: exit_sample_def sample_symbols_def pool_page_def)
  show "0x400000 \<in> frames_used (k_frames exec_sample)" unfolding exec_sample_same frames_used_def pool_used_def
    by (rule image_eqI [of _ _ 1024]) (simp_all add: exit_sample_def pool_page_def init_frames_nth)
  have "frames_used (k_frames exec_sample) \<subseteq> {0x400000}" unfolding exec_sample_same
    by (auto simp: frames_used_def pool_used_def exit_sample_def pool_page_def nth_list_update init_frames_nth split: if_splits)
  moreover have "0x401000 \<in> user_frames" unfolding user_frames_def pool_pages_def by (rule image_eqI [of _ _ 1025]) (simp_all add: pool_page_def)
  ultimately show "frames_used (k_frames exec_sample) \<noteq> user_frames" by auto
qed

lemma exec_sample_walk:
  "unat i < 1024 \<Longrightarrow> kmem (k_paging exec_sample) (slot 0xc0110000 i) = (if i = 0 then 0x130007 else 0)"
  "page_walk (kmem (k_paging exec_sample)) 0xc0110000 v = (if page_of v = 0 then Some (0x400000, 7) else None)"
proof -
  have al: "page_aligned 0xc0110000" "page_aligned 0xc0130000" by (simp_all add: page_aligned_def)
  have z: "slot 0xc0110000 0 = 0xc0110000" "slot 0xc0130000 0 = 0xc0130000" by (simp_all add: slot_def)
  have d: "slot 0xc0110000 i = 0xc0110000 \<longleftrightarrow> i = 0" "slot 0xc0110000 i \<noteq> 0xc0130000" "slot 0xc0130000 i = 0xc0130000 \<longleftrightarrow> i = 0" "slot 0xc0130000 i \<noteq> 0xc0110000"
    if "unat i < 1024" for i
    using slot_eq_iff [OF al(1,1), of i 0] slot_eq_iff [OF al, of i 0] slot_eq_iff [OF al(2,2), of i 0] slot_eq_iff [OF al(2,1), of i 0] that z by simp_all
  have m: "kmem (k_paging exec_sample) = (\<lambda>_. 0)(0xc0110000 := 0x130007, 0xc0130000 := 0x400007)" by (simp add: exec_sample_same exit_sample_def)
  have k: "kmem (k_paging exec_sample) (slot 0xc0110000 i) = (if i = 0 then 0x130007 else 0)" if "unat i < 1024" for i using d [OF that] by (simp add: m)
  then show "unat i < 1024 \<Longrightarrow> kmem (k_paging exec_sample) (slot 0xc0110000 i) = (if i = 0 then 0x130007 else 0)" .
  have t: "kmem (k_paging exec_sample) (slot 0xc0130000 i) = (if i = 0 then 0x400007 else 0)" if "unat i < 1024" for i using d [OF that] by (simp add: m)
  have p: "page_of v = 0 \<longleftrightarrow> pde_index v = 0 \<and> pte_index v = 0" using same_page_iff [of v 0] by (simp add: page_of_def pde_index_def pte_index_def)
  have "get_pd_vma 0x130007 = 0xc0130000" by (simp add: get_pd_vma_def)
  then show "page_walk (kmem (k_paging exec_sample)) 0xc0110000 v = (if page_of v = 0 then Some (0x400000, 7) else None)"
    unfolding p page_walk_def Let_def k [OF index_bounds(1)] using t [of "pte_index v"] by (cases "pte_index v = 0") simp_all
qed

lemma exec_sample_running: "running sample_symbols exec_sample 0xc0110000 [0xc02020e8]"
proof -
  let ?m = "kmem (k_paging exec_sample)"
  have pr: "pde_present ?m 0xc0110000 i \<longleftrightarrow> i = 0" for i
    using exec_sample_walk(1) [of i] by (cases "i = 0") (auto simp: pde_present_def)
  have t: "table_of ?m 0xc0110000 0 = 0xc0130000" using exec_sample_walk(1) [of 0] by (simp add: table_of_def get_pd_vma_def)
  have own: "space_owned sample_symbols 0xc0200000 exec_sample 0xc02020d4 [0xc02020e8] 0xc0110000" using exec_sample_caller by (simp add: caller_def)
  have so: "symbols_ok sample_symbols" by (rule sample_symbols_ok)
  have "0xc0110000 \<in> pd_pages sample_symbols"
    unfolding pd_pages_def pool_pages_def by (rule image_eqI [of _ _ 0]) (simp_all add: sample_symbols_def pool_page_def)
  then have np: "0xc0110000 \<notin> pt_pages sample_symbols" using pool_pages_apart(3) [OF so] by blast
  have "tables_ok ?m 0xc0110000" using t by (simp add: tables_ok_def pr page_aligned_def)
  moreover have "\<forall>i. pde_present ?m 0xc0110000 i \<longrightarrow> table_of ?m 0xc0110000 i \<in> pt_pages sample_symbols \<longrightarrow>
      table_of ?m 0xc0110000 i \<in> pt_used sample_symbols (k_paging exec_sample)" using t exec_sample_pools(5) by (simp add: pr)
  ultimately have "space_ok sample_symbols exec_sample 0xc0110000"
    unfolding space_ok_def exec_sample_walk(2) using np own exec_sample_pools(4) by (auto simp: space_owned_def split: if_splits)
  moreover have "mm_areas exec_sample 0xc02020d4 [0xc02020e8]"
    by (simp add: mm_areas_def vma_chain_def areas_ok_def vma_at_def page_aligned_def exec_sample_def exit_sample_def)
  moreover have "exception_handlers (k_interrupts exec_sample) ! 14 = Some Page_fault_handler"
    by (simp add: exec_sample_def register_exception_handler_def boot_interrupts_def)
  moreover have "k_tasks exec_sample 0xc020000c = Some exec_task" "k_mms exec_sample 0xc02020d4 = Some \<lparr>mm_pgd = 0xc0110000, mm_mmap = 0xc02020e8\<rparr>"
    by (simp_all add: exec_sample_def exit_sample_def)
  ultimately show ?thesis by (simp add: running_def exec_sample_same get_pd_lma_def)
qed

lemma exec_sample_path: "user_string exec_sample 0x10 [0x2f, 0x61]"
proof -
  have "get_pd_vma (get_cr3 (k_machine exec_sample)) = 0xc0110000" by (simp add: exec_sample_same get_pd_vma_def)
  then have "translate exec_sample 0x10 = Some 0x400010" "translate exec_sample 0x11 = Some 0x400011" "translate exec_sample 0x12 = Some 0x400012"
    by (simp_all add: translate_def exec_sample_walk(2) page_of_def)
  then have "user_buffer exec_sample 0x10 [0x400010, 0x400011, 0x400012]" by (simp add: user_buffer_Cons) (simp add: user_buffer_def)
  then show ?thesis unfolding user_string_def by (intro conjI exI [of _ "[0x400010, 0x400011, 0x400012]"]) (simp_all add: exec_sample_def)
qed

lemma elf_block: "length (block_of (sectors_of elf_fs) z) = 1024" "i < 512 \<Longrightarrow> block_of (sectors_of elf_fs) b ! i = elf_fs (2048 + 2 * b) ! i"
  "n \<le> 512 \<Longrightarrow> take n (block_of (sectors_of elf_fs) b) = take n (elf_fs (2048 + 2 * b))"
  by (simp_all add: block_of_def sectors_of_def upt_rec nth_append elf_fs_length)

lemma elf_inodes:
  "spec_inode (block_of (sectors_of elf_fs)) tiny_super 1 = tiny_root" "spec_inode (block_of (sectors_of elf_fs)) tiny_super 2 = elf_inode"
proof -
  have maps: "s_imap_blocks (super_of tiny_super) = 1" "s_zmap_blocks (super_of tiny_super) = 1"
    by (simp_all add: tiny_super_def super_of_def get16_def tiny_byte tiny_fs_def pad_nth)
  note d = spec_inode_def Let_def maps inode_of_def upt_0_9 get16_def get32_def elf_block(2) elf_fs_def pad_nth
  show "spec_inode (block_of (sectors_of elf_fs)) tiny_super 1 = tiny_root" by (simp add: d tiny_root_def)
  show "spec_inode (block_of (sectors_of elf_fs)) tiny_super 2 = elf_inode" by (simp add: d elf_inode_def tiny_file_def)
qed

lemma elf_resolves: "resolves (block_of (sectors_of elf_fs)) tiny_super tiny_root (path_names [0x2f, 0x61]) (Some elf_inode)"
  unfolding tiny_names
proof (rule resolves.found [where k = 2])
  have size: "unat (i_size tiny_root) = 32" by (simp add: tiny_root_def)
  show "is_directory tiny_root" by (rule tiny_lookup(1))
  have "spec_zone (block_of (sectors_of elf_fs)) tiny_root 0 = Some 5" by (simp add: spec_zone_def Let_def tiny_root_def)
  then show "file_slice (block_of (sectors_of elf_fs)) tiny_root 0 (unat (i_size tiny_root)) = Some ([2, 0, 0x61] @ replicate 29 0)"
    unfolding size using file_slice_block [of 0 32 "block_of (sectors_of elf_fs)" tiny_root] elf_block(1)
    by (simp add: elf_block(3) elf_fs_def tiny_fs_def pad_def)
  show "dir_lookup ([2, 0, 0x61] @ replicate 29 0) 0 (unat (i_size tiny_root) div 32) [0x61] = Some 2"
    unfolding size using tiny_lookup(3) by simp
  show "resolves (block_of (sectors_of elf_fs)) tiny_super (spec_inode (block_of (sectors_of elf_fs)) tiny_super 2) [] (Some elf_inode)"
    unfolding elf_inodes by (rule resolves.here)
qed

lemma elf_executable: "executable (block_of (sectors_of elf_fs)) elf_inode (take 52 elf_image) [exec_phdr]"
proof -
  have sl: "file_slice (block_of (sectors_of elf_fs)) elf_inode 0 52 = Some (take 52 elf_image)"
    "file_slice (block_of (sectors_of elf_fs)) elf_inode 52 32 = Some (take 32 (drop 52 elf_image))" using elf_slice [of 0 52] elf_slice [of 52 32] by simp_all
  have sz: "unat (i_size elf_inode) = 88" by (simp add: elf_inode_def)
  have pl: "plain_segment exec_phdr" by (simp add: plain_segment_def segment_fits_def align_down_def)
  have sp: "segment_spans exec_phdr = [(0x8048000, 0x8049000)]" by (simp add: segment_spans_def Let_def align_down_def align_up_def)
  show ?thesis unfolding executable_def sz elf_headers(1)
    by (intro conjI exI [of _ "take 32 (drop 52 elf_image)"]) (simp_all add: sl pl sp elf_headers(2) spans_apart_def)
qed

lemma exec_sample_ready: "can_execve exec_call length 1 elf_fs 0xc0200000 exec_sample exec_task [0xc02020e8] 0xc0110000 0x10 elf_inode (take 52 elf_image) [exec_phdr]"
proof -
  have "fits 0xc0200000 [(176, False), (8192, False), (8, False), (32, False), (8, False), (32, False), (57004, True)]" by (simp add: fits_def)
  from has_room_rep [OF this] have room: "has_room (k_heap exec_sample) (160 + 52 * length (concat (map segment_spans [exec_phdr])))"
    by (simp add: exec_sample_same exit_sample_def segment_spans_def Let_def align_down_def align_up_def)
  have po: "path_ok [0x2f, 0x61]" by (simp add: path_ok_def path_names_def)
  have h: "healthy_inv (image_drive elf_fs) length 1 elf_fs (sample_disk, k_machine exec_sample)" by (rule image_drive_inv [OF elf_fs_length])
  show ?thesis unfolding can_execve_def Let_def
    using exec_sample_caller exec_sample_pools(1) h exec_sample_path po elf_resolves elf_executable room
    by (intro conjI exI [of _ "[0x2f, 0x61]"]) (simp_all add: exec_sample_same elf_inodes)
qed

section \<open>Properties\<close>

text \<open>
  C6. A successful \<open>execve\<close>: when the path, a string in user memory, names an executable on a healthy disk, whose segments need no zeros in a page of the
  file, and there is a directory and room on the heap, \<open>sys_execve\<close> returns 0 with the registers cleared, at the entry point of the ELF header
  and the top of the user stack. The task runs in a new address space, whose areas are the stack and the segments and no others and whose directory has the kernel's
  entries only; all that the old address space owned, its areas, files, inodes, directory, tables and frames, is given back; no other object,
  task or page table changes; and the state is again one in which \<open>execve\<close> may be called.
\<close>

theorem execve_correct:
  assumes "can_execve C T K img base k t xs pd0 (ebx regs) i hb phs"
  shows "\<exists>k' f mm pd ys. sys_execve C regs k = Ret (Some (0, regs\<lparr>edi := 0, esi := 0, ebp := 0, ebx := 0, edx := 0, ecx := 0,
        user_eip := e_entry (ehdr_of hb), user_eflags := 0x202, user_esp := USER_STACK_TOP\<rparr>)) k'
    \<and> executed (c_symbols C) base k t xs pd0 i phs f mm pd ys k' \<and> healthy_inv (c_env C) T K img (k_disk k', k_machine k')"
  using assms by (rule execve_succeeds)

theorem execve_correct_witness:
  "\<exists>k' pd. sys_execve exec_call (zero_regs\<lparr>ebx := 0x10\<rparr>) exec_sample = Ret (Some (0, zero_regs\<lparr>user_eip := 0x8048054, user_esp := 0xc0000000\<rparr>)) k'
     \<and> k_files k' 0xc0202114 = None \<and> pd_used sample_symbols (k_paging k') = insert pd (pd_used sample_symbols (k_paging exec_sample)) - {0xc0110000}"
proof -
  have "can_execve exec_call length 1 elf_fs 0xc0200000 exec_sample exec_task [0xc02020e8] 0xc0110000 (ebx (zero_regs\<lparr>ebx := 0x10\<rparr>)) elf_inode
      (take 52 elf_image) [exec_phdr]" using exec_sample_ready by simp
  from execve_correct [OF this] obtain k' f mm pd ys where
    e: "sys_execve exec_call (zero_regs\<lparr>ebx := 0x10\<rparr>) exec_sample = Ret (Some (0, zero_regs\<lparr>user_eip := 0x8048054, user_esp := 0xc0000000\<rparr>)) k'"
      "executed sample_symbols 0xc0200000 exec_sample exec_task [0xc02020e8] 0xc0110000 elf_inode [exec_phdr] f mm pd ys k'" by (auto simp: elf_headers)
  obtain q where q: "replaced ({f, q, mm} \<union> set ys) (space_parts exec_sample 0xc02020d4 [0xc02020e8]) exec_sample k'"
    "pd_used sample_symbols (k_paging k') = insert pd (pd_used sample_symbols (k_paging exec_sample)) - {0xc0110000}" using e(2) by (auto simp: executed_def Let_def)
  have f: "0xc0202114 \<in> objects exec_sample" "0xc0202114 \<in> space_parts exec_sample 0xc02020d4 [0xc02020e8]"
    by (simp_all add: objects_def space_parts_def files_parts_def area_files_def exec_sample_same exit_sample_def vma_at_def file_parts_def)
  have "({f, q, mm} \<union> set ys) \<inter> objects exec_sample = {}" using q(1) unfolding replaced_def Int_Un_distrib by simp
  then have "0xc0202114 \<notin> {f, q, mm} \<union> set ys" using f(1) by blast
  then have "k_files k' 0xc0202114 = without (space_parts exec_sample 0xc02020d4 [0xc02020e8]) (k_files exec_sample) 0xc0202114"
    using q(1) unfolding replaced_def by blast
  then show ?thesis using e(1) q(2) f(2) by (auto simp: without_def)
qed



text \<open>
  C17. Objects and their types: mapping an area, creating a task and releasing an address space return, on every path, in a state where each kernel object is in
  a heap region that is in use, or is the static idle task, and no address holds objects of two types; so no store is left with
  an object whose region has been given back.
\<close>

theorem objects_stay_typed:
  assumes "objects_typed L base k" and "k_tasks k (current_task k) = Some t" and "mm_areas k (t_mm t) xs" and "space_owned L base k (t_mm t) xs pd"
    and "get_pd_vma (get_cr3 (k_machine k)) \<notin> pd_pages L - pd_used L (k_paging k)"
  shows "(\<forall>addr len f offset. unat addr + unat len + 4095 < 4294967296 \<and> 0 < len \<longrightarrow>
        (\<exists>r k'. do_mmap addr len f offset k = Ret r k' \<and> objects_typed L base k'))
    \<and> (\<exists>a k'. create_task L par k = Ret a k' \<and> objects_typed L base k')
    \<and> (\<exists>k'. release_mm L (t_mm t) k = Ret () k' \<and> objects_typed L base k')"
proof -
  have "pd_ok L (k_paging k)" using assms(4) by (simp add: space_owned_def)
  then show ?thesis using do_mmap_typed [OF assms(1-3)] create_task_typed [OF assms(1) _ assms(5)] release_mm_typed [OF assms(1,4)] by blast
qed

theorem objects_stay_typed_witness:
  "(\<exists>r k'. do_mmap 0x8000 0x1000 0 0 exec_sample = Ret r k' \<and> objects_typed sample_symbols 0xc0200000 k')
   \<and> (\<exists>k'. release_mm sample_symbols 0xc02020d4 exec_sample = Ret () k' \<and> objects_typed sample_symbols 0xc0200000 k')"
proof -
  have c: "objects_typed sample_symbols 0xc0200000 exec_sample" "k_tasks exec_sample (current_task exec_sample) = Some exec_task"
    "space_owned sample_symbols 0xc0200000 exec_sample (t_mm exec_task) [0xc02020e8] 0xc0110000" "0xc0110000 \<in> pd_used sample_symbols (k_paging exec_sample)"
    using exec_sample_caller by (simp_all add: caller_def objects_typed_def space_owned_def)
  have m: "mm_areas exec_sample (t_mm exec_task) [0xc02020e8]"
    by (simp add: mm_areas_def vma_chain_def areas_ok_def vma_at_def page_aligned_def exec_sample_def exit_sample_def)
  have "get_pd_vma (get_cr3 (k_machine exec_sample)) = 0xc0110000" by (simp add: exec_sample_same get_pd_vma_def)
  then have "get_pd_vma (get_cr3 (k_machine exec_sample)) \<notin> pd_pages sample_symbols - pd_used sample_symbols (k_paging exec_sample)" using c(4) by simp
  note t = objects_stay_typed [OF c(1,2) m c(3) this, of 0]
  from t [THEN conjunct1, rule_format, of "0x8000" "0x1000" 0 0] t [THEN conjunct2, THEN conjunct2] show ?thesis by simp
qed

end
