(* ===== verification/Spec2Isabelle.thy ===== *)
theory Spec2Isabelle
  imports Boot User Execve
begin

text \<open>
  A verification library for potato-OS, a 32-bit x86 operating system in C. The kernel
  (\<^verbatim>\<open>kernel/\<close>, \<^verbatim>\<open>include/kernel/\<close>) is entered by the boot code, initialises the machine,
  builds one user process from an executable on a Minix disk, and then runs only when an interrupt, an
  exception or a system call enters it. The user side is a library of system call stubs (\<^verbatim>\<open>lib/\<close>) and two
  programs (\<^verbatim>\<open>programs/\<close>).

  \<^bold>\<open>Parts and theories.\<close> Each theory models the named files, one definition per function, under the
  function's name where it is free; a function's branches and early returns are those of the code.

  \<^item> \<open>Prelude\<close>: fixed-width integers as words, C strings, the type \<open>outcome\<close> of an operation that
    may not return, the addresses the linker fixes (\<open>symbols\<close>), shared lemmas and collections.
  \<^item> \<open>Port_IO\<close> (\<^verbatim>\<open>io.h\<close>): port instructions append to the history of the \<open>machine\<close>; what a
    port answers is the parameter \<open>env\<close>, a function of the history.
  \<^item> \<open>Console\<close> (\<^verbatim>\<open>console.c\<close>): cells, cursor, scrolling and number printing.
  \<^item> \<open>Heap\<close> (\<^verbatim>\<open>heap.c\<close>): block headers in a map from addresses, first-fit search, splitting,
    coalescing; its abstraction is a list of sizes and free bits.
  \<^item> \<open>Frames\<close> (\<^verbatim>\<open>memory.c\<close>), \<open>Paging\<close> (\<^verbatim>\<open>paging.c\<close>), \<open>Gdt\<close>
    (\<^verbatim>\<open>gdt.c\<close>, \<^verbatim>\<open>tss.c\<close>): physical frames, page directories and tables, segments and
    the task state segment.
  \<^item> \<open>Interrupts\<close> (\<^verbatim>\<open>interrupts.c\<close>, \<^verbatim>\<open>exceptions.c\<close>, \<^verbatim>\<open>timer.c\<close>): gates,
    interrupt controllers, handler tables. \<open>Tty\<close> (\<^verbatim>\<open>tty.c\<close>, \<^verbatim>\<open>keyboard.c\<close>): the ring of typed
    characters. \<open>Pci\<close> (\<^verbatim>\<open>pci.c\<close>): the bus scan.
  \<^item> \<open>Disk\<close> (\<^verbatim>\<open>disk.c\<close>): bus-master transfers; \<open>Block_Device\<close>: what a file system relies on;
    \<open>Fs\<close> (\<^verbatim>\<open>fs.c\<close>): the file system over any block device; \<open>Storage\<close>: the two together.
  \<^item> \<open>Kernel\<close>: the record \<open>kernel\<close> of all components' states and the stores of the objects the
    kernel keeps on its heap (tasks, address spaces, areas, files, inodes).
  \<^item> \<open>Process\<close> (\<^verbatim>\<open>process.c\<close>), \<open>Mmap\<close> (\<^verbatim>\<open>mmap.c\<close>), \<open>Sched\<close>
    (\<^verbatim>\<open>sched.c\<close>), \<open>Fault\<close> (\<^verbatim>\<open>fault.c\<close>, the exception dispatcher, \<open>padzero\<close>),
    \<open>Elf\<close> (\<^verbatim>\<open>elf.c\<close>): tasks, areas, the ring of tasks, demand paging, the loader.
    \<open>Sched_Spec\<close> holds the abstract round robin scheduler and the simulation, \<open>Teardown\<close> what is given
    back when an address space or a task ends, \<open>Image\<close> how a new address space is loaded beside the old one.
  \<^item> \<open>Irq\<close> (\<open>interrupts_dispatch\<close>), \<open>Syscall\<close> (\<^verbatim>\<open>syscall.c\<close>), \<open>Boot\<close>
    (\<^verbatim>\<open>main.c\<close>), \<open>User\<close> (\<^verbatim>\<open>lib/\<close>, \<^verbatim>\<open>programs/\<close>): the entries of the
    kernel and the code on the other side of them. \<open>Execve\<close> follows a successful \<open>execve\<close> through all parts.

  \<^bold>\<open>Interfaces.\<close> Where a component relies on another, a locale states the contract and the provider
  interprets it on its own definitions.

  \<^item> \<open>allocator\<close> (interpreted by the heap): an allocation returns null or a new region apart from
    all others, a release undoes it.
  \<^item> \<open>page_pool\<close> (interpreted three times: frames, page directories, page tables).
  \<^item> \<open>bounded_queue\<close> (the terminal's ring, of capacity 255).
  \<^item> \<open>block_device\<close> and its extension \<open>healthy_device\<close> (the disk, when the drive may fail and when
    it does not); \<open>minix_fs\<close> extends \<open>block_device\<close> and carries every lemma of the file system,
    and \<open>Storage\<close> interprets it on the disk for both cases.
  \<^item> \<open>round_robin\<close>: what is simulated by the abstract scheduler is fair. It is interpreted on the
    scheduler's tick and on the clock interrupt with its five-tick time slice.

  \<^bold>\<open>What is shown.\<close>

  \<^item> Memory. The heap's invariant is kept by every operation; \<open>kmalloc\<close> succeeds exactly when a
    block fits, \<open>kfree\<close> after \<open>kmalloc\<close> restores the heap; frames and tables are handed out once;
    \<open>map_page\<close> and \<open>unmap_page\<close> change the translation of one page.
  \<^item> Storage. A read of the disk delivers the stored sectors or reports failure, ends even for a dead
    drive, and \<open>vfs_read\<close> delivers the bytes of the file (direct, indirect and double indirect
    zones) and never others; \<open>vfs_open\<close> agrees with the relation \<open>resolves\<close> on directory trees.
  \<^item> Processes. Creating a task builds the frame \<open>enter_user\<close> expects, and destroying it gives
    everything back; areas stay sorted and disjoint under \<open>do_mmap\<close>; the page fault handler
    maps exactly the faulting page with the bytes of its area or panics, reading through demand paging is
    reading the image of the area; the loader's areas are those of the program headers, and a loaded segment
    reads as the file followed by zeros.
  \<^item> Scheduling. The ring refines the abstract scheduler, every run of its operations keeps the invariant, a
    switch there and back restores the registers, and a ready task is reached by preemption within one
    round of time slices. A task that exits and is reaped leaves the round robin of the others, and exactly the
    heap regions, files, tables and frames it owned are given back.
  \<^item> Entries. The dispatcher calls the registered handler and refuses the others; terminal calls transfer
    the typed and printed characters; a failing \<open>execve\<close> keeps the caller; a successful one leaves an
    address space of exactly the stack and the segments, gives back all that the old one owned, and the program
    that runs reads as the file; a boot that reaches user mode does so with every invariant established; the
    shell runs the line as edited.
  \<^item> Objects. Operations on tasks, areas and address spaces keep every kernel object in a heap region that is in
    use, and no address holds objects of two types.

  \<^bold>\<open>Termination.\<close> There is no fuel. A loop whose end depends on the shape of a structure or on a
  device is a \<^theory_text>\<open>partial_function (option)\<close>, where \<open>None\<close> (and \<open>Stop Diverges\<close> in its
  callers) is a loop without end, and theorems state that the code returns. All other loops are recursive
  functions with a termination proof.

  \<^bold>\<open>Parameters and assumptions.\<close> Devices are the parameter \<open>env\<close>; the contracts used of it are named:
  a drive that delivers what is stored (\<open>ata_env\<close>), a clock that advances, and a drive that becomes
  ready (\<open>healthy_inv\<close>). Addresses fixed by the linker are the parameter \<open>symbols\<close>; what is relied on of
  them (alignment, distance, range) is a hypothesis. Each hypothesis has an instance in the witness of its
  theorem. The theorems on a successful \<open>execve\<close> take executables whose zeros start on a page of their own, so
  that \<open>padzero\<close> has nothing to clear; clearing is shown correct by itself in \<open>Fault\<close>. They ask for a free heap block of
  160 bytes and 52 for each area, the sizes of the objects with the headers that splitting may add.

  \<^bold>\<open>Choices.\<close> Kernel objects live in typed stores, so an access to a released object is \<open>Bad_access\<close>.
  User memory is the bytes of the physical frames above the kernel's 4 MiB, reached through the page
  tables. A function that switches tasks results in \<open>Switched\<close>, and \<open>resume_task\<close> is what happens
  when the caller continues. A system call is atomic except for the characters that are typed while its caller
  sleeps: interrupts between two statements of kernel code are not interleaved.

  \<^bold>\<open>Not modelled.\<close> \<^verbatim>\<open>boot/boot.asm\<close>, the linker script, the build files and the boot
  menu are not C; the naked assembly stubs are represented by the registers they hand to the dispatchers;
  \<^verbatim>\<open>stdarg.h\<close> is not used by the kernel. A byte stored by the kernel into its own image through a user
  pointer is not described.
\<close>

end
